(* ===== verification/Prelude.thy ===== *)
theory Prelude
  imports "HOL-Library.Word" "HOL-Library.List_Lexorder" "HOL-Library.Sublist"
begin

text \<open>
  Shared vocabulary of the development: the machine types, the error values, byte
  buffers with offset reads and writes, little- and big-endian codecs, and the generic
  lemmas that the component theories use.

  \<^item> A Rust \<open>u8\<close>, \<open>u16\<close>, \<open>u32\<close>, \<open>u64\<close> is a word of that width; a \<open>usize\<close> that only
    counts or indexes is a \<open>nat\<close>.
  \<^item> A byte slice or vector is a list of bytes; Rust's ordering of slices is the
    lexicographic order of \<open>List_Lexorder\<close> on unsigned bytes.
  \<^item> A \<open>Result\<close> is a sum with the fault on the left; a panic is a fault too.  The
    development follows the debug profile of the compiler, in which \<open>debug_assert!\<close> and
    arithmetic overflow panic.
  \<^item> Multi-byte integers that the code keeps in memory through pointer casts are stored
    little-endian, as on the x86-64 and AArch64 targets the crate is built for.
\<close>

unbundle bit_operations_syntax

named_theorems buffer_simps \<open>reads and writes of byte buffers\<close>
named_theorems layout_simps \<open>sizes and offsets of the on-page layouts\<close>
named_theorems field_simps64 \<open>bit fields packed in a 64-bit word\<close>

section \<open>Machine types and faults\<close>

type_synonym u8 = "8 word"
type_synonym u16 = "16 word"
type_synonym u32 = "32 word"
type_synonym u64 = "64 word"
type_synonym bytes = "u8 list"

text \<open>The error type of the crate (error.rs).\<close>

datatype qs_error =
    PageLockFail
  | OLCRetriesExceeded
  | CacheExhausted
  | SplitFailed
  | MergeFailed
  | NodeFull
  | ParentChildMissing
  | TreeFull
  | KeyTooLarge

text \<open>
  The ways a call can fail to return a value: an error of the crate, the
  \<open>InsufficientSpace\<close> of node.rs, the \<open>BPRestart\<close> of btree.rs, a panic, or undefined
  behaviour reached through \<open>unsafe\<close> code.
\<close>

datatype rust_panic =
    PanicTodo
  | PanicExpect
  | PanicBounds
  | PanicOverflow
  | PanicAssert
  | PanicUnreachable

datatype fault =
    QSErr qs_error
  | InsufficientSpace
  | BPRestart
  | Panic rust_panic
  | UndefinedBehaviour

type_synonym 'a result = "fault + 'a"

lemma unat_bounds:
  "unat (a :: u8) < 256" "unat (b :: u16) < 65536" "unat (c :: u32) < 4294967296"
  "unat (d :: u64) < 18446744073709551616"
proof -
  have "unat a < 2 ^ LENGTH(8)" "unat b < 2 ^ LENGTH(16)" "unat c < 2 ^ LENGTH(32)"
    "unat d < 2 ^ LENGTH(64)"
    by (rule unsigned_less)+
  then show "unat a < 256" "unat b < 65536" "unat c < 4294967296" "unat d < 18446744073709551616"
    by simp_all
qed

section \<open>Byte buffers\<close>

definition read_at :: "'a list \<Rightarrow> nat \<Rightarrow> nat \<Rightarrow> 'a list" where
  "read_at p off n = take n (drop off p)"

definition write_at :: "'a list \<Rightarrow> nat \<Rightarrow> 'a list \<Rightarrow> 'a list" where
  "write_at p off bs = take off p @ bs @ drop (off + length bs) p"

text \<open>
  \<open>ptr::copy\<close>: an overlapping-safe move of \<open>n\<close> bytes inside one buffer.
\<close>

definition copy_within :: "'a list \<Rightarrow> nat \<Rightarrow> nat \<Rightarrow> nat \<Rightarrow> 'a list" where
  "copy_within p src dst n = write_at p dst (read_at p src n)"

lemma length_read_at [simp]: "length (read_at p off n) = min n (length p - off)"
  by (simp add: read_at_def)

lemma length_write_at [simp]:
  "off + length bs \<le> length p \<Longrightarrow> length (write_at p off bs) = length p"
  by (simp add: write_at_def)

lemma nth_read_at [buffer_simps]:
  "i < n \<Longrightarrow> off + i < length p \<Longrightarrow> read_at p off n ! i = p ! (off + i)"
  by (simp add: read_at_def)

lemma nth_write_at [buffer_simps]:
  assumes "off + length bs \<le> length p" and "i < length p"
  shows "write_at p off bs ! i =
    (if off \<le> i \<and> i < off + length bs then bs ! (i - off) else p ! i)"
  using assms by (auto simp: write_at_def nth_append)

lemma read_at_eqI:
  assumes "off + n \<le> length p" and "off' + n \<le> length q"
    and "\<And>i. i < n \<Longrightarrow> p ! (off + i) = q ! (off' + i)"
  shows "read_at p off n = read_at q off' n"
  using assms by (intro nth_equalityI) (auto simp: nth_read_at)

lemma read_write_same [buffer_simps]:
  assumes "off + length bs \<le> length p" and "n = length bs"
  shows "read_at (write_at p off bs) off n = bs"
  using assms by (intro nth_equalityI) (auto simp: buffer_simps)

lemma read_write_disjoint [buffer_simps]:
  assumes "off + length bs \<le> length p" and "i + n \<le> off \<or> off + length bs \<le> i"
    and "i + n \<le> length p"
  shows "read_at (write_at p off bs) i n = read_at p i n"
  using assms by (intro read_at_eqI) (auto simp: nth_write_at)

lemma read_write_within:
  assumes "off + length bs \<le> length p" and "off \<le> i" and "i + n \<le> off + length bs"
  shows "read_at (write_at p off bs) i n = read_at bs (i - off) n"
  using assms by (intro read_at_eqI) (auto simp: nth_write_at)

lemma write_at_overlay:
  assumes "off + length bs \<le> length p" and "length cs = length bs"
  shows "write_at (write_at p off bs) off cs = write_at p off cs"
  using assms by (intro nth_equalityI) (auto simp: buffer_simps)

lemma write_at_commute:
  assumes "off + length bs \<le> length p" and "off' + length cs \<le> length p"
    and "off + length bs \<le> off' \<or> off' + length cs \<le> off"
  shows "write_at (write_at p off bs) off' cs = write_at (write_at p off' cs) off bs"
  using assms by (intro nth_equalityI) (auto simp: nth_write_at)

lemma write_at_Nil [simp]: "off \<le> length p \<Longrightarrow> write_at p off [] = p"
  by (simp add: write_at_def)

lemma write_read_id [simp]: "off + n \<le> length p \<Longrightarrow> write_at p off (read_at p off n) = p"
  by (intro nth_equalityI) (auto simp: nth_write_at nth_read_at)

lemma read_at_append:
  "off + a + b \<le> length p \<Longrightarrow> read_at p off (a + b) = read_at p off a @ read_at p (off + a) b"
  by (simp add: read_at_def take_add add.commute)

lemma read_at_0 [simp]: "read_at p off 0 = []"
  by (simp add: read_at_def)

lemma length_copy_within [simp]:
  "src + n \<le> length p \<Longrightarrow> dst + n \<le> length p \<Longrightarrow> length (copy_within p src dst n) = length p"
  by (simp add: copy_within_def)

lemma read_copy_within:
  assumes "src + n \<le> length p" and "dst + n \<le> length p"
    and "dst \<le> i" and "i + k \<le> dst + n"
  shows "read_at (copy_within p src dst n) i k = read_at p (src + (i - dst)) k"
  using assms unfolding copy_within_def
  by (intro read_at_eqI) (auto simp: nth_write_at nth_read_at add.assoc)

lemma read_copy_within_disjoint:
  assumes "src + n \<le> length p" and "dst + n \<le> length p"
    and "i + k \<le> dst \<or> dst + n \<le> i" and "i + k \<le> length p"
  shows "read_at (copy_within p src dst n) i k = read_at p i k"
  using assms unfolding copy_within_def by (intro read_write_disjoint) auto

section \<open>Byte codecs\<close>

text \<open>
  \<open>to_le_bytes\<close>, \<open>from_le_bytes\<close> and their big-endian counterparts; the first argument is
  the number of bytes.
\<close>

primrec le_bytes :: "nat \<Rightarrow> 'a::len word \<Rightarrow> bytes" where
  "le_bytes 0 w = []"
| "le_bytes (Suc n) w = ucast w # le_bytes n (drop_bit 8 w)"

primrec of_le_bytes :: "bytes \<Rightarrow> 'a::len word" where
  "of_le_bytes [] = 0"
| "of_le_bytes (b # bs) = ucast b OR push_bit 8 (of_le_bytes bs)"

definition be_bytes :: "nat \<Rightarrow> 'a::len word \<Rightarrow> bytes" where
  "be_bytes n w = rev (le_bytes n w)"

definition of_be_bytes :: "bytes \<Rightarrow> 'a::len word" where
  "of_be_bytes bs = of_le_bytes (rev bs)"

definition u64_to_le_bytes :: "u64 \<Rightarrow> bytes" where
  "u64_to_le_bytes w = le_bytes 8 w"

definition u64_from_le_bytes :: "bytes \<Rightarrow> u64" where
  "u64_from_le_bytes bs = of_le_bytes bs"

definition u32_to_le_bytes :: "u32 \<Rightarrow> bytes" where
  "u32_to_le_bytes w = le_bytes 4 w"

definition u32_from_le_bytes :: "bytes \<Rightarrow> u32" where
  "u32_from_le_bytes bs = of_le_bytes bs"

definition u16_to_le_bytes :: "u16 \<Rightarrow> bytes" where
  "u16_to_le_bytes w = le_bytes 2 w"

definition u16_from_le_bytes :: "bytes \<Rightarrow> u16" where
  "u16_from_le_bytes bs = of_le_bytes bs"

lemma length_le_bytes [simp]: "length (le_bytes n w) = n"
  by (induction n arbitrary: w) auto

lemma length_be_bytes [simp]: "length (be_bytes n w) = n"
  by (simp add: be_bytes_def)

lemma of_le_bytes_le_bytes: "of_le_bytes (le_bytes n w) = take_bit (8 * n) (w :: 'a::len word)"
proof (induction n arbitrary: w)
  case 0
  show ?case by simp
next
  case (Suc n)
  show ?case by (rule bit_word_eqI) (auto simp: Suc bit_simps)
qed

lemma of_be_bytes_be_bytes: "of_be_bytes (be_bytes n w) = take_bit (8 * n) (w :: 'a::len word)"
  by (simp add: be_bytes_def of_be_bytes_def of_le_bytes_le_bytes)

lemma take_bit_full64: "take_bit 64 (w :: u64) = w"
  by (simp add: take_bit_word_eq_self)

lemma take_bit_full32: "take_bit 32 (w :: u32) = w"
  by (simp add: take_bit_word_eq_self)

lemma take_bit_full16: "take_bit 16 (w :: u16) = w"
  by (simp add: take_bit_word_eq_self)

text \<open>
  The contract of a fixed-width codec, and what a client of one may rely on: a field
  written at an offset of a buffer reads back, and survives writes elsewhere.
\<close>

locale codec =
  fixes enc :: "'a \<Rightarrow> bytes" and dec :: "bytes \<Rightarrow> 'a" and width :: nat
  assumes enc_length: "length (enc x) = width"
    and dec_enc: "dec (enc x) = x"
begin

lemma dec_take_enc: "dec (take width (enc x @ rest)) = x"
  by (simp add: enc_length dec_enc)

lemma drop_enc: "drop width (enc x @ rest) = rest"
  by (simp add: enc_length)

lemma enc_inject: "enc x = enc y \<longleftrightarrow> x = y"
  by (metis dec_enc)

lemma dec_read_write:
  "off + width \<le> length p \<Longrightarrow> dec (read_at (write_at p off (enc x)) off width) = x"
  by (simp add: read_write_same enc_length dec_enc)

lemma dec_read_write_other:
  "off + width \<le> length p \<Longrightarrow> i + width \<le> length p \<Longrightarrow> i + width \<le> off \<or> off + width \<le> i \<Longrightarrow>
    dec (read_at (write_at p off (enc x)) i width) = dec (read_at p i width)"
  by (simp add: read_write_disjoint enc_length)

end

interpretation u64le: codec u64_to_le_bytes u64_from_le_bytes 8
  by unfold_locales
    (simp_all add: u64_to_le_bytes_def u64_from_le_bytes_def of_le_bytes_le_bytes take_bit_full64)

interpretation u32le: codec u32_to_le_bytes u32_from_le_bytes 4
  by unfold_locales
    (simp_all add: u32_to_le_bytes_def u32_from_le_bytes_def of_le_bytes_le_bytes take_bit_full32)

interpretation u16le: codec u16_to_le_bytes u16_from_le_bytes 2
  by unfold_locales
    (simp_all add: u16_to_le_bytes_def u16_from_le_bytes_def of_le_bytes_le_bytes take_bit_full16)

lemmas codec_lengths [simp] = u64le.enc_length u32le.enc_length u16le.enc_length
lemmas codec_roundtrips [simp] = u64le.dec_enc u32le.dec_enc u16le.dec_enc

section \<open>Bit fields\<close>

text \<open>
  A field of \<open>n\<close> bits that starts at bit \<open>lo\<close>, as the specification of the packed words:
  reading it, and replacing it while every other bit stays.
\<close>

definition field :: "nat \<Rightarrow> nat \<Rightarrow> u64 \<Rightarrow> u64" where
  "field lo n w = take_bit n (drop_bit lo w)"

definition with_field :: "nat \<Rightarrow> nat \<Rightarrow> u64 \<Rightarrow> u64 \<Rightarrow> u64" where
  "with_field lo n v w = (w AND NOT (push_bit lo (mask n))) OR push_bit lo (take_bit n v)"

lemma bit_field [bit_simps]: "bit (field lo n w) i \<longleftrightarrow> i < n \<and> bit w (lo + i)"
  by (auto simp: field_def bit_simps)

lemma bit_with_field [bit_simps]:
  "bit (with_field lo n v w) i \<longleftrightarrow>
    i < 64 \<and> (if lo \<le> i \<and> i < lo + n then bit v (i - lo) else bit w i)"
  by (auto simp: with_field_def bit_simps dest: bit_imp_le_length)

lemma field_with_field [field_simps64]:
  "lo + n \<le> 64 \<Longrightarrow> field lo n (with_field lo n v w) = take_bit n v"
  by (rule bit_word_eqI) (auto simp: bit_simps)

lemma field_with_other [field_simps64]:
  "lo + n \<le> lo' \<or> lo' + n' \<le> lo \<Longrightarrow> field lo' n' (with_field lo n v w) = field lo' n' w"
  by (rule bit_word_eqI) (auto simp: bit_simps dest: bit_imp_le_length)

lemma with_field_twice:
  "lo + n \<le> 64 \<Longrightarrow> with_field lo n v (with_field lo n u w) = with_field lo n v w"
  by (rule bit_word_eqI) (auto simp: bit_simps)

lemma with_field_self: "with_field lo n (field lo n w) w = w"
  by (rule bit_word_eqI) (auto simp: bit_simps dest: bit_imp_le_length)

text \<open>
  The contract of a getter and a setter that implement one field of a packed word.
\<close>

locale packed_field =
  fixes get :: "u64 \<Rightarrow> u64" and set :: "u64 \<Rightarrow> u64 \<Rightarrow> u64" and lo n :: nat
  assumes get_field: "get w = field lo n w"
    and set_field: "set v w = with_field lo n v w"
    and fits: "lo + n \<le> 64"
begin

lemma get_set: "get (set v w) = take_bit n v"
  by (simp add: get_field set_field field_with_field fits)

lemma set_set: "set v (set u w) = set v w"
  by (simp add: set_field with_field_twice fits)

lemma set_get: "set (get w) w = w"
  by (simp add: get_field set_field with_field_self)

lemma other_field: "lo + n \<le> lo' \<or> lo' + n' \<le> lo \<Longrightarrow> field lo' n' (set v w) = field lo' n' w"
  by (simp add: set_field field_with_other)

end

section \<open>Byte strings\<close>

text \<open>The length of the longest common prefix, as the iterator chain of node.rs counts it.\<close>

fun common_prefix_len :: "bytes \<Rightarrow> bytes \<Rightarrow> nat" where
  "common_prefix_len (a # as) (b # bs) = (if a = b then Suc (common_prefix_len as bs) else 0)"
| "common_prefix_len _ _ = 0"

lemma common_prefix_len_le:
  "common_prefix_len as bs \<le> length as" "common_prefix_len as bs \<le> length bs"
  by (induction as bs rule: common_prefix_len.induct) auto

lemma common_prefix_len_take:
  "take (common_prefix_len as bs) as = take (common_prefix_len as bs) bs"
  by (induction as bs rule: common_prefix_len.induct) auto

lemma append_less_cancel_left [simp]: "(ps @ xs < ps @ ys) = (xs < (ys :: bytes))"
  by (induction ps) auto

lemma append_le_cancel_left [simp]: "(ps @ xs \<le> ps @ ys) = (xs \<le> (ys :: bytes))"
  by (induction ps) auto

section \<open>Sorted lists of keys\<close>

text \<open>
  A key list without duplicates is sorted by the strict order; lookup and insertion in an
  association list sorted this way are the specification of the leaf operations.
\<close>

abbreviation key_sorted :: "('k::linorder \<times> 'v) list \<Rightarrow> bool" where
  "key_sorted kvs \<equiv> sorted_wrt (<) (map fst kvs)"

fun upsert :: "'k::linorder \<Rightarrow> 'v \<Rightarrow> ('k \<times> 'v) list \<Rightarrow> ('k \<times> 'v) list" where
  "upsert k v [] = [(k, v)]"
| "upsert k v ((k', v') # kvs) =
    (if k < k' then (k, v) # (k', v') # kvs
     else if k = k' then (k, v) # kvs
     else (k', v') # upsert k v kvs)"

lemma map_of_upsert: "map_of (upsert k v kvs) = (map_of kvs)(k \<mapsto> v)"
  by (induction kvs) auto

lemma set_fst_upsert: "fst ` set (upsert k v kvs) = insert k (fst ` set kvs)"
  by (induction k v kvs rule: upsert.induct) (simp_all add: insert_commute)

lemma key_sorted_upsert: "key_sorted kvs \<Longrightarrow> key_sorted (upsert k v kvs)"
proof (induction kvs)
  case (Cons p kvs)
  obtain k' v' where p: "p = (k', v')" by (cases p)
  have "set (map fst (upsert k v kvs)) = insert k (fst ` set kvs)"
    by (simp add: set_fst_upsert)
  with Cons p show ?case by (fastforce simp: set_fst_upsert)
qed simp

lemma upsert_absent:
  "(\<And>x. x \<in> set xs \<Longrightarrow> fst x < k) \<Longrightarrow> (\<And>y. y \<in> set ys \<Longrightarrow> k < fst y) \<Longrightarrow>
    upsert k v (xs @ ys) = xs @ (k, v) # ys"
proof (induction xs)
  case Nil
  then show ?case by (cases ys) force+
next
  case (Cons x xs)
  then have "fst x < k" by simp
  with Cons show ?case by (cases x) auto
qed

lemma upsert_present:
  "(\<And>x. x \<in> set xs \<Longrightarrow> fst x < k) \<Longrightarrow> upsert k v (xs @ (k, w) # ys) = xs @ (k, v) # ys"
proof (induction xs)
  case (Cons x xs)
  then have "fst x < k" by simp
  with Cons show ?case by (cases x) auto
qed simp

lemma upt_split3: "a \<le> i \<Longrightarrow> i < b \<Longrightarrow> [a..<b] = [a..<i] @ i # [Suc i..<b]"
  using upt_add_eq_append[of a i "b - i"] by (simp add: upt_conv_Cons)

lemma upsert_map_prefix:
  "map (\<lambda>(k, v). (ps @ k, v)) (upsert k v kvs) = upsert (ps @ k) v (map (\<lambda>(k, v). (ps @ k, v)) kvs)"
  for k :: bytes
proof (induction kvs)
  case (Cons x kvs)
  then show ?case by (cases x) simp
qed simp

lemma map_of_prefix: "map_of (map (\<lambda>(k, v). (ps @ k, v)) kvs) (ps @ k) = map_of kvs k"
  by (induction kvs) auto

lemma fold_min_le: "fold min xs (x :: nat) \<le> x" "y \<in> set xs \<Longrightarrow> fold min xs x \<le> y"
proof (induction xs arbitrary: x)
  case (Cons a xs)
  { case 1 from Cons(1)[of "min a x"] show ?case by simp }
  { case 2 then show ?case using Cons(1)[of "min a x"] Cons(2)[of "min a x"] by auto }
qed simp_all

lemma fold_min_in: "fold min xs (x :: nat) \<in> set (x # xs)"
proof (induction xs arbitrary: x)
  case (Cons a xs)
  from Cons[of "min a x"] show ?case by (auto simp: min_def split: if_splits)
qed simp

section \<open>Invariants of step relations\<close>

text \<open>The contract of an inductive invariant: what every step keeps holds in every reachable state.\<close>

locale step_invariant =
  fixes step :: "'s \<Rightarrow> 's \<Rightarrow> bool" and inv :: "'s \<Rightarrow> bool"
  assumes step_inv: "inv s \<Longrightarrow> step s s' \<Longrightarrow> inv s'"
begin

lemma reach_inv: "step\<^sup>*\<^sup>* s s' \<Longrightarrow> inv s \<Longrightarrow> inv s'"
  by (induction rule: rtranclp_induct) (auto intro: step_inv)

end

end
