(* ===== verification/Types.thy ===== *)
theory Types
  imports Prelude
begin

text \<open>
  The packed metadata words of types.rs: \<open>KVMeta\<close> (one 64-bit word per record of a leaf),
  \<open>KVRecordType\<close>, \<open>NodeSize\<close> and \<open>NodeMeta\<close> (the two-word header of a leaf or mini-page).
  The lemmas show which getters and setters form independent bit fields, that packing and
  unpacking round-trips within the documented widths, and which header fields overlap.
\<close>

section \<open>KVMeta\<close>

datatype KVRecordType = KVInsert | KVCache | KVTombstone | KVPhantom

primrec KVRecordType_repr :: "KVRecordType \<Rightarrow> u64" where
  "KVRecordType_repr KVInsert = 3"
| "KVRecordType_repr KVCache = 1"
| "KVRecordType_repr KVTombstone = 2"
| "KVRecordType_repr KVPhantom = 0"

text \<open>The \<open>transmute\<close> of a two-bit value: every value is a discriminant.\<close>

definition KVRecordType_transmute :: "u64 \<Rightarrow> KVRecordType" where
  "KVRecordType_transmute b =
    (if b = 3 then KVInsert else if b = 1 then KVCache else if b = 2 then KVTombstone else KVPhantom)"

definition KVRecordType_is_dirty :: "KVRecordType \<Rightarrow> bool" where
  "KVRecordType_is_dirty t =
    (case t of KVInsert \<Rightarrow> True | KVTombstone \<Rightarrow> True | KVCache \<Rightarrow> True | KVPhantom \<Rightarrow> True)"

definition KVRecordType_exists :: "KVRecordType \<Rightarrow> bool" where
  "KVRecordType_exists t =
    (case t of KVInsert \<Rightarrow> True | KVCache \<Rightarrow> True | KVTombstone \<Rightarrow> True | KVPhantom \<Rightarrow> True)"

text \<open>The table above the enumeration in types.rs, which the two methods are to compute.\<close>

definition documented_dirty :: "KVRecordType \<Rightarrow> bool" where
  "documented_dirty t \<longleftrightarrow> t = KVInsert \<or> t = KVTombstone"

definition documented_exists :: "KVRecordType \<Rightarrow> bool" where
  "documented_exists t \<longleftrightarrow> t = KVInsert \<or> t = KVCache"

type_synonym kv_meta = u64

definition KVMeta_new ::
    "nat \<Rightarrow> nat \<Rightarrow> nat \<Rightarrow> KVRecordType \<Rightarrow> bool \<Rightarrow> bool \<Rightarrow> u16 \<Rightarrow> kv_meta" where
  "KVMeta_new key_size val_size offset typ is_fence refb lookahead =
    (let acc = 0;
         acc = acc OR push_bit 50 (word_of_nat key_size);
         acc = acc OR push_bit 36 (word_of_nat val_size);
         acc = acc OR push_bit 20 (word_of_nat offset);
         acc = acc OR push_bit 18 (KVRecordType_repr typ);
         acc = acc OR push_bit 17 (of_bool is_fence);
         acc = acc OR push_bit 16 (of_bool refb);
         acc = acc OR ucast lookahead
     in acc)"

definition KVMeta_key_size :: "kv_meta \<Rightarrow> nat" where
  "KVMeta_key_size m = unat (drop_bit 50 m)"

definition KVMeta_set_key_size :: "kv_meta \<Rightarrow> u16 \<Rightarrow> kv_meta result" where
  "KVMeta_set_key_size m key_size = Inl (Panic PanicTodo)"

definition KVMeta_val_size :: "kv_meta \<Rightarrow> nat" where
  "KVMeta_val_size m = unat (drop_bit 50 (push_bit 14 m))"

definition KVMeta_set_val_size :: "kv_meta \<Rightarrow> u16 \<Rightarrow> kv_meta result" where
  "KVMeta_set_val_size m val_size = Inl (Panic PanicTodo)"

definition KVMeta_offset :: "kv_meta \<Rightarrow> nat" where
  "KVMeta_offset m = unat (drop_bit 48 (push_bit 28 m))"

definition KVMeta_set_offset :: "kv_meta \<Rightarrow> u16 \<Rightarrow> kv_meta" where
  "KVMeta_set_offset m offset =
    (m AND NOT (push_bit 20 0xFFFF)) OR push_bit 20 (ucast offset)"

definition KVMeta_typ :: "kv_meta \<Rightarrow> KVRecordType" where
  "KVMeta_typ m = KVRecordType_transmute (drop_bit 62 (push_bit 44 m))"

definition KVMeta_fence :: "kv_meta \<Rightarrow> bool" where
  "KVMeta_fence m \<longleftrightarrow> (push_bit 17 1 AND m) = push_bit 17 1"

definition KVMeta_ref_bit :: "kv_meta \<Rightarrow> bool" where
  "KVMeta_ref_bit m \<longleftrightarrow> (push_bit 16 1 AND m) = push_bit 16 1"

definition KVMeta_set_ref_bit :: "kv_meta \<Rightarrow> bool \<Rightarrow> kv_meta" where
  "KVMeta_set_ref_bit m val = (m AND NOT (push_bit 16 1)) OR push_bit 16 (of_bool val)"

definition KVMeta_is_dirty :: "kv_meta \<Rightarrow> bool" where
  "KVMeta_is_dirty m \<longleftrightarrow>
    (case KVMeta_typ m of KVInsert \<Rightarrow> True | KVTombstone \<Rightarrow> True | _ \<Rightarrow> False)"

definition KVMeta_set_record_type :: "kv_meta \<Rightarrow> KVRecordType \<Rightarrow> kv_meta" where
  "KVMeta_set_record_type m typ =
    (m AND NOT (push_bit 18 3)) OR push_bit 18 (KVRecordType_repr typ)"

definition KVMeta_look_ahead :: "kv_meta \<Rightarrow> u16" where
  "KVMeta_look_ahead m = ucast (0xFFFF AND m)"

section \<open>NodeSize\<close>

datatype NodeSize = N64 | N128 | N256 | N512 | N1K | N2K | LeafPage

primrec NodeSize_index :: "NodeSize \<Rightarrow> nat" where
  "NodeSize_index N64 = 0"
| "NodeSize_index N128 = 1"
| "NodeSize_index N256 = 2"
| "NodeSize_index N512 = 3"
| "NodeSize_index N1K = 4"
| "NodeSize_index N2K = 5"
| "NodeSize_index LeafPage = 6"

text \<open>\<open>usize::next_power_of_two\<close>: the least power of two that is at least the argument.\<close>

function next_power_of_two_from :: "nat \<Rightarrow> nat \<Rightarrow> nat" where
  "next_power_of_two_from p n = (if p < n \<and> 0 < p then next_power_of_two_from (2 * p) n else p)"
  by pat_completeness auto
termination
  by (relation "measure (\<lambda>(p, n). n - p)") auto

declare next_power_of_two_from.simps [simp del]

definition NodeSize_from_byte_num :: "nat \<Rightarrow> NodeSize option" where
  "NodeSize_from_byte_num bytes =
    (let cand = next_power_of_two_from 1 bytes div 64 in
     if cand = 0 then Some N64
     else if cand = 1 then Some N128
     else if cand = 2 then Some N256
     else if cand = 3 then Some N512
     else if cand = 4 then Some N1K
     else if cand = 5 then Some N2K
     else if cand = 6 then Some LeafPage
     else None)"

definition NodeSize_size_in_words :: "NodeSize \<Rightarrow> nat" where
  "NodeSize_size_in_words s = (let d = NodeSize_index s in 2 ^ d * 8)"

definition NodeSize_size_in_bytes :: "NodeSize \<Rightarrow> nat" where
  "NodeSize_size_in_bytes s = NodeSize_size_in_words s * 8"

text \<open>
  The \<open>transmute\<close> of three header bits.  Seven is not a discriminant of the enumeration:
  producing a \<open>NodeSize\<close> from it is undefined behaviour, the value None here.
\<close>

definition NodeSize_transmute :: "u64 \<Rightarrow> NodeSize option" where
  "NodeSize_transmute b =
    (if b = 0 then Some N64 else if b = 1 then Some N128 else if b = 2 then Some N256
     else if b = 3 then Some N512 else if b = 4 then Some N1K else if b = 5 then Some N2K
     else if b = 6 then Some LeafPage else None)"

section \<open>NodeMeta\<close>

record node_meta =
  nm0 :: u64
  nm1 :: u64

definition RECORD_COUNT_MASK :: u64 where "RECORD_COUNT_MASK = 0x1FF"
definition SPLIT_BIT :: u64 where "SPLIT_BIT = push_bit 9 1"
definition LIVE_BIT :: u64 where "LIVE_BIT = push_bit 10 1"
definition FREELIST_BIT :: u64 where "FREELIST_BIT = push_bit 11 1"
definition EVICT_BIT :: u64 where "EVICT_BIT = push_bit 12 1"
definition HOT_BIT :: u64 where "HOT_BIT = push_bit 13 1"

definition size_of_NodeMeta :: nat where "size_of_NodeMeta = 16"

text \<open>
  The two header words that \<open>NodeMeta::init\<close> writes once the disk address and the page
  identifier of the new mini-page are known.
\<close>

definition NodeMeta_init_header :: "u64 \<Rightarrow> NodeSize \<Rightarrow> u64 \<Rightarrow> node_meta" where
  "NodeMeta_init_header disk_addr sz page =
    (let w0 = push_bit 16 disk_addr;
         w0 = w0 OR push_bit 13 (word_of_nat (NodeSize_index sz));
         w0 = w0 AND NOT (SPLIT_BIT OR FREELIST_BIT OR EVICT_BIT);
         w0 = w0 OR LIVE_BIT;
         w1 = push_bit 16 page;
         free = 4096 - size_of_NodeMeta;
         w1 = w1 OR word_of_nat free
     in \<lparr>nm0 = w0, nm1 = w1\<rparr>)"

definition NodeMeta_leaf :: "node_meta \<Rightarrow> u64" where
  "NodeMeta_leaf m = drop_bit 16 (nm0 m)"

definition NodeMeta_size :: "node_meta \<Rightarrow> NodeSize option" where
  "NodeMeta_size m = NodeSize_transmute (drop_bit 13 (nm0 m) AND 7)"

definition NodeMeta_set_flag :: "node_meta \<Rightarrow> u64 \<Rightarrow> bool \<Rightarrow> node_meta" where
  "NodeMeta_set_flag m msk val =
    (if val then m\<lparr>nm0 := nm0 m OR msk\<rparr> else m\<lparr>nm0 := nm0 m AND NOT msk\<rparr>)"

definition NodeMeta_is_live :: "node_meta \<Rightarrow> bool" where
  "NodeMeta_is_live m \<longleftrightarrow> nm0 m AND LIVE_BIT \<noteq> 0"

definition NodeMeta_set_live :: "node_meta \<Rightarrow> bool \<Rightarrow> node_meta" where
  "NodeMeta_set_live m live = NodeMeta_set_flag m LIVE_BIT live"

definition NodeMeta_is_being_evicted :: "node_meta \<Rightarrow> bool" where
  "NodeMeta_is_being_evicted m \<longleftrightarrow> nm0 m AND EVICT_BIT \<noteq> 0"

definition NodeMeta_set_being_evicted :: "node_meta \<Rightarrow> bool \<Rightarrow> node_meta" where
  "NodeMeta_set_being_evicted m val = NodeMeta_set_flag m EVICT_BIT val"

definition NodeMeta_mark_for_eviction :: "node_meta \<Rightarrow> unit + node_meta" where
  "NodeMeta_mark_for_eviction m =
    (if NodeMeta_is_being_evicted m \<or> \<not> NodeMeta_is_live m then Inl ()
     else Inr (NodeMeta_set_being_evicted m True))"

definition NodeMeta_clear_eviction :: "node_meta \<Rightarrow> node_meta" where
  "NodeMeta_clear_eviction m = NodeMeta_set_being_evicted m False"

definition NodeMeta_is_hot :: "node_meta \<Rightarrow> bool" where
  "NodeMeta_is_hot m \<longleftrightarrow> nm0 m AND HOT_BIT \<noteq> 0"

definition NodeMeta_mark_hot :: "node_meta \<Rightarrow> node_meta" where
  "NodeMeta_mark_hot m = NodeMeta_set_flag m HOT_BIT True"

definition NodeMeta_clear_hot :: "node_meta \<Rightarrow> node_meta" where
  "NodeMeta_clear_hot m = NodeMeta_set_flag m HOT_BIT False"

definition NodeMeta_record_count :: "node_meta \<Rightarrow> u16" where
  "NodeMeta_record_count m = ucast (nm0 m AND RECORD_COUNT_MASK)"

definition NodeMeta_set_record_count :: "node_meta \<Rightarrow> u16 \<Rightarrow> node_meta" where
  "NodeMeta_set_record_count m count =
    m\<lparr>nm0 := (nm0 m AND NOT RECORD_COUNT_MASK) OR (ucast count AND RECORD_COUNT_MASK)\<rparr>"

definition NodeMeta_inc_record_count :: "node_meta \<Rightarrow> node_meta result" where
  "NodeMeta_inc_record_count m =
    (let c = NodeMeta_record_count m in
     if c < 0xFFFF then Inr (NodeMeta_set_record_count m (c + 1))
     else Inl (Panic PanicExpect))"

definition NodeMeta_dec_record_count :: "node_meta \<Rightarrow> node_meta result" where
  "NodeMeta_dec_record_count m =
    (let c = NodeMeta_record_count m in
     if c \<noteq> 0 then Inr (NodeMeta_set_record_count m (c - 1))
     else Inl (Panic PanicExpect))"

definition NodeMeta_page_id :: "node_meta \<Rightarrow> u64" where
  "NodeMeta_page_id m = drop_bit 16 (nm1 m)"

definition NodeMeta_reset_header :: "node_meta \<Rightarrow> u64 \<Rightarrow> NodeSize \<Rightarrow> u64 \<Rightarrow> node_meta" where
  "NodeMeta_reset_header m page_id sz disk_addr =
    (let w0 = push_bit 16 disk_addr;
         w0 = w0 OR push_bit 13 (word_of_nat (NodeSize_index sz));
         w0 = w0 AND NOT (SPLIT_BIT OR FREELIST_BIT OR EVICT_BIT);
         w0 = w0 OR LIVE_BIT;
         m = m\<lparr>nm0 := w0\<rparr>;
         free = NodeSize_size_in_bytes sz - size_of_NodeMeta;
         w1 = push_bit 16 page_id;
         w1 = w1 OR (word_of_nat free AND 0xFFFF);
         m = m\<lparr>nm1 := w1\<rparr>
     in NodeMeta_set_record_count m 0)"

definition NodeMeta_set_disk_addr :: "node_meta \<Rightarrow> u64 \<Rightarrow> node_meta" where
  "NodeMeta_set_disk_addr m disk_addr =
    m\<lparr>nm0 := (nm0 m AND (push_bit 16 1 - 1)) OR push_bit 16 disk_addr\<rparr>"

definition NodeMeta_set_page_id_field :: "node_meta \<Rightarrow> u64 \<Rightarrow> node_meta" where
  "NodeMeta_set_page_id_field m page_id =
    m\<lparr>nm1 := (nm1 m AND 0xFFFF) OR push_bit 16 page_id\<rparr>"

definition NodeMeta_set_identity :: "node_meta \<Rightarrow> u64 \<Rightarrow> u64 \<Rightarrow> node_meta" where
  "NodeMeta_set_identity m page_id disk_addr =
    NodeMeta_set_page_id_field (NodeMeta_set_disk_addr m disk_addr) page_id"

text \<open>Where a page lives: the decoded form of a mapping-table entry.\<close>

datatype NodeRef = Leaf u64 | MiniPage nat

section \<open>Fields of KVMeta\<close>

lemmas kv_meta_defs = KVMeta_new_def KVMeta_key_size_def KVMeta_val_size_def KVMeta_offset_def
  KVMeta_set_offset_def KVMeta_typ_def KVMeta_fence_def KVMeta_ref_bit_def
  KVMeta_set_ref_bit_def KVMeta_set_record_type_def KVMeta_look_ahead_def

lemma key_size_field: "KVMeta_key_size m = unat (field 50 14 m)"
  unfolding KVMeta_key_size_def
  by (rule arg_cong[where f = unat], rule bit_word_eqI) (auto simp: bit_simps dest: bit_imp_le_length)

lemma val_size_field: "KVMeta_val_size m = unat (field 36 14 m)"
  unfolding KVMeta_val_size_def
  by (rule arg_cong[where f = unat], rule bit_word_eqI) (auto simp: bit_simps dest: bit_imp_le_length)

lemma offset_field: "KVMeta_offset m = unat (field 20 16 m)"
  unfolding KVMeta_offset_def
  by (rule arg_cong[where f = unat], rule bit_word_eqI) (auto simp: bit_simps dest: bit_imp_le_length)

lemma typ_field: "KVMeta_typ m = KVRecordType_transmute (field 18 2 m)"
  unfolding KVMeta_typ_def
  by (rule arg_cong[where f = KVRecordType_transmute], rule bit_word_eqI)
    (auto simp: bit_simps dest: bit_imp_le_length)

lemma and_mask_simps:
  "0xFFFF AND w = take_bit 16 (w :: u64)"
  "w AND 0xFFFF = take_bit 16 (w :: u64)"
  "w AND 0x1FF = take_bit 9 (w :: u64)"
  "w AND 7 = take_bit 3 (w :: u64)"
  by (simp_all add: take_bit_eq_mask mask_eq_decr_exp and.commute)

lemma not_mask_simps:
  "w AND NOT (push_bit 20 0xFFFF) = with_field 20 16 0 (w :: u64)"
  "w AND NOT (push_bit 18 3) = with_field 18 2 0 (w :: u64)"
  "w AND NOT (push_bit 16 1) = with_field 16 1 0 (w :: u64)"
  "w AND NOT 0x1FF = with_field 0 9 0 (w :: u64)"
  by (simp_all add: with_field_def mask_eq_decr_exp)

lemma look_ahead_field: "KVMeta_look_ahead m = ucast (field 0 16 m)"
  by (simp add: KVMeta_look_ahead_def and_mask_simps field_def)

lemma single_bit_and: "k < 64 \<Longrightarrow> (push_bit k 1 AND w = push_bit k 1) = bit (w :: u64) k"
  by (auto simp: bit_eq_iff [where 'a = u64] bit_simps)

lemma and_single_bit: "k < 64 \<Longrightarrow> (w AND push_bit k 1 \<noteq> 0) = bit (w :: u64) k"
  by (auto simp: bit_eq_iff [where 'a = u64] bit_simps)

lemma fence_bit: "KVMeta_fence m = bit m 17"
  by (simp only: KVMeta_fence_def single_bit_and)

lemma ref_bit_bit: "KVMeta_ref_bit m = bit m 16"
  by (simp only: KVMeta_ref_bit_def single_bit_and)

lemma set_offset_field: "KVMeta_set_offset m off = with_field 20 16 (ucast off) m"
  unfolding KVMeta_set_offset_def not_mask_simps
  by (rule bit_word_eqI) (auto simp: bit_simps dest: bit_imp_le_length)

lemma set_ref_bit_field: "KVMeta_set_ref_bit m b = with_field 16 1 (of_bool b) m"
  unfolding KVMeta_set_ref_bit_def not_mask_simps
  by (rule bit_word_eqI) (auto simp: bit_simps)

lemma record_type_repr_small: "take_bit 2 (KVRecordType_repr t) = KVRecordType_repr t"
  by (cases t) simp_all

lemma set_record_type_field:
  "KVMeta_set_record_type m t = with_field 18 2 (KVRecordType_repr t) m"
  unfolding KVMeta_set_record_type_def not_mask_simps
  by (simp add: with_field_def record_type_repr_small)

lemma transmute_repr [simp]: "KVRecordType_transmute (KVRecordType_repr t) = t"
  by (cases t) (simp_all add: KVRecordType_transmute_def)

interpretation kv_offset: packed_field "\<lambda>m. field 20 16 m" "\<lambda>v m. KVMeta_set_offset m (ucast v)" 20 16
  by unfold_locales
    (simp_all add: set_offset_field, rule bit_word_eqI, auto simp: bit_simps)

interpretation kv_ref: packed_field "\<lambda>m. of_bool (KVMeta_ref_bit m)"
    "\<lambda>v m. KVMeta_set_ref_bit m (bit v 0)" 16 1
proof unfold_locales
  show "of_bool (KVMeta_ref_bit w) = field 16 1 w" for w
    by (rule bit_word_eqI) (auto simp: ref_bit_bit bit_simps)
  show "KVMeta_set_ref_bit w (bit v 0) = with_field 16 1 v w" for v w
    by (rule bit_word_eqI) (auto simp: set_ref_bit_field bit_simps)
qed simp

interpretation kv_typ: packed_field "\<lambda>m. KVRecordType_repr (KVMeta_typ m)"
    "\<lambda>v m. KVMeta_set_record_type m (KVRecordType_transmute (take_bit 2 v))" 18 2
proof unfold_locales
  have small: "KVRecordType_repr (KVRecordType_transmute (take_bit 2 b)) = take_bit 2 b" for b
  proof -
    have "unat (take_bit 2 b) < 2 ^ 2"
      by (simp only: unsigned_take_bit_eq take_bit_nat_less_exp)
    then have "take_bit 2 b \<in> {0, 1, 2, 3}"
      by (auto simp: word_unat_eq_iff)
    then show ?thesis by (auto simp: KVRecordType_transmute_def)
  qed
  fix w v :: u64
  have "take_bit 2 (field 18 2 w) = field 18 2 w"
    by (simp add: field_def)
  with small[of "field 18 2 w"] show "KVRecordType_repr (KVMeta_typ w) = field 18 2 w"
    by (simp add: typ_field)
  show "KVMeta_set_record_type w (KVRecordType_transmute (take_bit 2 v)) = with_field 18 2 v w"
    by (simp add: set_record_type_field small with_field_def)
qed simp

lemma bit_nat_bound: "n < 2 ^ k \<Longrightarrow> bit (n :: nat) i \<Longrightarrow> i < k"
  by (metis bit_take_bit_iff take_bit_nat_eq_self)

lemma bit_record_type_repr: "bit (KVRecordType_repr t) i \<Longrightarrow> i < 2"
  by (metis bit_take_bit_iff record_type_repr_small)

lemma bit_KVMeta_new:
  assumes "ks < 2 ^ 14" and "vs < 2 ^ 14" and "off < 2 ^ 16"
  shows "bit (KVMeta_new ks vs off t f r la) i \<longleftrightarrow>
    (if i < 16 then bit la i else if i = 16 then r else if i = 17 then f
     else if i < 20 then bit (KVRecordType_repr t) (i - 18)
     else if i < 36 then bit off (i - 20)
     else if i < 50 then bit vs (i - 36)
     else bit ks (i - 50))"
proof -
  have bits: "bit (KVMeta_new ks vs off t f r la) i \<longleftrightarrow>
      i < 64 \<and> (50 \<le> i \<and> bit ks (i - 50) \<or> 36 \<le> i \<and> bit vs (i - 36) \<or>
        20 \<le> i \<and> bit off (i - 20) \<or> 18 \<le> i \<and> bit (KVRecordType_repr t) (i - 18) \<or>
        i = 17 \<and> f \<or> i = 16 \<and> r \<or> bit la i)"
  proof (cases "i < 64")
    case True
    have eqs: "(17 \<le> i \<and> i \<le> 17 \<and> f) = (i = 17 \<and> f)" "(16 \<le> i \<and> i \<le> 16 \<and> r) = (i = 16 \<and> r)"
      by auto
    have "i - k < 64" for k
      using True by simp
    with True show ?thesis
      by (simp add: KVMeta_new_def bit_simps eqs)
  next
    case False
    then show ?thesis
      using bit_imp_le_length[of "KVMeta_new ks vs off t f r la" i] by auto
  qed
  have ks: "50 \<le> i \<Longrightarrow> bit ks (i - 50) \<Longrightarrow> i < 64"
    using bit_nat_bound[OF assms(1), of "i - 50"] by auto
  have vs: "50 \<le> i \<Longrightarrow> \<not> bit vs (i - 36)"
    using bit_nat_bound[OF assms(2), of "i - 36"] by auto
  have off: "36 \<le> i \<Longrightarrow> \<not> bit off (i - 20)"
    using bit_nat_bound[OF assms(3), of "i - 20"] by auto
  have t: "20 \<le> i \<Longrightarrow> \<not> bit (KVRecordType_repr t) (i - 18)"
    using bit_record_type_repr[of t "i - 18"] by auto
  have la: "16 \<le> i \<Longrightarrow> \<not> bit la i"
    using bit_imp_le_length[of la i] by auto
  have la': "\<not> bit la 16" "\<not> bit la 17"
    using bit_imp_le_length[of la] by fastforce+
  consider "i < 16" | "i = 16" | "i = 17" | "18 \<le> i" "i < 20" | "20 \<le> i" "i < 36"
    | "36 \<le> i" "i < 50" | "50 \<le> i"
    by linarith
  then show ?thesis
    unfolding bits by cases (use ks in \<open>auto simp: vs off t la la'\<close>)
qed


lemma field_KVMeta_new:
  assumes "ks < 2 ^ 14" and "vs < 2 ^ 14" and "off < 2 ^ 16"
  shows "field 50 14 (KVMeta_new ks vs off t f r la) = word_of_nat ks"
    and "field 36 14 (KVMeta_new ks vs off t f r la) = word_of_nat vs"
    and "field 20 16 (KVMeta_new ks vs off t f r la) = word_of_nat off"
    and "field 18 2 (KVMeta_new ks vs off t f r la) = KVRecordType_repr t"
    and "field 0 16 (KVMeta_new ks vs off t f r la) = ucast la"
proof -
  note new = bit_KVMeta_new[OF assms]
  show "field 50 14 (KVMeta_new ks vs off t f r la) = word_of_nat ks"
    by (rule bit_word_eqI) (auto simp: bit_field new bit_simps dest: bit_nat_bound[OF assms(1)])
  show "field 36 14 (KVMeta_new ks vs off t f r la) = word_of_nat vs"
    by (rule bit_word_eqI) (auto simp: bit_field new bit_simps dest: bit_nat_bound[OF assms(2)])
  show "field 20 16 (KVMeta_new ks vs off t f r la) = word_of_nat off"
    by (rule bit_word_eqI) (auto simp: bit_field new bit_simps dest: bit_nat_bound[OF assms(3)])
  show "field 18 2 (KVMeta_new ks vs off t f r la) = KVRecordType_repr t"
    by (rule bit_word_eqI) (auto simp: bit_field new dest: bit_record_type_repr)
  show "field 0 16 (KVMeta_new ks vs off t f r la) = ucast la"
    by (rule bit_word_eqI) (auto simp: bit_field new bit_simps dest: bit_imp_le_length)
qed

lemma ucast_u16_u64_u16 [simp]: "ucast (ucast (x :: u16) :: u64) = x"
  by (rule bit_word_eqI) (auto simp: bit_simps)

lemma unat_ucast_u16_u64 [simp]: "unat (ucast (x :: u16) :: u64) = unat x"
proof -
  have "unat x < 2 ^ 16" using unsigned_less[of x] by simp
  then show ?thesis by (simp add: unsigned_ucast_eq take_bit_nat_eq_self)
qed

lemma unat_of_nat_u64: "n < 2 ^ 64 \<Longrightarrow> unat (word_of_nat n :: u64) = n"
  by (simp add: unat_of_nat)

lemma KVMeta_new_fields [simp]:
  assumes "ks < 2 ^ 14" and "vs < 2 ^ 14" and "off < 2 ^ 16"
  shows "KVMeta_key_size (KVMeta_new ks vs off t f r la) = ks"
    and "KVMeta_val_size (KVMeta_new ks vs off t f r la) = vs"
    and "KVMeta_offset (KVMeta_new ks vs off t f r la) = off"
    and "KVMeta_typ (KVMeta_new ks vs off t f r la) = t"
    and "KVMeta_fence (KVMeta_new ks vs off t f r la) = f"
    and "KVMeta_ref_bit (KVMeta_new ks vs off t f r la) = r"
    and "KVMeta_look_ahead (KVMeta_new ks vs off t f r la) = la"
  using assms
  by (simp_all add: key_size_field val_size_field offset_field typ_field look_ahead_field
      fence_bit ref_bit_bit field_KVMeta_new bit_KVMeta_new unat_of_nat_u64)

lemma KVMeta_set_offset_fields [simp]:
  "KVMeta_key_size (KVMeta_set_offset m o') = KVMeta_key_size m"
  "KVMeta_val_size (KVMeta_set_offset m o') = KVMeta_val_size m"
  "KVMeta_offset (KVMeta_set_offset m o') = unat o'"
  "KVMeta_typ (KVMeta_set_offset m o') = KVMeta_typ m"
  "KVMeta_fence (KVMeta_set_offset m o') = KVMeta_fence m"
  "KVMeta_ref_bit (KVMeta_set_offset m o') = KVMeta_ref_bit m"
  "KVMeta_look_ahead (KVMeta_set_offset m o') = KVMeta_look_ahead m"
proof -
  have "take_bit 16 (ucast o' :: u64) = ucast o'"
    by (rule bit_word_eqI) (auto simp: bit_simps dest: bit_imp_le_length)
  then show "KVMeta_offset (KVMeta_set_offset m o') = unat o'"
    by (simp add: offset_field set_offset_field field_with_field)
qed (simp_all add: key_size_field val_size_field typ_field look_ahead_field fence_bit ref_bit_bit
    set_offset_field field_with_other bit_with_field)

lemma KVMeta_set_ref_bit_fields [simp]:
  "KVMeta_key_size (KVMeta_set_ref_bit m b) = KVMeta_key_size m"
  "KVMeta_val_size (KVMeta_set_ref_bit m b) = KVMeta_val_size m"
  "KVMeta_offset (KVMeta_set_ref_bit m b) = KVMeta_offset m"
  "KVMeta_typ (KVMeta_set_ref_bit m b) = KVMeta_typ m"
  "KVMeta_fence (KVMeta_set_ref_bit m b) = KVMeta_fence m"
  "KVMeta_ref_bit (KVMeta_set_ref_bit m b) = b"
  "KVMeta_look_ahead (KVMeta_set_ref_bit m b) = KVMeta_look_ahead m"
  by (simp_all add: key_size_field val_size_field offset_field typ_field look_ahead_field fence_bit
      ref_bit_bit set_ref_bit_field field_with_other bit_with_field)

lemma KVMeta_set_record_type_fields [simp]:
  "KVMeta_key_size (KVMeta_set_record_type m t) = KVMeta_key_size m"
  "KVMeta_val_size (KVMeta_set_record_type m t) = KVMeta_val_size m"
  "KVMeta_offset (KVMeta_set_record_type m t) = KVMeta_offset m"
  "KVMeta_typ (KVMeta_set_record_type m t) = t"
  "KVMeta_fence (KVMeta_set_record_type m t) = KVMeta_fence m"
  "KVMeta_ref_bit (KVMeta_set_record_type m t) = KVMeta_ref_bit m"
  "KVMeta_look_ahead (KVMeta_set_record_type m t) = KVMeta_look_ahead m"
  by (simp_all add: key_size_field val_size_field offset_field typ_field look_ahead_field fence_bit
      ref_bit_bit set_record_type_field field_with_other field_with_field bit_with_field
      record_type_repr_small)


section \<open>Fields of NodeMeta\<close>

lemma record_count_field: "NodeMeta_record_count m = ucast (field 0 9 (nm0 m))"
  by (simp add: NodeMeta_record_count_def RECORD_COUNT_MASK_def and_mask_simps field_def)

lemma set_record_count_field:
  "NodeMeta_set_record_count m c = m\<lparr>nm0 := with_field 0 9 (ucast c) (nm0 m)\<rparr>"
proof -
  have "(nm0 m AND NOT 0x1FF) OR (ucast c AND 0x1FF) = with_field 0 9 (ucast c) (nm0 m)"
    unfolding and_mask_simps not_mask_simps by (rule bit_word_eqI) (auto simp: bit_simps)
  then show ?thesis
    by (simp add: NodeMeta_set_record_count_def RECORD_COUNT_MASK_def)
qed

lemma leaf_field: "NodeMeta_leaf m = field 16 48 (nm0 m)"
  unfolding NodeMeta_leaf_def
  by (rule bit_word_eqI) (auto simp: bit_simps dest: bit_imp_le_length)

lemma page_id_field: "NodeMeta_page_id m = field 16 48 (nm1 m)"
  unfolding NodeMeta_page_id_def
  by (rule bit_word_eqI) (auto simp: bit_simps dest: bit_imp_le_length)

lemma size_field: "NodeMeta_size m = NodeSize_transmute (field 13 3 (nm0 m))"
  by (simp add: NodeMeta_size_def and_mask_simps field_def)

lemma set_flag_field:
  "k < 64 \<Longrightarrow> NodeMeta_set_flag m (push_bit k 1) b = m\<lparr>nm0 := with_field k 1 (of_bool b) (nm0 m)\<rparr>"
proof -
  assume "k < 64"
  have "nm0 m OR push_bit k 1 = with_field k 1 1 (nm0 m)"
    by (rule bit_word_eqI) (auto simp: bit_simps)
  moreover have "nm0 m AND NOT (push_bit k 1) = with_field k 1 0 (nm0 m)"
    by (rule bit_word_eqI) (auto simp: bit_simps)
  ultimately show ?thesis by (simp add: NodeMeta_set_flag_def)
qed

lemma flag_tests:
  "NodeMeta_is_live m = bit (nm0 m) 10"
  "NodeMeta_is_being_evicted m = bit (nm0 m) 12"
  "NodeMeta_is_hot m = bit (nm0 m) 13"
  by (simp_all only: NodeMeta_is_live_def NodeMeta_is_being_evicted_def NodeMeta_is_hot_def
      LIVE_BIT_def EVICT_BIT_def HOT_BIT_def and_single_bit)

lemma flag_updates:
  "NodeMeta_set_live m b = m\<lparr>nm0 := with_field 10 1 (of_bool b) (nm0 m)\<rparr>"
  "NodeMeta_set_being_evicted m b = m\<lparr>nm0 := with_field 12 1 (of_bool b) (nm0 m)\<rparr>"
  "NodeMeta_clear_eviction m = m\<lparr>nm0 := with_field 12 1 0 (nm0 m)\<rparr>"
  "NodeMeta_mark_hot m = m\<lparr>nm0 := with_field 13 1 1 (nm0 m)\<rparr>"
  "NodeMeta_clear_hot m = m\<lparr>nm0 := with_field 13 1 0 (nm0 m)\<rparr>"
  by (simp_all only: NodeMeta_set_live_def NodeMeta_set_being_evicted_def NodeMeta_clear_eviction_def
      NodeMeta_mark_hot_def NodeMeta_clear_hot_def LIVE_BIT_def EVICT_BIT_def HOT_BIT_def
      set_flag_field of_bool_eq)

lemma set_disk_addr_field:
  "NodeMeta_set_disk_addr m a = m\<lparr>nm0 := with_field 16 48 a (nm0 m)\<rparr>"
proof -
  have "(nm0 m AND 0xFFFF) OR push_bit 16 a = with_field 16 48 a (nm0 m)"
    unfolding and_mask_simps by (rule bit_word_eqI) (auto simp: bit_simps)
  then show ?thesis by (simp add: NodeMeta_set_disk_addr_def)
qed

lemma set_page_id_field:
  "NodeMeta_set_page_id_field m i = m\<lparr>nm1 := with_field 16 48 i (nm1 m)\<rparr>"
proof -
  have "(nm1 m AND 0xFFFF) OR push_bit 16 i = with_field 16 48 i (nm1 m)"
    unfolding and_mask_simps by (rule bit_word_eqI) (auto simp: bit_simps)
  then show ?thesis by (simp add: NodeMeta_set_page_id_field_def)
qed

lemmas header_fields = record_count_field set_record_count_field leaf_field page_id_field size_field
  flag_tests flag_updates set_disk_addr_field set_page_id_field NodeMeta_set_identity_def

lemma ucast_u64_u16: "unat (ucast (w :: u64) :: u16) = unat (take_bit 16 w)"
  by (simp add: unsigned_ucast_eq unsigned_take_bit_eq)

lemma record_count_set [simp]:
  "NodeMeta_record_count (NodeMeta_set_record_count m c) = take_bit 9 c"
proof -
  have "ucast (take_bit 9 (ucast c :: u64)) = take_bit 9 c"
    by (rule bit_word_eqI) (auto simp: bit_simps)
  then show ?thesis by (simp add: header_fields field_with_field)
qed

lemma record_count_small: "unat (NodeMeta_record_count m) < 512"
proof -
  have "unat (NodeMeta_record_count m) = unat (take_bit 9 (nm0 m))"
    by (simp add: header_fields ucast_u64_u16 field_def)
  then show ?thesis
    using take_bit_nat_less_exp[of 9 "unat (nm0 m)"] by (simp add: unsigned_take_bit_eq)
qed

lemma set_record_count_keeps [simp]:
  "NodeMeta_leaf (NodeMeta_set_record_count m c) = NodeMeta_leaf m"
  "NodeMeta_page_id (NodeMeta_set_record_count m c) = NodeMeta_page_id m"
  "NodeMeta_size (NodeMeta_set_record_count m c) = NodeMeta_size m"
  "NodeMeta_is_live (NodeMeta_set_record_count m c) = NodeMeta_is_live m"
  "NodeMeta_is_hot (NodeMeta_set_record_count m c) = NodeMeta_is_hot m"
  "NodeMeta_is_being_evicted (NodeMeta_set_record_count m c) = NodeMeta_is_being_evicted m"
  by (simp_all add: header_fields field_with_other bit_with_field)

lemma flags_keep_record_count [simp]:
  "NodeMeta_record_count (NodeMeta_set_live m b) = NodeMeta_record_count m"
  "NodeMeta_record_count (NodeMeta_set_being_evicted m b) = NodeMeta_record_count m"
  "NodeMeta_record_count (NodeMeta_clear_eviction m) = NodeMeta_record_count m"
  "NodeMeta_record_count (NodeMeta_mark_hot m) = NodeMeta_record_count m"
  "NodeMeta_record_count (NodeMeta_clear_hot m) = NodeMeta_record_count m"
  "NodeMeta_record_count (NodeMeta_set_identity m i a) = NodeMeta_record_count m"
  by (simp_all add: header_fields field_with_other)


lemma set_identity_fields [simp]:
  "NodeMeta_leaf (NodeMeta_set_identity m i a) = take_bit 48 a"
  "NodeMeta_page_id (NodeMeta_set_identity m i a) = take_bit 48 i"
  "NodeMeta_size (NodeMeta_set_identity m i a) = NodeMeta_size m"
  "NodeMeta_is_live (NodeMeta_set_identity m i a) = NodeMeta_is_live m"
  by (simp_all add: header_fields field_with_field field_with_other bit_with_field)

lemma size_index_repr:
  "NodeSize_transmute (word_of_nat (NodeSize_index sz)) = Some sz"
  "bit (word_of_nat (NodeSize_index sz) :: u64) i \<Longrightarrow> i < 3"
  "take_bit 3 (word_of_nat (NodeSize_index sz) :: u64) = word_of_nat (NodeSize_index sz)"
proof -
  show 3: "take_bit 3 (word_of_nat (NodeSize_index sz) :: u64) = word_of_nat (NodeSize_index sz)"
    by (cases sz) simp_all
  show "NodeSize_transmute (word_of_nat (NodeSize_index sz)) = Some sz"
    by (cases sz) (simp_all add: NodeSize_transmute_def)
  show "bit (word_of_nat (NodeSize_index sz) :: u64) i \<Longrightarrow> i < 3"
    by (metis 3 bit_take_bit_iff)
qed

lemma bit_flag_masks:
  "bit SPLIT_BIT i \<longleftrightarrow> i = 9" "bit LIVE_BIT i \<longleftrightarrow> i = 10" "bit FREELIST_BIT i \<longleftrightarrow> i = 11"
  "bit EVICT_BIT i \<longleftrightarrow> i = 12" "bit HOT_BIT i \<longleftrightarrow> i = 13"
  unfolding SPLIT_BIT_def LIVE_BIT_def FREELIST_BIT_def EVICT_BIT_def HOT_BIT_def
    bit_push_bit_iff bit_1_iff possible_bit_word
  by auto

lemma bit_header_word0:
  "bit ((push_bit 16 a OR push_bit 13 (word_of_nat (NodeSize_index sz)))
      AND NOT (SPLIT_BIT OR FREELIST_BIT OR EVICT_BIT) OR LIVE_BIT) i \<longleftrightarrow>
    i < 64 \<and> (16 \<le> i \<and> bit a (i - 16) \<or>
      13 \<le> i \<and> bit (word_of_nat (NodeSize_index sz) :: u64) (i - 13) \<or> i = 10)"
  by (auto simp: bit_flag_masks bit_or_iff bit_and_iff bit_not_iff bit_push_bit_iff
      dest: bit_imp_le_length)

lemma bit_reset_header0:
  "bit (nm0 (NodeMeta_reset_header m i sz a)) j \<longleftrightarrow>
    j < 64 \<and> (16 \<le> j \<and> bit a (j - 16) \<or>
      13 \<le> j \<and> bit (word_of_nat (NodeSize_index sz) :: u64) (j - 13) \<or> j = 10)"
proof -
  have "nm0 (NodeMeta_reset_header m i sz a) =
    with_field 0 9 0 ((push_bit 16 a OR push_bit 13 (word_of_nat (NodeSize_index sz)))
      AND NOT (SPLIT_BIT OR FREELIST_BIT OR EVICT_BIT) OR LIVE_BIT)"
    by (simp add: NodeMeta_reset_header_def Let_def set_record_count_field)
  then have "bit (nm0 (NodeMeta_reset_header m i sz a)) j \<longleftrightarrow>
      j < 64 \<and> (if j < 9 then False else j < 64 \<and> (16 \<le> j \<and> bit a (j - 16) \<or>
        13 \<le> j \<and> bit (word_of_nat (NodeSize_index sz) :: u64) (j - 13) \<or> j = 10))"
    by (simp only: bit_with_field bit_header_word0) simp
  then show ?thesis by auto
qed

lemma reset_header_word1:
  "nm1 (NodeMeta_reset_header m i sz a) =
    push_bit 16 i OR take_bit 16 (word_of_nat (NodeSize_size_in_bytes sz - 16))"
  by (simp add: NodeMeta_reset_header_def Let_def set_record_count_field size_of_NodeMeta_def
      and_mask_simps)

lemma reset_header_size [simp]:
  "NodeMeta_size (NodeMeta_reset_header m i sz a) = Some sz"
proof -
  have "field 13 3 (nm0 (NodeMeta_reset_header m i sz a)) = word_of_nat (NodeSize_index sz)"
    by (rule bit_word_eqI)
      (auto simp: bit_reset_header0 bit_field dest: size_index_repr(2))
  then show ?thesis by (simp add: size_field size_index_repr(1))
qed

lemma reset_header_fields [simp]:
  "NodeMeta_leaf (NodeMeta_reset_header m i sz a) = take_bit 48 a"
  "NodeMeta_page_id (NodeMeta_reset_header m i sz a) = take_bit 48 i"
  "NodeMeta_record_count (NodeMeta_reset_header m i sz a) = 0"
  "NodeMeta_is_live (NodeMeta_reset_header m i sz a)"
  "\<not> NodeMeta_is_being_evicted (NodeMeta_reset_header m i sz a)"
proof -
  have f: "field 16 48 (nm0 (NodeMeta_reset_header m i sz a)) = take_bit 48 a"
    by (rule bit_word_eqI)
      (auto simp: bit_reset_header0 bit_field bit_take_bit_iff
        dest: size_index_repr(2))
  show "NodeMeta_leaf (NodeMeta_reset_header m i sz a) = take_bit 48 a"
    by (simp add: leaf_field f)
  have g: "field 16 48 (nm1 (NodeMeta_reset_header m i sz a)) = take_bit 48 i"
    by (rule bit_word_eqI) (auto simp: reset_header_word1 bit_field bit_simps)
  show "NodeMeta_page_id (NodeMeta_reset_header m i sz a) = take_bit 48 i"
    by (simp add: page_id_field g)
  have "field 0 9 (nm0 (NodeMeta_reset_header m i sz a)) = 0"
    by (rule bit_word_eqI) (auto simp: bit_reset_header0 bit_field)
  then show "NodeMeta_record_count (NodeMeta_reset_header m i sz a) = 0"
    by (simp add: record_count_field)
qed (simp_all add: flag_tests bit_reset_header0)

lemma mark_hot_size:
  "NodeMeta_size m = Some sz \<Longrightarrow>
    NodeMeta_size (NodeMeta_mark_hot m) =
      (if sz = LeafPage then None
       else if even (NodeSize_index sz) then NodeSize_transmute (word_of_nat (NodeSize_index sz + 1))
       else Some sz)"
proof -
  assume m: "NodeMeta_size m = Some sz"
  have f: "field 13 3 (nm0 m) = word_of_nat (NodeSize_index sz)"
    using m by (cases sz) (simp_all add: size_field NodeSize_transmute_def split: if_splits)
  have "field 13 3 (nm0 (NodeMeta_mark_hot m)) = field 13 3 (nm0 m) OR 1"
    by (rule bit_word_eqI) (auto simp: flag_updates bit_simps)
  with f show ?thesis
    by (cases sz) (simp_all add: size_field NodeSize_transmute_def)
qed


lemma NodeSize_bytes: "NodeSize_size_in_bytes sz = 64 * 2 ^ NodeSize_index sz"
  by (simp add: NodeSize_size_in_bytes_def NodeSize_size_in_words_def Let_def)

lemma NodeSize_bytes_simps [simp]:
  "NodeSize_size_in_bytes N64 = 64" "NodeSize_size_in_bytes N128 = 128"
  "NodeSize_size_in_bytes N256 = 256" "NodeSize_size_in_bytes N512 = 512"
  "NodeSize_size_in_bytes N1K = 1024" "NodeSize_size_in_bytes N2K = 2048"
  "NodeSize_size_in_bytes LeafPage = 4096"
  by (simp_all add: NodeSize_bytes)

lemma NodeSize_bytes_bounds:
  "64 \<le> NodeSize_size_in_bytes sz" "NodeSize_size_in_bytes sz \<le> 4096"
  by (cases sz; simp)+

lemma clear_hot_size:
  "NodeMeta_size m = Some sz \<Longrightarrow>
    NodeMeta_size (NodeMeta_clear_hot m) =
      (if even (NodeSize_index sz) then Some sz
       else NodeSize_transmute (word_of_nat (NodeSize_index sz - 1)))"
proof -
  assume m: "NodeMeta_size m = Some sz"
  have f: "field 13 3 (nm0 m) = word_of_nat (NodeSize_index sz)"
    using m by (cases sz) (simp_all add: size_field NodeSize_transmute_def split: if_splits)
  have "field 13 3 (nm0 (NodeMeta_clear_hot m)) = field 13 3 (nm0 m) AND NOT 1"
    by (rule bit_word_eqI) (auto simp: flag_updates bit_simps)
  with f show ?thesis
    by (cases sz) (simp_all add: size_field NodeSize_transmute_def)
qed

section \<open>Properties of the packed words\<close>

text \<open>C27: A record's metadata word gives back every part it was built from, as long as
  the key and value lengths fit their 14 bits and the offset its 16 bits.\<close>

theorem kv_meta_roundtrip:
  assumes "key_size < 2 ^ 14" and "val_size < 2 ^ 14" and "offset < 2 ^ 16"
  shows "KVMeta_key_size (KVMeta_new key_size val_size offset typ f r la) = key_size \<and>
    KVMeta_val_size (KVMeta_new key_size val_size offset typ f r la) = val_size \<and>
    KVMeta_offset (KVMeta_new key_size val_size offset typ f r la) = offset \<and>
    KVMeta_typ (KVMeta_new key_size val_size offset typ f r la) = typ \<and>
    KVMeta_fence (KVMeta_new key_size val_size offset typ f r la) = f \<and>
    KVMeta_ref_bit (KVMeta_new key_size val_size offset typ f r la) = r \<and>
    KVMeta_look_ahead (KVMeta_new key_size val_size offset typ f r la) = la"
  using assms by simp

theorem kv_meta_roundtrip_witness:
  "KVMeta_offset (KVMeta_new 5 3 4088 KVInsert False True 0x616C) = 4088 \<and>
    KVMeta_look_ahead (KVMeta_new 5 3 4088 KVInsert False True 0x616C) = 0x616C"
  using kv_meta_roundtrip [of 5 3 4088 KVInsert False True "0x616C"] by simp

text \<open>Each in-place update of a metadata word changes its own part only: moving the
  record leaves lengths, type, flags and look-ahead alone, and likewise for the type and
  the reference bit.\<close>

theorem kv_meta_updates_independent:
  "KVMeta_offset (KVMeta_set_offset m off) = unat off \<and>
    KVMeta_typ (KVMeta_set_record_type m t) = t \<and>
    KVMeta_ref_bit (KVMeta_set_ref_bit m b) = b \<and>
    (\<forall>m' \<in> {KVMeta_set_offset m off, KVMeta_set_record_type m t, KVMeta_set_ref_bit m b}.
       KVMeta_key_size m' = KVMeta_key_size m \<and> KVMeta_val_size m' = KVMeta_val_size m \<and>
       KVMeta_fence m' = KVMeta_fence m \<and> KVMeta_look_ahead m' = KVMeta_look_ahead m) \<and>
    KVMeta_typ (KVMeta_set_offset m off) = KVMeta_typ m \<and>
    KVMeta_offset (KVMeta_set_record_type m t) = KVMeta_offset m"
  by simp

theorem kv_meta_updates_independent_witness:
  "KVMeta_key_size (KVMeta_set_offset (KVMeta_new 5 3 4088 KVCache True True 0) 96) = 5"
  using kv_meta_updates_independent [of "KVMeta_new 5 3 4088 KVCache True True 0" 96 KVCache True]
  by simp

text \<open>The two classifying methods of a record type return True for every type, so
  they differ from the documented table on exactly two of the four types each: a
  tombstone and a phantom are reported to exist, a cached and a phantom record to be
  dirty.\<close>

theorem record_type_methods_constant:
  "KVRecordType_exists t \<and> KVRecordType_is_dirty t \<and>
    (KVRecordType_exists t \<noteq> documented_exists t \<longleftrightarrow> t = KVTombstone \<or> t = KVPhantom) \<and>
    (KVRecordType_is_dirty t \<noteq> documented_dirty t \<longleftrightarrow> t = KVCache \<or> t = KVPhantom)"
  by (cases t) (simp_all add: KVRecordType_exists_def KVRecordType_is_dirty_def
      documented_exists_def documented_dirty_def)

text \<open>Marking a full-size page hot destroys its size field: the hot flag is bit 13,
  the lowest bit of the size, so the size of a 4 KiB page decodes to the eighth
  bit pattern, which is no page size, and clearing the flag again leaves a smaller page
  behind for every odd size.\<close>

theorem mark_hot_clobbers_size:
  "(NodeMeta_size m = Some LeafPage \<longrightarrow> NodeMeta_size (NodeMeta_mark_hot m) = None) \<and>
    (NodeMeta_size m = Some N64 \<longrightarrow> NodeMeta_size (NodeMeta_mark_hot m) = Some N128) \<and>
    (NodeMeta_size m = Some N128 \<longrightarrow> NodeMeta_size (NodeMeta_clear_hot m) = Some N64)"
  by (simp add: mark_hot_size clear_hot_size NodeSize_transmute_def)

theorem mark_hot_clobbers_size_witness:
  "NodeMeta_size (NodeMeta_mark_hot (NodeMeta_reset_header \<lparr>nm0 = 0, nm1 = 0\<rparr> 0 LeafPage 0)) = None"
  using mark_hot_clobbers_size [of "NodeMeta_reset_header \<lparr>nm0 = 0, nm1 = 0\<rparr> 0 LeafPage 0"] by simp

end
