(* ===== verification/Utils.thy ===== *)
theory Utils
  imports Prelude
begin

text \<open>
  utils.rs: the byte forms of child pointers in inner nodes.  A leaf child is a 48-bit
  page identifier in six big-endian bytes, an inner child a 32-bit node index.  A raw
  pointer argument is the bytes that start at it.
\<close>

section \<open>Definitions\<close>

definition store_u48 :: "u64 \<Rightarrow> bytes" where
  "store_u48 val =
    (let masked = val AND 0x0000FFFFFFFFFFFF;
         bytes = be_bytes 8 masked
     in [bytes ! 2, bytes ! 3, bytes ! 4, bytes ! 5, bytes ! 6, bytes ! 7])"

definition extract_u48 :: "bytes \<Rightarrow> u64" where
  "extract_u48 val =
    (let slice = take 6 val;
         buf = replicate 8 0;
         buf = write_at buf 2 slice
     in of_be_bytes buf)"

definition store_u32 :: "u64 \<Rightarrow> bytes" where
  "store_u32 val =
    (let masked = be_bytes 4 (ucast val :: u32);
         buf = replicate 8 0
     in write_at buf 4 masked)"

definition extract_u32 :: "bytes \<Rightarrow> u32" where
  "extract_u32 val = of_be_bytes (take 4 val)"

section \<open>Round trips\<close>

lemma le_bytes_8_unfold:
  "le_bytes 8 (w :: u64) =
    [ucast w, ucast (drop_bit 8 w), ucast (drop_bit 16 w), ucast (drop_bit 24 w),
     ucast (drop_bit 32 w), ucast (drop_bit 40 w), ucast (drop_bit 48 w), ucast (drop_bit 56 w)]"
  by (simp add: numeral_nat)

lemma store_u48_le: "store_u48 v = rev (le_bytes 6 (take_bit 48 v))"
proof -
  have m: "v AND 0x0000FFFFFFFFFFFF = take_bit 48 v"
    by (simp add: take_bit_eq_mask mask_eq_decr_exp)
  show ?thesis
    unfolding store_u48_def Let_def be_bytes_def m
    by (simp add: le_bytes_8_unfold) (simp add: numeral_nat)
qed

lemma length_store_u48 [simp]: "length (store_u48 v) = 6"
  by (simp add: store_u48_def Let_def)

lemma of_le_bytes_append_zero: "of_le_bytes (bs @ [0, 0]) = of_le_bytes bs"
  by (induction bs) simp_all

lemma extract_store_u48: "extract_u48 (store_u48 v @ rest) = take_bit 48 v"
proof -
  have "write_at (replicate 8 0) 2 (store_u48 v) = [0, 0] @ store_u48 v"
    by (simp add: write_at_def numeral_2_eq_2)
  then have "extract_u48 (store_u48 v @ rest) = of_le_bytes (rev (store_u48 v) @ [0, 0])"
    by (simp add: extract_u48_def of_be_bytes_def)
  then show ?thesis
    by (simp add: of_le_bytes_append_zero store_u48_le of_le_bytes_le_bytes)
qed

text \<open>As a codec of 48-bit identifiers, six bytes wide.\<close>

interpretation u48be: codec "\<lambda>w :: 48 word. store_u48 (ucast w)" "\<lambda>bs. ucast (extract_u48 bs)" 6
proof unfold_locales
  fix x :: "48 word"
  have "ucast (take_bit 48 (ucast x :: u64)) = x"
    by (rule bit_word_eqI) (auto simp: bit_simps)
  then show "ucast (extract_u48 (store_u48 (ucast x))) = x"
    using extract_store_u48[of "ucast x" "[]"] by simp
qed simp

lemma store_u32_eq: "store_u32 v = replicate 4 0 @ be_bytes 4 (ucast v :: u32)"
proof -
  have "take 4 (replicate 8 (0 :: u8)) = replicate 4 0" by simp
  then show ?thesis by (simp add: store_u32_def Let_def write_at_def)
qed

lemma length_store_u32 [simp]: "length (store_u32 v) = 8"
  by (simp add: store_u32_eq)

section \<open>Properties\<close>

text \<open>The six stored bytes of a page identifier give back its low 48 bits, whatever
  bytes follow them in the node.\<close>

theorem u48_roundtrip:
  "length (store_u48 v) = 6 \<and> extract_u48 (store_u48 v @ rest) = take_bit 48 v"
  by (simp add: extract_store_u48)

text \<open>The stored form of an inner child is eight bytes long, four zero bytes in front of
  the node index, so reading four bytes back yields 0 for every index.\<close>

theorem u32_store_is_not_inverted:
  "length (store_u32 v) = 8 \<and> extract_u32 (store_u32 v @ rest) = 0"
proof -
  have "of_be_bytes (replicate 4 0) = (0 :: u32)"
    by (simp add: of_be_bytes_def numeral_nat)
  then show ?thesis by (simp add: extract_u32_def store_u32_eq)
qed

end
