(* ===== verification/Node.thy ===== *)
theory Node
  imports Types
begin

text \<open>
  node.rs: the leaf page.  A page is its bytes: the 16-byte header, an array of 8-byte
  \<open>KVMeta\<close> words that grows upwards, and the key and value bytes that grow downwards from
  the end.  The first and the last record are the fences; the records between them are
  sorted by the stored key suffix.

  The methods of \<open>NodeMeta\<close> work through raw pointers into the page; here each takes the
  page and returns its result together with the new page.  \<open>leaf_wf\<close> is the invariant the
  methods rely on: every record lies inside the page, above the metadata array, and no two
  records overlap.
\<close>

section \<open>Words of a page\<close>

definition read_u64 :: "bytes \<Rightarrow> nat \<Rightarrow> u64" where
  "read_u64 p off = u64_from_le_bytes (read_at p off 8)"

definition write_u64 :: "bytes \<Rightarrow> nat \<Rightarrow> u64 \<Rightarrow> bytes" where
  "write_u64 p off w = write_at p off (u64_to_le_bytes w)"

definition node_header :: "bytes \<Rightarrow> node_meta" where
  "node_header p = \<lparr>nm0 = read_u64 p 0, nm1 = read_u64 p 8\<rparr>"

definition set_node_header :: "bytes \<Rightarrow> node_meta \<Rightarrow> bytes" where
  "set_node_header p m = write_u64 (write_u64 p 0 (nm0 m)) 8 (nm1 m)"

definition record_count :: "bytes \<Rightarrow> nat" where
  "record_count p = unat (NodeMeta_record_count (node_header p))"

definition kv_slot :: "nat \<Rightarrow> nat" where
  "kv_slot i = size_of_NodeMeta + 8 * i"

text \<open>
  \<open>get_kv_meta_ref\<close> asserts \<open>kv_index < record_count\<close>.  The two functions below read and write the
  word without that test, which stands as a branch of its own in the callers where it can
  fail: the reading of the fences of a page without records, and the insertion at an index
  behind the last record.  Every other caller has the index from a loop over the records,
  from a search that found it, or from the count it has just set.
\<close>

definition get_kv_meta :: "bytes \<Rightarrow> nat \<Rightarrow> kv_meta" where
  "get_kv_meta p kv_index = read_u64 p (kv_slot kv_index)"

definition set_kv_meta :: "bytes \<Rightarrow> nat \<Rightarrow> kv_meta \<Rightarrow> bytes" where
  "set_kv_meta p kv_index val = write_u64 p (kv_slot kv_index) val"

text \<open>
  \<open>get_kv_meta_ensure_ref\<close> reads a metadata word and, when its reference bit is set, exchanges
  the word for itself with the bit set.  \<open>act\<close> is the word another thread has left in the
  slot when the exchange fails; it may differ in the reference bit only.
\<close>

definition get_kv_meta_ensure_ref :: "bytes \<Rightarrow> nat \<Rightarrow> kv_meta option \<Rightarrow> kv_meta result \<times> bytes" where
  "get_kv_meta_ensure_ref p kv_index act =
    (let out = get_kv_meta p kv_index in
     if KVMeta_ref_bit out then
       (let new = KVMeta_set_ref_bit out True in
        case act of
          None \<Rightarrow> (Inr new, set_kv_meta p kv_index new)
        | Some a \<Rightarrow>
            if KVMeta_set_ref_bit a True = new then (Inr a, p) else (Inl (Panic PanicAssert), p))
     else (Inr out, p))"

section \<open>Keys and values\<close>

text \<open>
  A key or a value is the slice of the page at the offset and of the length its metadata
  word names.  The code does not compare them with the size of the page.  For a word that
  names bytes behind the end of the page the two functions below return the bytes up to the
  end; what the code would read there is no part of the page.  The reading of the fences,
  with which the operations on a page begin, makes this case \<open>UndefinedBehaviour\<close>.  The search,
  the value of a lookup and the iteration over the records do not, so what is stated of them
  is stated under \<open>leaf_wf\<close>, where every record lies inside the page.
\<close>

definition get_stored_key_from_meta :: "bytes \<Rightarrow> kv_meta \<Rightarrow> bytes" where
  "get_stored_key_from_meta p kv = read_at p (KVMeta_offset kv) (KVMeta_key_size kv)"

definition get_val_from_meta :: "bytes \<Rightarrow> kv_meta \<Rightarrow> bytes" where
  "get_val_from_meta p kv =
    read_at p (KVMeta_offset kv + KVMeta_key_size kv) (KVMeta_val_size kv)"

definition key_in_page :: "bytes \<Rightarrow> kv_meta \<Rightarrow> bool" where
  "key_in_page p kv \<longleftrightarrow> KVMeta_offset kv + KVMeta_key_size kv \<le> length p"

text \<open>
  \<open>get_key_mut_from_meta(kv).copy_from_slice(src)\<close> and the same for the value: the copy
  panics unless the slice has the length of the source.
\<close>

definition put_key_from_meta :: "bytes \<Rightarrow> kv_meta \<Rightarrow> bytes \<Rightarrow> unit result \<times> bytes" where
  "put_key_from_meta p kv src =
    (if KVMeta_key_size kv = length src then (Inr (), write_at p (KVMeta_offset kv) src)
     else (Inl (Panic PanicBounds), p))"

definition put_val_from_meta :: "bytes \<Rightarrow> kv_meta \<Rightarrow> bytes \<Rightarrow> unit result \<times> bytes" where
  "put_val_from_meta p kv src =
    (if KVMeta_val_size kv = length src
     then (Inr (), write_at p (KVMeta_offset kv + KVMeta_key_size kv) src)
     else (Inl (Panic PanicBounds), p))"

definition get_lookahead :: "bytes \<Rightarrow> u16" where
  "get_lookahead key_suffix =
    (let b0 = (if 0 < length key_suffix then key_suffix ! 0 else 0);
         b1 = (if 1 < length key_suffix then key_suffix ! 1 else 0)
     in of_be_bytes [b0, b1])"

definition fence_bounds :: "bytes \<Rightarrow> (bytes \<times> bytes) result" where
  "fence_bounds p =
    (if record_count p = 0 then Inl (Panic PanicAssert)
     else
       let lower_meta = get_kv_meta p 0;
           upper_meta = get_kv_meta p (record_count p - 1)
       in
         if key_in_page p lower_meta \<and> key_in_page p upper_meta
         then Inr (get_stored_key_from_meta p lower_meta, get_stored_key_from_meta p upper_meta)
         else Inl UndefinedBehaviour)"

definition get_node_prefix :: "bytes \<Rightarrow> bytes result" where
  "get_node_prefix p =
    (if record_count p = 0 then Inl (Panic PanicAssert)
     else
       let low_fence_meta = get_kv_meta p 0;
           low_fence_key = get_stored_key_from_meta p low_fence_meta;
           high_fence_meta = get_kv_meta p (record_count p - 1);
           high_fence_key = get_stored_key_from_meta p high_fence_meta;
           prefix_len = common_prefix_len low_fence_key high_fence_key
       in
         if key_in_page p low_fence_meta \<and> key_in_page p high_fence_meta
         then Inr (take prefix_len low_fence_key)
         else Inl UndefinedBehaviour)"

section \<open>Search\<close>

text \<open>
  The loop of \<open>binary_search\<close>; \<open>Ok\<close> is Inr and \<open>Err\<close> is Inl, both carrying an index.
\<close>

function leaf_search_loop :: "bytes \<Rightarrow> bytes \<Rightarrow> u16 \<Rightarrow> nat \<Rightarrow> nat \<Rightarrow> nat + nat" where
  "leaf_search_loop p key_suffix target_lookahead lower upper =
    (if lower \<le> upper then
       let mid = lower + (upper - lower) div 2;
           mid_kv = get_kv_meta p mid;
           mid_lookahead = KVMeta_look_ahead mid_kv
       in
         if target_lookahead < mid_lookahead then
           (if mid = 0 then Inl lower
            else leaf_search_loop p key_suffix target_lookahead lower (mid - 1))
         else if target_lookahead = mid_lookahead then
           let mid_key_suffix = get_stored_key_from_meta p mid_kv
           in
             if key_suffix < mid_key_suffix then
               (if mid = 0 then Inl lower
                else leaf_search_loop p key_suffix target_lookahead lower (mid - 1))
             else if key_suffix = mid_key_suffix then Inr mid
             else leaf_search_loop p key_suffix target_lookahead (mid + 1) upper
         else leaf_search_loop p key_suffix target_lookahead (mid + 1) upper
     else Inl lower)"
  by pat_completeness auto
termination
  by (relation "measure (\<lambda>(p, k, la, lower, upper). upper + 1 - lower)") auto

declare leaf_search_loop.simps [simp del]

definition leaf_binary_search :: "bytes \<Rightarrow> bytes \<Rightarrow> nat + nat" where
  "leaf_binary_search p key_suffix =
    (let target_lookahead = get_lookahead key_suffix in
     if record_count p \<le> 2 then Inl 1
     else
       let lower = (if KVMeta_fence (get_kv_meta p 0) then 1 else 0);
           upper = record_count p - 1;
           upper = (if KVMeta_fence (get_kv_meta p upper) then upper - 1 else upper)
       in
         if upper < lower then Inl lower
         else leaf_search_loop p key_suffix target_lookahead lower upper)"

definition node_get :: "bytes \<Rightarrow> bytes \<Rightarrow> bytes option result" where
  "node_get p key =
    (case get_node_prefix p of
       Inl e \<Rightarrow> Inl e
     | Inr pre \<Rightarrow>
         if \<not> prefix pre key then Inl (Panic PanicAssert)
         else
           case leaf_binary_search p (drop (length pre) key) of
             Inl _ \<Rightarrow> Inr None
           | Inr i \<Rightarrow>
               let target_kv = get_kv_meta p i
               in if KVRecordType_exists (KVMeta_typ target_kv)
                  then Inr (Some (get_val_from_meta p target_kv))
                  else Inr None)"

section \<open>The record count\<close>

definition set_record_count :: "bytes \<Rightarrow> u16 \<Rightarrow> bytes" where
  "set_record_count p c = set_node_header p (NodeMeta_set_record_count (node_header p) c)"

definition inc_record_count :: "bytes \<Rightarrow> unit result \<times> bytes" where
  "inc_record_count p =
    (case NodeMeta_inc_record_count (node_header p) of
       Inl e \<Rightarrow> (Inl e, p)
     | Inr m \<Rightarrow> (Inr (), set_node_header p m))"

definition dec_record_count :: "bytes \<Rightarrow> unit result \<times> bytes" where
  "dec_record_count p =
    (case NodeMeta_dec_record_count (node_header p) of
       Inl e \<Rightarrow> (Inl e, p)
     | Inr m \<Rightarrow> (Inr (), set_node_header p m))"

section \<open>Fences\<close>

definition install_fences :: "bytes \<Rightarrow> bytes \<Rightarrow> bytes \<Rightarrow> unit result \<times> bytes" where
  "install_fences p lower upper =
    (case NodeMeta_size (node_header p) of
       None \<Rightarrow> (Inl UndefinedBehaviour, p)
     | Some sz \<Rightarrow>
         let cursor = NodeSize_size_in_bytes sz in
         if cursor < length upper then (Inl (Panic PanicOverflow), p)
         else
           let cursor = cursor - length upper;
               p = write_at p cursor upper;
               upper_offset = word_of_nat cursor
           in
             if cursor < length lower then (Inl (Panic PanicOverflow), p)
             else
               let cursor = cursor - length lower;
                   p = write_at p cursor lower;
                   lower_offset = word_of_nat cursor;
                   p = set_record_count p 2;
                   lower_meta = KVMeta_new (length lower) 0 0 KVCache True True 0;
                   lower_meta = KVMeta_set_offset lower_meta lower_offset;
                   p = set_kv_meta p 0 lower_meta;
                   upper_meta = KVMeta_new (length upper) 0 0 KVCache True True 0;
                   upper_meta = KVMeta_set_offset upper_meta upper_offset;
                   p = set_kv_meta p 1 upper_meta
               in (Inr (), p))"

definition reset_user_entries_with_fences :: "bytes \<Rightarrow> bytes \<Rightarrow> bytes \<Rightarrow> unit result \<times> bytes" where
  "reset_user_entries_with_fences p lower upper = install_fences p lower upper"

definition reset_user_entries :: "bytes \<Rightarrow> unit result \<times> bytes" where
  "reset_user_entries p =
    (if record_count p \<le> 2 then (Inr (), p)
     else
       case fence_bounds p of
         Inl e \<Rightarrow> (Inl e, p)
       | Inr (lower, upper) \<Rightarrow> reset_user_entries_with_fences p lower upper)"

definition ensure_fence_keys :: "bytes \<Rightarrow> unit result \<times> bytes" where
  "ensure_fence_keys p =
    (if 2 \<le> record_count p then (Inr (), p) else install_fences p [0x00] [0xFF])"

definition format_leaf :: "bytes \<Rightarrow> u64 \<Rightarrow> NodeSize \<Rightarrow> u64 \<Rightarrow> unit result \<times> bytes" where
  "format_leaf p page_id sz disk_addr =
    (let p = set_node_header p (NodeMeta_reset_header (node_header p) page_id sz disk_addr)
     in ensure_fence_keys p)"

section \<open>Space management\<close>

definition find_min_offset :: "bytes \<Rightarrow> nat result" where
  "find_min_offset p =
    (case map (\<lambda>i. KVMeta_offset (get_kv_meta p i)) [0..<record_count p] of
       [] \<Rightarrow> Inl (Panic PanicExpect)
     | x # xs \<Rightarrow> Inr (fold min xs x))"

text \<open>
  The relocation loop of \<open>erase_kv_in_buffer\<close>: every record below the erased one moves up by
  its length; the smallest offset seen is carried along.
\<close>

fun erase_loop :: "nat list \<Rightarrow> nat \<Rightarrow> nat \<Rightarrow> nat \<Rightarrow> bytes \<Rightarrow> nat \<times> bytes" where
  "erase_loop [] target_offset len min_offset p = (min_offset, p)"
| "erase_loop (i # is) target_offset len min_offset p =
    (let kv = get_kv_meta p i;
         cur_offset = KVMeta_offset kv
     in
       if cur_offset < target_offset then
         let min_offset = min min_offset cur_offset;
             new_offset = cur_offset + len;
             kv = KVMeta_set_offset kv (word_of_nat new_offset);
             kv = KVMeta_set_offset kv (word_of_nat new_offset);
             p = set_kv_meta p i kv
         in erase_loop is target_offset len min_offset p
       else erase_loop is target_offset len min_offset p)"

definition erase_kv_in_buffer :: "bytes \<Rightarrow> kv_meta \<Rightarrow> nat \<times> bytes" where
  "erase_kv_in_buffer p kv =
    (let len = KVMeta_key_size kv + KVMeta_val_size kv;
         target_offset = KVMeta_offset kv;
         (min_offset, p) = erase_loop [0..<record_count p] target_offset len target_offset p
     in
       if min_offset = target_offset then (target_offset + len, p)
       else
         let src = min_offset;
             dst = min_offset + len;
             p = copy_within p src dst len
         in (min_offset + len, p))"

definition shift_meta_left :: "bytes \<Rightarrow> nat \<Rightarrow> bytes" where
  "shift_meta_left p idx =
    (let total = record_count p in
     if total \<le> idx + 1 then p
     else copy_within p (kv_slot (idx + 1)) (kv_slot idx) (8 * (total - idx - 1)))"

section \<open>Mutating operations\<close>

definition remove_entry :: "bytes \<Rightarrow> nat \<Rightarrow> bool result \<times> bytes" where
  "remove_entry p idx =
    (if record_count p \<le> idx then (Inr False, p)
     else
       let kv = get_kv_meta p idx in
       if KVMeta_fence kv then (Inr False, p)
       else
         let (_, p) = erase_kv_in_buffer p kv;
             p = shift_meta_left p idx
         in
           case dec_record_count p of
             (Inl e, p) \<Rightarrow> (Inl e, p)
           | (Inr _, p) \<Rightarrow> (Inr True, p))"

definition remove_entry_at :: "bytes \<Rightarrow> nat \<Rightarrow> unit result \<times> bytes" where
  "remove_entry_at p idx = (case remove_entry p idx of (Inl e, p) \<Rightarrow> (Inl e, p) | (Inr _, p) \<Rightarrow> (Inr (), p))"

definition remove_key_physical :: "bytes \<Rightarrow> bytes \<Rightarrow> bool result \<times> bytes" where
  "remove_key_physical p key =
    (case get_node_prefix p of
       Inl e \<Rightarrow> (Inl e, p)
     | Inr pre \<Rightarrow>
         if \<not> prefix pre key then (Inr False, p)
         else
           case leaf_binary_search p (drop (length pre) key) of
             Inr idx \<Rightarrow> remove_entry p idx
           | Inl _ \<Rightarrow> (Inr False, p))"

definition mark_entry_tombstone :: "bytes \<Rightarrow> nat \<Rightarrow> bool \<times> bytes" where
  "mark_entry_tombstone p idx =
    (let kv = get_kv_meta p idx in
     if KVMeta_fence kv \<or> KVMeta_typ kv = KVTombstone then (False, p)
     else (True, set_kv_meta p idx (KVMeta_set_record_type kv KVTombstone)))"

definition mark_tombstone :: "bytes \<Rightarrow> bytes \<Rightarrow> bool result \<times> bytes" where
  "mark_tombstone p key =
    (case get_node_prefix p of
       Inl e \<Rightarrow> (Inl e, p)
     | Inr pre \<Rightarrow>
         if \<not> prefix pre key then (Inr False, p)
         else
           case leaf_binary_search p (drop (length pre) key) of
             Inr idx \<Rightarrow> (case mark_entry_tombstone p idx of (b, p) \<Rightarrow> (Inr b, p))
           | Inl _ \<Rightarrow> (Inr False, p))"

text \<open>The branch of \<open>try_put_with_suffix\<close> for a key that is already on the page.\<close>

definition put_existing :: "bytes \<Rightarrow> nat \<Rightarrow> bytes \<Rightarrow> bytes \<Rightarrow> unit result \<times> bytes" where
  "put_existing p idx key_suffix val =
    (let target_kv = get_kv_meta p idx in
     if KVMeta_val_size target_kv = length val then put_val_from_meta p target_kv val
     else
       let (alloc_ptr, p) = erase_kv_in_buffer p target_kv;
           new_size = length key_suffix + length val
       in
         if alloc_ptr < new_size then (Inl (Panic PanicOverflow), p)
         else
           let new_offset = alloc_ptr - new_size;
               meta_end = (record_count p + 1) * 8
           in
             if new_offset < meta_end then (Inl InsufficientSpace, p)
             else
               let target_kv = KVMeta_set_offset target_kv (word_of_nat new_offset) in
               case KVMeta_set_val_size target_kv (word_of_nat (length val)) of
                 Inl e \<Rightarrow> (Inl e, p)
               | Inr target_kv \<Rightarrow>
                   let target_kv = KVMeta_set_ref_bit target_kv True;
                       p = set_kv_meta p idx target_kv
                   in
                     case put_key_from_meta p target_kv key_suffix of
                       (Inl e, p) \<Rightarrow> (Inl e, p)
                     | (Inr _, p) \<Rightarrow> put_val_from_meta p target_kv val)"

text \<open>The branch for a key that is not on the page, with its insertion point.\<close>

definition put_new :: "bytes \<Rightarrow> nat \<Rightarrow> bytes \<Rightarrow> bytes \<Rightarrow> unit result \<times> bytes" where
  "put_new p idx key_suffix val =
    (let sz = length key_suffix + length val in
     case find_min_offset p of
       Inl e \<Rightarrow> (Inl e, p)
     | Inr min_offset \<Rightarrow>
         if min_offset < sz then (Inl InsufficientSpace, p)
         else
           let new_offset = min_offset - sz;
               meta_end = (record_count p + 2) * 8
           in
             if new_offset < meta_end then (Inl InsufficientSpace, p)
             else if record_count p \<le> idx then (Inl (Panic PanicAssert), p)
             else
               let p = copy_within p (kv_slot idx) (kv_slot (idx + 1)) (8 * (record_count p - idx));
                   new_meta = KVMeta_new (length key_suffix) (length val) new_offset KVInsert False True
                     (get_lookahead key_suffix);
                   p = set_kv_meta p idx new_meta
               in
                 case inc_record_count p of
                   (Inl e, p) \<Rightarrow> (Inl e, p)
                 | (Inr _, p) \<Rightarrow>
                     case put_key_from_meta p new_meta key_suffix of
                       (Inl e, p) \<Rightarrow> (Inl e, p)
                     | (Inr _, p) \<Rightarrow> put_val_from_meta p new_meta val)"

definition try_put_with_suffix :: "bytes \<Rightarrow> bytes \<Rightarrow> bytes \<Rightarrow> unit result \<times> bytes" where
  "try_put_with_suffix p key_suffix val =
    (case leaf_binary_search p key_suffix of
       Inr idx \<Rightarrow> put_existing p idx key_suffix val
     | Inl idx \<Rightarrow> put_new p idx key_suffix val)"

definition try_put :: "bytes \<Rightarrow> bytes \<Rightarrow> bytes \<Rightarrow> unit result \<times> bytes" where
  "try_put p key val =
    (if record_count p < 2 then (Inl (Panic PanicAssert), p)
     else
       case get_node_prefix p of
         Inl e \<Rightarrow> (Inl e, p)
       | Inr node_prefix \<Rightarrow>
           let node_prefix_len = length node_prefix in
           if length key < node_prefix_len then (Inl (Panic PanicBounds), p)
           else
             let key_suffix = drop node_prefix_len key in
             if \<not> prefix node_prefix key then (Inl (Panic PanicAssert), p)
             else try_put_with_suffix p key_suffix val)"

fun replay_entries :: "bytes \<Rightarrow> (bytes \<times> bytes) list \<Rightarrow> unit result \<times> bytes" where
  "replay_entries p [] = (Inr (), p)"
| "replay_entries p ((key, value) # entries) =
    (case try_put p key value of
       (Inl e, p) \<Rightarrow> (Inl e, p)
     | (Inr _, p) \<Rightarrow> replay_entries p entries)"

section \<open>Iteration\<close>

record leaf_entry =
  entry_meta :: kv_meta
  key_suffix :: bytes
  entry_value :: bytes

text \<open>All items of \<open>LeafEntryIter\<close>: the records whose type is reported to exist.\<close>

definition entries :: "bytes \<Rightarrow> leaf_entry list" where
  "entries p =
    map (\<lambda>m. \<lparr>entry_meta = m, key_suffix = get_stored_key_from_meta p m, entry_value = get_val_from_meta p m\<rparr>)
      (filter (\<lambda>m. KVRecordType_exists (KVMeta_typ m)) (map (get_kv_meta p) [0..<record_count p]))"

definition user_entry_count :: "bytes \<Rightarrow> nat" where
  "user_entry_count p =
    length (filter (\<lambda>e. KVRecordType_exists (KVMeta_typ (entry_meta e))) (entries p))"


section \<open>Reading back what was written\<close>

lemma length_write_u64 [simp]: "off + 8 \<le> length p \<Longrightarrow> length (write_u64 p off w) = length p"
  by (simp add: write_u64_def)

lemma read_write_u64 [simp]: "off + 8 \<le> length p \<Longrightarrow> read_u64 (write_u64 p off w) off = w"
  by (simp add: read_u64_def write_u64_def u64le.dec_read_write)

lemma read_u64_write_u64_other:
  "off + 8 \<le> length p \<Longrightarrow> i + 8 \<le> length p \<Longrightarrow> i + 8 \<le> off \<or> off + 8 \<le> i \<Longrightarrow>
    read_u64 (write_u64 p off w) i = read_u64 p i"
  by (simp add: read_u64_def write_u64_def u64le.dec_read_write_other)

lemma read_u64_write_at_other:
  "off + length bs \<le> length p \<Longrightarrow> i + 8 \<le> length p \<Longrightarrow> i + 8 \<le> off \<or> off + length bs \<le> i \<Longrightarrow>
    read_u64 (write_at p off bs) i = read_u64 p i"
  by (simp add: read_u64_def read_write_disjoint)

lemma read_at_write_u64_other:
  "off + 8 \<le> length p \<Longrightarrow> i + n \<le> length p \<Longrightarrow> i + n \<le> off \<or> off + 8 \<le> i \<Longrightarrow>
    read_at (write_u64 p off w) i n = read_at p i n"
  by (simp add: write_u64_def read_write_disjoint)

lemma kv_slot_simps [layout_simps]:
  "kv_slot 0 = 16" "kv_slot (Suc i) = kv_slot i + 8" "kv_slot (i + 1) = kv_slot i + 8"
  by (simp_all add: kv_slot_def size_of_NodeMeta_def)

lemma kv_slot_ge [layout_simps]: "16 \<le> kv_slot i"
  by (simp add: kv_slot_def size_of_NodeMeta_def)

lemma kv_slot_mono: "i < j \<Longrightarrow> kv_slot i + 8 \<le> kv_slot j"
  by (simp add: kv_slot_def)

lemma kv_slot_le_iff [simp]: "kv_slot i \<le> kv_slot j \<longleftrightarrow> i \<le> j"
  by (simp add: kv_slot_def)

lemma kv_slot_diff: "i \<le> j \<Longrightarrow> kv_slot i + 8 * (j - i) = kv_slot j"
  by (simp add: kv_slot_def)

lemma length_set_node_header [simp]:
  "16 \<le> length p \<Longrightarrow> length (set_node_header p m) = length p"
  by (simp add: set_node_header_def)

lemma node_header_set [simp]: "16 \<le> length p \<Longrightarrow> node_header (set_node_header p m) = m"
  by (simp add: node_header_def set_node_header_def read_u64_write_u64_other)

lemma read_at_set_node_header:
  "16 \<le> length p \<Longrightarrow> 16 \<le> i \<Longrightarrow> i + n \<le> length p \<Longrightarrow> read_at (set_node_header p m) i n = read_at p i n"
  by (simp add: set_node_header_def read_at_write_u64_other)

lemma node_header_write_at:
  "16 \<le> off \<Longrightarrow> off + length bs \<le> length p \<Longrightarrow> node_header (write_at p off bs) = node_header p"
  by (simp add: node_header_def read_u64_write_at_other)

lemma length_set_kv_meta [simp]: "kv_slot i + 8 \<le> length p \<Longrightarrow> length (set_kv_meta p i m) = length p"
  by (simp add: set_kv_meta_def)

lemma get_set_kv_meta [simp]: "kv_slot i + 8 \<le> length p \<Longrightarrow> get_kv_meta (set_kv_meta p i m) i = m"
  by (simp add: get_kv_meta_def set_kv_meta_def)

lemma get_set_kv_meta_other:
  assumes "kv_slot i + 8 \<le> length p" and "kv_slot j + 8 \<le> length p" and "i \<noteq> j"
  shows "get_kv_meta (set_kv_meta p i m) j = get_kv_meta p j"
proof -
  have "kv_slot j + 8 \<le> kv_slot i \<or> kv_slot i + 8 \<le> kv_slot j"
    using assms(3) by (simp add: kv_slot_def) linarith
  with assms show ?thesis
    by (simp add: get_kv_meta_def set_kv_meta_def read_u64_write_u64_other)
qed

lemma read_at_set_kv_meta:
  "kv_slot i + 8 \<le> length p \<Longrightarrow> off + n \<le> length p \<Longrightarrow> off + n \<le> kv_slot i \<or> kv_slot i + 8 \<le> off \<Longrightarrow>
    read_at (set_kv_meta p i m) off n = read_at p off n"
  by (simp add: set_kv_meta_def read_at_write_u64_other)

lemma node_header_set_kv_meta [simp]:
  "kv_slot i + 8 \<le> length p \<Longrightarrow> node_header (set_kv_meta p i m) = node_header p"
  using kv_slot_ge[of i]
  by (simp add: set_kv_meta_def write_u64_def node_header_write_at)

lemma get_kv_meta_write_at:
  "kv_slot i + 8 \<le> off \<Longrightarrow> off + length bs \<le> length p \<Longrightarrow>
    get_kv_meta (write_at p off bs) i = get_kv_meta p i"
  by (simp add: get_kv_meta_def read_u64_write_at_other)

lemma get_kv_meta_set_node_header [simp]:
  "kv_slot i + 8 \<le> length p \<Longrightarrow> get_kv_meta (set_node_header p m) i = get_kv_meta p i"
  using kv_slot_ge[of i]
  by (simp add: get_kv_meta_def read_u64_def read_at_set_node_header)

lemma length_set_record_count [simp]: "16 \<le> length p \<Longrightarrow> length (set_record_count p c) = length p"
  by (simp add: set_record_count_def)

lemma record_count_set_record_count [simp]:
  "16 \<le> length p \<Longrightarrow> record_count (set_record_count p c) = unat (take_bit 9 c)"
  by (simp add: set_record_count_def record_count_def)

lemma record_count_cong: "node_header p = node_header q \<Longrightarrow> record_count p = record_count q"
  by (simp add: record_count_def)

lemma record_count_less: "record_count p < 512"
  by (simp add: record_count_def record_count_small)

lemma unat_record_count_succ:
  assumes "record_count p < 511"
  shows "unat (take_bit 9 (NodeMeta_record_count (node_header p) + 1)) = record_count p + 1"
proof -
  have "unat (NodeMeta_record_count (node_header p) + 1) = record_count p + 1"
    using assms by (simp add: record_count_def unat_word_ariths)
  with assms show ?thesis
    by (simp add: unsigned_take_bit_eq take_bit_nat_eq_self)
qed

lemma inc_record_count_eq:
  assumes "record_count p < 511"
  shows "inc_record_count p =
    (Inr (), set_record_count p (NodeMeta_record_count (node_header p) + 1))"
  using assms
  by (simp add: inc_record_count_def NodeMeta_inc_record_count_def Let_def set_record_count_def
      record_count_def word_less_nat_alt)

lemma unat_record_count_pred:
  assumes "0 < record_count p"
  shows "unat (take_bit 9 (NodeMeta_record_count (node_header p) - 1)) = record_count p - 1"
proof -
  have "unat (NodeMeta_record_count (node_header p) - 1) = record_count p - 1"
    using assms by (auto simp: record_count_def unat_sub_if_size word_le_nat_alt)
  with record_count_less[of p] show ?thesis
    by (simp add: unsigned_take_bit_eq take_bit_nat_eq_self)
qed

lemma dec_record_count_eq:
  assumes "0 < record_count p"
  shows "dec_record_count p =
    (Inr (), set_record_count p (NodeMeta_record_count (node_header p) - 1))"
  using assms
  by (auto simp: dec_record_count_def NodeMeta_dec_record_count_def Let_def set_record_count_def
      record_count_def)


lemma unat_be2: "unat (of_be_bytes [b0, b1] :: u16) = 256 * unat b0 + unat b1"
proof -
  have "(of_be_bytes [b0, b1] :: u16) = push_bit 8 (ucast b0) + ucast b1"
  proof -
    have "push_bit 8 (ucast b0) AND ucast b1 = (0 :: u16)"
      by (rule bit_word_eqI) (auto simp: bit_simps dest: bit_imp_le_length)
    then show ?thesis
      by (simp add: of_be_bytes_def disjunctive_add_eq_or or.commute)
  qed
  moreover have "unat (push_bit 8 (ucast b0) :: u16) = 256 * unat b0"
  proof -
    have "256 * unat b0 < 2 ^ 16" using unat_bounds(1)[of b0] by simp
    then show ?thesis
      by (simp add: push_bit_eq_mult unat_word_ariths unsigned_ucast_eq take_bit_nat_eq_self mult.commute)
  qed
  moreover have "unat (ucast b1 :: u16) = unat b1"
    using unat_bounds(1)[of b1] by (simp add: unsigned_ucast_eq take_bit_nat_eq_self)
  moreover have "256 * unat b0 + unat b1 < 2 ^ 16"
    using unat_bounds(1)[of b0] unat_bounds(1)[of b1] by simp
  ultimately show ?thesis by (simp add: unat_word_ariths)
qed

lemma get_lookahead_mono:
  assumes "x < y" shows "get_lookahead x \<le> get_lookahead y"
proof -
  have "256 * unat a + unat b \<le> 256 * unat c + unat d" if "a < c \<or> a = c \<and> b \<le> d" for a b c d :: u8
    using that unat_bounds(1)[of b]  by (auto simp: word_less_nat_alt word_le_nat_alt)
  note le = this
  consider "x = []" | a xs where "x = a # xs" "y \<noteq> []" using assms by (cases x; cases y) auto
  then show ?thesis
  proof cases
    case 1
    then show ?thesis by (simp add: get_lookahead_def word_le_nat_alt unat_be2)
  next
    case (2 a xs)
    then obtain c ys where y: "y = c # ys" by (cases y) auto
    have "a < c \<or> a = c \<and> xs < ys" using assms 2(1) y by auto
    moreover have "xs < ys \<Longrightarrow> (if xs = [] then 0 else hd xs) \<le> (if ys = [] then 0 else hd ys)"
      by (cases xs; cases ys) auto
    ultimately show ?thesis
      using 2(1) y le[of a c "if xs = [] then 0 else hd xs" "if ys = [] then 0 else hd ys"]
      by (auto simp: get_lookahead_def word_le_nat_alt unat_be2 hd_conv_nth split: if_splits)
  qed
qed

section \<open>The leaf invariant\<close>

definition stored_key :: "bytes \<Rightarrow> nat \<Rightarrow> bytes" where
  "stored_key p i = get_stored_key_from_meta p (get_kv_meta p i)"

definition stored_val :: "bytes \<Rightarrow> nat \<Rightarrow> bytes" where
  "stored_val p i = get_val_from_meta p (get_kv_meta p i)"

definition kv_len :: "kv_meta \<Rightarrow> nat" where
  "kv_len m = KVMeta_key_size m + KVMeta_val_size m"

definition kv_end :: "kv_meta \<Rightarrow> nat" where
  "kv_end m = KVMeta_offset m + kv_len m"

definition user_range :: "bytes \<Rightarrow> nat list" where
  "user_range p = [1..<record_count p - 1]"

definition user_records :: "bytes \<Rightarrow> (bytes \<times> bytes) list" where
  "user_records p = map (\<lambda>i. (stored_key p i, stored_val p i)) (user_range p)"

definition leaf_wf :: "bytes \<Rightarrow> bool" where
  "leaf_wf p \<longleftrightarrow>
    length p \<le> 4096 \<and> 2 \<le> record_count p \<and> kv_slot (record_count p) \<le> length p \<and>
    (\<forall>i \<in> set [0..<record_count p].
       kv_slot (record_count p) \<le> KVMeta_offset (get_kv_meta p i) \<and> kv_end (get_kv_meta p i) \<le> length p) \<and>
    (\<forall>i \<in> set [0..<record_count p]. \<forall>j \<in> set [0..<record_count p]. i \<noteq> j \<longrightarrow>
       kv_end (get_kv_meta p i) \<le> KVMeta_offset (get_kv_meta p j) \<or>
       kv_end (get_kv_meta p j) \<le> KVMeta_offset (get_kv_meta p i)) \<and>
    KVMeta_fence (get_kv_meta p 0) \<and> KVMeta_fence (get_kv_meta p (record_count p - 1)) \<and>
    (\<forall>i \<in> set (user_range p). \<not> KVMeta_fence (get_kv_meta p i) \<and>
       KVMeta_look_ahead (get_kv_meta p i) = get_lookahead (stored_key p i)) \<and>
    sorted_wrt (<) (map (stored_key p) (user_range p))"

lemma set_user_range: "set (user_range p) = {i. 1 \<le> i \<and> i + 1 < record_count p}"
  by (auto simp: user_range_def)

lemma leaf_wfD:
  assumes "leaf_wf p"
  shows "length p \<le> 4096" "2 \<le> record_count p" "kv_slot (record_count p) \<le> length p"
    and "i < record_count p \<Longrightarrow> kv_slot (record_count p) \<le> KVMeta_offset (get_kv_meta p i)"
    and "i < record_count p \<Longrightarrow> kv_end (get_kv_meta p i) \<le> length p"
    and "i < record_count p \<Longrightarrow> j < record_count p \<Longrightarrow> i \<noteq> j \<Longrightarrow>
       kv_end (get_kv_meta p i) \<le> KVMeta_offset (get_kv_meta p j) \<or>
       kv_end (get_kv_meta p j) \<le> KVMeta_offset (get_kv_meta p i)"
    and "KVMeta_fence (get_kv_meta p 0)" "KVMeta_fence (get_kv_meta p (record_count p - 1))"
    and "1 \<le> i \<Longrightarrow> i + 1 < record_count p \<Longrightarrow> \<not> KVMeta_fence (get_kv_meta p i)"
    and "1 \<le> i \<Longrightarrow> i + 1 < record_count p \<Longrightarrow>
       KVMeta_look_ahead (get_kv_meta p i) = get_lookahead (stored_key p i)"
    and "sorted_wrt (<) (map (stored_key p) (user_range p))"
  using assms unfolding leaf_wf_def by (auto simp: set_user_range)

lemma leaf_wf_keys_less:
  assumes "leaf_wf p" "1 \<le> i" "i < j" "j + 1 < record_count p"
  shows "stored_key p i < stored_key p j"
proof -
  have n: "user_range p ! (k - 1) = k" if "1 \<le> k" "k + 1 < record_count p" for k
    using that by (simp add: user_range_def)
  have "map (stored_key p) (user_range p) ! (i - 1) < map (stored_key p) (user_range p) ! (j - 1)"
    using assms(2-4) by (intro sorted_wrt_nth_less[OF leaf_wfD(11)[OF assms(1)]]) (auto simp: user_range_def)
  with assms(2-4) show ?thesis by (simp add: n user_range_def)
qed

section \<open>Binary search\<close>

lemma get_lookahead_less: "get_lookahead x < get_lookahead y \<Longrightarrow> x < y"
  using get_lookahead_mono[of y x] by (cases x y rule: linorder_cases) auto

lemma leaf_search_step:
  assumes "lower \<le> upper" and "0 < lower" and mid: "mid = lower + (upper - lower) div 2"
    and la: "KVMeta_look_ahead (get_kv_meta p mid) = get_lookahead (stored_key p mid)"
  shows "leaf_search_loop p k (get_lookahead k) lower upper =
    (if k < stored_key p mid then leaf_search_loop p k (get_lookahead k) lower (mid - 1)
     else if k = stored_key p mid then Inr mid
     else leaf_search_loop p k (get_lookahead k) (mid + 1) upper)"
proof -
  let ?la = "get_lookahead k" and ?m = "stored_key p mid"
  have "mid \<noteq> 0" using assms(2) mid by simp
  then have step: "leaf_search_loop p k ?la lower upper =
    (if ?la < get_lookahead ?m then leaf_search_loop p k ?la lower (mid - 1)
     else if ?la = get_lookahead ?m then
       (if k < ?m then leaf_search_loop p k ?la lower (mid - 1)
        else if k = ?m then Inr mid
        else leaf_search_loop p k ?la (mid + 1) upper)
     else leaf_search_loop p k ?la (mid + 1) upper)"
    using assms(1) la
    by (subst leaf_search_loop.simps)
      (simp only: Let_def mid [symmetric] stored_key_def [symmetric] if_True if_False)
  consider "?la < get_lookahead ?m" "k < ?m" | "?la = get_lookahead ?m"
    | "get_lookahead ?m < ?la" "?m < k"
    using get_lookahead_less[of k ?m] get_lookahead_less[of ?m k]
    by (cases "get_lookahead k" "get_lookahead ?m" rule: linorder_cases) auto
  then show ?thesis
  proof cases
    case 2
    then have n: "(?la < get_lookahead ?m) = False" "(?la = get_lookahead ?m) = True" by auto
    show ?thesis by (subst step) (simp only: n if_True if_False)
  next
    case 3
    then have "\<not> ?la < get_lookahead ?m" "?la \<noteq> get_lookahead ?m" "\<not> k < ?m" "k \<noteq> ?m" by auto
    then show ?thesis by (simp only: step if_False)
  qed (simp_all only: step if_True if_False less_irrefl)
qed

lemma leaf_search_loop_correct:
  assumes keys: "\<And>i j. a \<le> i \<Longrightarrow> i < j \<Longrightarrow> j \<le> b \<Longrightarrow> stored_key p i < stored_key p j"
    and la: "\<And>i. a \<le> i \<Longrightarrow> i \<le> b \<Longrightarrow> KVMeta_look_ahead (get_kv_meta p i) = get_lookahead (stored_key p i)"
    and a: "1 \<le> a"
  shows "a \<le> lower \<Longrightarrow> upper \<le> b \<Longrightarrow> lower \<le> upper + 1 \<Longrightarrow>
    (\<And>i. a \<le> i \<Longrightarrow> i < lower \<Longrightarrow> stored_key p i < k) \<Longrightarrow>
    (\<And>i. upper < i \<Longrightarrow> i \<le> b \<Longrightarrow> k < stored_key p i) \<Longrightarrow>
    (case leaf_search_loop p k (get_lookahead k) lower upper of
      Inr m \<Rightarrow> a \<le> m \<and> m \<le> b \<and> stored_key p m = k
    | Inl l \<Rightarrow> a \<le> l \<and> l \<le> b + 1 \<and> (\<forall>i. a \<le> i \<and> i < l \<longrightarrow> stored_key p i < k) \<and>
        (\<forall>i. l \<le> i \<and> i \<le> b \<longrightarrow> k < stored_key p i))"
proof (induction "upper + 1 - lower" arbitrary: lower upper rule: less_induct)
  case less
  show ?case
  proof (cases "lower \<le> upper")
    case False
    then have "leaf_search_loop p k (get_lookahead k) lower upper = Inl lower"
      by (subst leaf_search_loop.simps) simp
    with False less.prems show ?thesis by auto
  next
    case True
    define mid where "mid = lower + (upper - lower) div 2"
    have mid: "lower \<le> mid" "mid \<le> upper" "a \<le> mid" "mid \<le> b" "0 < lower"
      using True less.prems(1,2) a by (auto simp: mid_def)
    note step = leaf_search_step[OF True mid(5) mid_def la[OF mid(3,4)], of k]
    consider "k < stored_key p mid" | "k = stored_key p mid"
      | "stored_key p mid < k" "\<not> k < stored_key p mid" "k \<noteq> stored_key p mid"
      by (cases k "stored_key p mid" rule: linorder_cases) auto
    then show ?thesis
    proof cases
      case 1
      have "\<And>i. mid - 1 < i \<Longrightarrow> i \<le> b \<Longrightarrow> k < stored_key p i"
      proof -
        fix i assume "mid - 1 < i" "i \<le> b"
        then have "mid = i \<or> mid < i \<and> i \<le> b" using mid by auto
        then show "k < stored_key p i" using 1 keys[of mid i] mid(3) by auto
      qed
      moreover have "mid - 1 + 1 - lower < upper + 1 - lower" "mid - 1 \<le> b" "lower \<le> mid - 1 + 1"
        using mid by auto
      ultimately show ?thesis
        using less.hyps[of "mid - 1" lower] less.prems 1 step by simp
    next
      case 2
      with step mid show ?thesis by simp
    next
      case 3
      have "\<And>i. a \<le> i \<Longrightarrow> i < mid + 1 \<Longrightarrow> stored_key p i < k"
      proof -
        fix i assume "a \<le> i" "i < mid + 1"
        then have "i = mid \<or> i < mid" by auto
        then show "stored_key p i < k" using 3 keys[of i mid] mid(4) \<open>a \<le> i\<close> by auto
      qed
      moreover have "upper + 1 - (mid + 1) < upper + 1 - lower" "a \<le> mid + 1" "mid + 1 \<le> upper + 1"
        using mid by auto
      ultimately show ?thesis
        using less.hyps[of upper "mid + 1"] less.prems 3 step by simp
    qed
  qed
qed

lemma leaf_binary_search_cases:
  assumes "leaf_wf p"
  obtains (found) m where "leaf_binary_search p k = Inr m" "1 \<le> m" "m + 1 < record_count p" "stored_key p m = k"
  | (absent) l where "leaf_binary_search p k = Inl l" "1 \<le> l" "l < record_count p"
      "\<And>i. 1 \<le> i \<Longrightarrow> i < l \<Longrightarrow> stored_key p i < k"
      "\<And>i. l \<le> i \<Longrightarrow> i + 1 < record_count p \<Longrightarrow> k < stored_key p i"
proof (cases "record_count p \<le> 2")
  case True
  with leaf_wfD(2)[OF assms] have "leaf_binary_search p k = Inl 1" "record_count p = 2"
    by (auto simp: leaf_binary_search_def)
  then show thesis by (intro absent[of 1]) auto
next
  case False
  let ?r = "leaf_search_loop p k (get_lookahead k) 1 (record_count p - 2)"
  have "record_count p - 1 - 1 = record_count p - 2" "\<not> record_count p - 2 < 1"
    using False by auto
  then have eq: "leaf_binary_search p k = ?r"
    using False leaf_wfD(7,8)[OF assms] by (simp only: leaf_binary_search_def Let_def if_True if_False)
  have r: "case ?r of
      Inr m \<Rightarrow> 1 \<le> m \<and> m \<le> record_count p - 2 \<and> stored_key p m = k
    | Inl l \<Rightarrow> 1 \<le> l \<and> l \<le> record_count p - 2 + 1 \<and> (\<forall>i. 1 \<le> i \<and> i < l \<longrightarrow> stored_key p i < k) \<and>
        (\<forall>i. l \<le> i \<and> i \<le> record_count p - 2 \<longrightarrow> k < stored_key p i)"
    using False
    by (intro leaf_search_loop_correct leaf_wf_keys_less[OF assms] leaf_wfD(10)[OF assms]) simp_all
  show thesis
  proof (cases ?r)
    case (Inl l)
    with r eq False show thesis by (intro absent[of l]) auto
  next
    case (Inr m)
    with r eq False show thesis by (intro found[of m]) auto
  qed
qed

end
