(* ===== verification/Node_Ops.thy ===== *)
theory Node_Ops
  imports Node
begin

text \<open>
  What the operations of node.rs do to a well-formed leaf: fences are installed and read
  back, a put of a fresh key inserts at the position the search returns, a put of the same
  length overwrites in place, a tombstone only changes the record type.  Each operation keeps
  \<open>leaf_wf\<close>, and its effect is stated on \<open>user_records\<close>, the sorted association list that
  the page stands for.
\<close>

section \<open>Fresh pages\<close>

lemma get_stored_key_write_other:
  assumes "off + length bs \<le> length p" and "kv_end m \<le> length p"
    and "kv_end m \<le> off \<or> off + length bs \<le> KVMeta_offset m"
  shows "get_stored_key_from_meta (write_at p off bs) m = get_stored_key_from_meta p m"
  using assms unfolding get_stored_key_from_meta_def kv_end_def kv_len_def
  by (intro read_write_disjoint) auto

lemma install_fences_spec:
  assumes "NodeMeta_size (node_header p) = Some sz" and len: "length p = NodeSize_size_in_bytes sz"
    and fit: "32 + length lower + length upper \<le> length p"
  defines "lo \<equiv> length p - length upper - length lower" and "uo \<equiv> length p - length upper"
  shows "\<exists>q. install_fences p lower upper = (Inr (), q) \<and> length q = length p \<and>
    node_header q = NodeMeta_set_record_count (node_header p) 2 \<and>
    get_kv_meta q 0 = KVMeta_set_offset (KVMeta_new (length lower) 0 0 KVCache True True 0) (word_of_nat lo) \<and>
    get_kv_meta q 1 = KVMeta_set_offset (KVMeta_new (length upper) 0 0 KVCache True True 0) (word_of_nat uo) \<and>
    read_at q lo (length lower) = lower \<and> read_at q uo (length upper) = upper"
proof -
  define p1 where "p1 = write_at (write_at p uo upper) lo lower"
  define p2 where "p2 = set_record_count p1 2"
  define m0 where "m0 = KVMeta_set_offset (KVMeta_new (length lower) 0 0 KVCache True True 0) (word_of_nat lo)"
  define m1 where "m1 = KVMeta_set_offset (KVMeta_new (length upper) 0 0 KVCache True True 0) (word_of_nat uo)"
  define q where "q = set_kv_meta (set_kv_meta p2 0 m0) 1 m1"
  have b: "lo + length lower = uo" "uo + length upper = length p" "32 \<le> lo"
    using fit by (auto simp: lo_def uo_def)
  have l1: "length p1 = length p" "length p2 = length p"
    using b by (simp_all add: p1_def p2_def)
  have slots: "kv_slot 0 + 8 = 24" "kv_slot 1 + 8 = 32" "kv_slot 0 = 16" "kv_slot 1 = 24"
    by (simp_all add: kv_slot_def size_of_NodeMeta_def)
  have lq: "length q = length p"
    using b l1 slots by (simp add: q_def)
  have "install_fences p lower upper = (Inr (), q)"
    using assms(1) len b
    by (simp add: install_fences_def Let_def q_def p1_def p2_def m0_def m1_def)
      (simp add: lo_def uo_def)
  moreover have "node_header q = NodeMeta_set_record_count (node_header p) 2"
    using b l1 slots by (simp add: q_def p2_def p1_def set_record_count_def node_header_write_at)
  moreover have "get_kv_meta q 0 = m0" "get_kv_meta q 1 = m1"
    using b l1 slots by (simp_all add: q_def get_set_kv_meta_other)
  moreover have "read_at q i n = read_at p1 i n" if "32 \<le> i" "i + n \<le> length p" for i n
    using that b l1 slots
    by (simp add: q_def read_at_set_kv_meta p2_def set_record_count_def read_at_set_node_header)
  moreover have "read_at p1 lo (length lower) = lower" "read_at p1 uo (length upper) = upper"
    using b by (simp_all add: p1_def read_write_same read_write_disjoint)
  ultimately show ?thesis
    using b lq by (auto simp: m0_def m1_def)
qed

lemma install_fences_wf:
  assumes "NodeMeta_size (node_header p) = Some sz" and len: "length p = NodeSize_size_in_bytes sz"
    and fit: "32 + length lower + length upper \<le> length p"
    and q: "install_fences p lower upper = (r, q)"
  shows "r = Inr ()" "leaf_wf q" "user_records q = []" "fence_bounds q = Inr (lower, upper)"
    "length q = length p" "node_header q = NodeMeta_set_record_count (node_header p) 2"
proof -
  define lo where "lo = length p - length upper - length lower"
  define uo where "uo = length p - length upper"
  have bound: "length p \<le> 4096" by (simp add: len NodeSize_bytes_bounds)
  obtain spec: "r = Inr ()" "length q = length p"
      "node_header q = NodeMeta_set_record_count (node_header p) 2"
      "get_kv_meta q 0 = KVMeta_set_offset (KVMeta_new (length lower) 0 0 KVCache True True 0) (word_of_nat lo)"
      "get_kv_meta q 1 = KVMeta_set_offset (KVMeta_new (length upper) 0 0 KVCache True True 0) (word_of_nat uo)"
      "read_at q lo (length lower) = lower" "read_at q uo (length upper) = upper"
    using install_fences_spec[OF assms(1-3)] q by (auto simp: lo_def uo_def)
  have rc: "record_count q = 2" by (simp add: record_count_def spec(3))
  have b: "lo + length lower = uo" "uo + length upper = length p" "32 \<le> lo" "lo < 2 ^ 16" "uo < 2 ^ 16"
    "length lower < 2 ^ 14" "length upper < 2 ^ 14"
    using fit bound by (auto simp: lo_def uo_def)
  have w: "unat (word_of_nat lo :: u16) = lo" "unat (word_of_nat uo :: u16) = uo"
    using b by (simp_all add: unat_of_nat)
  have m: "KVMeta_offset (get_kv_meta q 0) = lo" "KVMeta_key_size (get_kv_meta q 0) = length lower"
    "KVMeta_val_size (get_kv_meta q 0) = 0" "KVMeta_fence (get_kv_meta q 0)"
    "KVMeta_offset (get_kv_meta q 1) = uo" "KVMeta_key_size (get_kv_meta q 1) = length upper"
    "KVMeta_val_size (get_kv_meta q 1) = 0" "KVMeta_fence (get_kv_meta q 1)"
    using b by (simp_all add: spec [unfolded One_nat_def] w)
  have e: "kv_end (get_kv_meta q 0) = uo" "kv_end (get_kv_meta q 1) = length p"
    using b m by (simp_all add: kv_end_def kv_len_def)
  have "[0..<2] = [0, 1::nat]" by (simp add: numeral_2_eq_2)
  with b m e rc bound spec(2) show "leaf_wf q"
    by (simp add: leaf_wf_def user_range_def kv_slot_def size_of_NodeMeta_def)
  show "r = Inr ()" "length q = length p" "node_header q = NodeMeta_set_record_count (node_header p) 2"
    by (rule spec)+
  show "user_records q = []" by (simp add: user_records_def user_range_def rc)
  show "fence_bounds q = Inr (lower, upper)"
    using m spec b by (simp add: fence_bounds_def Let_def rc get_stored_key_from_meta_def key_in_page_def)
qed

lemma format_leaf_wf:
  assumes "length p = NodeSize_size_in_bytes sz" and "format_leaf p page_id sz disk_addr = (r, q)"
  shows "r = Inr ()" "leaf_wf q" "user_records q = []" "fence_bounds q = Inr ([0x00], [0xFF])"
    "length q = length p" "NodeMeta_page_id (node_header q) = take_bit 48 page_id"
    "NodeMeta_leaf (node_header q) = take_bit 48 disk_addr" "NodeMeta_size (node_header q) = Some sz"
proof -
  let ?p = "set_node_header p (NodeMeta_reset_header (node_header p) page_id sz disk_addr)"
  have l: "64 \<le> length p" by (simp add: assms(1) NodeSize_bytes_bounds)
  then have h: "node_header ?p = NodeMeta_reset_header (node_header p) page_id sz disk_addr"
    by simp
  have "install_fences ?p [0x00] [0xFF] = (r, q)"
    using assms(2) l by (simp add: format_leaf_def ensure_fence_keys_def record_count_def)
  note f = install_fences_wf[OF _ _ _ this]
  have "NodeMeta_size (node_header ?p) = Some sz" "length ?p = NodeSize_size_in_bytes sz"
    "32 + length [0x00 :: u8] + length [0xFF :: u8] \<le> length ?p"
    using l assms(1) by (simp_all add: h)
  note f = f[OF this]
  show "r = Inr ()" "leaf_wf q" "user_records q = []" "fence_bounds q = Inr ([0x00], [0xFF])"
    by (rule f)+
  show "length q = length p" using f(5) l by simp
  show "NodeMeta_page_id (node_header q) = take_bit 48 page_id"
    "NodeMeta_leaf (node_header q) = take_bit 48 disk_addr" "NodeMeta_size (node_header q) = Some sz"
    by (simp_all add: f(6) h)
qed

section \<open>The header without the record count\<close>

definition page_ident :: "bytes \<Rightarrow> node_meta" where
  "page_ident p = NodeMeta_set_record_count (node_header p) 0"

lemma set_record_count_twice [simp]:
  "NodeMeta_set_record_count (NodeMeta_set_record_count m c) d = NodeMeta_set_record_count m d"
  by (simp add: set_record_count_field with_field_twice)

lemma page_identD:
  assumes "page_ident q = page_ident p"
  shows "NodeMeta_size (node_header q) = NodeMeta_size (node_header p)"
    "NodeMeta_leaf (node_header q) = NodeMeta_leaf (node_header p)"
    "NodeMeta_page_id (node_header q) = NodeMeta_page_id (node_header p)"
    "NodeMeta_is_live (node_header q) = NodeMeta_is_live (node_header p)"
    "NodeMeta_is_hot (node_header q) = NodeMeta_is_hot (node_header p)"
  using assms unfolding page_ident_def by (metis set_record_count_keeps)+

lemma page_ident_set_record_count [simp]: "16 \<le> length p \<Longrightarrow> page_ident (set_record_count p c) = page_ident p"
  by (simp add: page_ident_def set_record_count_def)

lemma page_ident_cong: "node_header q = node_header p \<Longrightarrow> page_ident q = page_ident p"
  by (simp add: page_ident_def)

section \<open>Insertion of a new key\<close>

lemma find_min_offset_spec:
  fixes p :: bytes
  assumes "0 < record_count p"
  obtains mo where "find_min_offset p = Inr mo"
    "\<And>i. i < record_count p \<Longrightarrow> mo \<le> KVMeta_offset (get_kv_meta p i)"
    "\<exists>i < record_count p. mo = KVMeta_offset (get_kv_meta p i)"
proof -
  let ?l = "map (\<lambda>i. KVMeta_offset (get_kv_meta p i)) [0..<record_count p]"
  obtain x xs where l: "?l = x # xs" using assms by (cases ?l) auto
  have "fold min xs x \<le> y" if "y \<in> set ?l" for y
    using that fold_min_le(1)[of xs x] fold_min_le(2)[of y xs x] unfolding l by auto
  moreover have "fold min xs x \<in> set ?l" using fold_min_in[of xs x] by (simp add: l)
  moreover have "find_min_offset p = Inr (fold min xs x)" by (simp only: find_min_offset_def l list.case)
  ultimately show thesis by (intro that[of "fold min xs x"]) auto
qed

lemma find_min_offset_le:
  assumes "find_min_offset p = Inr mo" and "i < record_count p"
  shows "mo \<le> KVMeta_offset (get_kv_meta p i)"
  using assms by (auto intro: find_min_offset_spec[of p])

text \<open>The bytes between the metadata array, grown by one slot, and the lowest record.\<close>

definition leaf_room :: "bytes \<Rightarrow> nat \<Rightarrow> bool" where
  "leaf_room p n \<longleftrightarrow>
    (case find_min_offset p of Inl _ \<Rightarrow> False | Inr mo \<Rightarrow> kv_slot (record_count p + 1) + n \<le> mo)"

lemma get_kv_meta_shift_right:
  assumes "idx \<le> n" and "kv_slot (n + 1) \<le> length p" and "j \<le> n"
    and q: "q = set_kv_meta (copy_within p (kv_slot idx) (kv_slot (idx + 1)) (8 * (n - idx))) idx m"
  shows "get_kv_meta q j = (if j < idx then get_kv_meta p j else if j = idx then m else get_kv_meta p (j - 1))"
    and "length q = length p"
    and "kv_slot (n + 1) \<le> off \<Longrightarrow> off + k \<le> length p \<Longrightarrow> read_at q off k = read_at p off k"
    and "node_header q = node_header p"
proof -
  define c where "c = copy_within p (kv_slot idx) (kv_slot (idx + 1)) (8 * (n - idx))"
  note q = q [folded c_def]
  have b: "kv_slot idx + 8 * (n - idx) = kv_slot n" "kv_slot (idx + 1) + 8 * (n - idx) = kv_slot (n + 1)"
    using assms(1) by (simp_all add: kv_slot_def)
  have s: "kv_slot idx + 8 \<le> length p" "kv_slot n \<le> length p" "kv_slot j + 8 \<le> length p" "16 \<le> kv_slot (idx + 1)"
    using assms(1-3) by (simp_all add: kv_slot_def size_of_NodeMeta_def)
  have lc: "length c = length p"
    using b s assms(2) unfolding c_def by (intro length_copy_within) simp_all
  then show "length q = length p" using s by (simp add: q)
  have r: "read_at c i k = read_at p i k" if "i + k \<le> kv_slot (idx + 1) \<or> kv_slot (n + 1) \<le> i" "i + k \<le> length p" for i k
    using that b s assms(2) unfolding c_def by (intro read_copy_within_disjoint) auto
  show "node_header q = node_header p"
  proof -
    have "node_header c = node_header p" using s kv_slot_ge[of idx] by (simp add: node_header_def read_u64_def r)
    with s lc show ?thesis by (simp add: q)
  qed
  show "read_at q off k = read_at p off k" if "kv_slot (n + 1) \<le> off" "off + k \<le> length p"
    using that s lc assms(1) by (simp add: q read_at_set_kv_meta r kv_slot_def)
  consider "j < idx" | "j = idx" | "idx < j" by linarith
  then show "get_kv_meta q j = (if j < idx then get_kv_meta p j else if j = idx then m else get_kv_meta p (j - 1))"
  proof cases
    case 1
    then have "get_kv_meta c j = get_kv_meta p j"
      using s by (simp add: get_kv_meta_def read_u64_def r kv_slot_def)
    with 1 s lc show ?thesis by (simp add: q get_set_kv_meta_other)
  next
    case 2
    with s lc show ?thesis by (simp add: q)
  next
    case 3
    then have "kv_slot (idx + 1) \<le> kv_slot j" "kv_slot j + 8 \<le> kv_slot (n + 1)"
      "kv_slot idx + (kv_slot j - kv_slot (idx + 1)) = kv_slot (j - 1)"
      using assms(3) by (simp_all add: kv_slot_def)
    then have "get_kv_meta c j = get_kv_meta p (j - 1)"
      using b s assms(2) by (simp add: c_def get_kv_meta_def read_u64_def read_copy_within)
    with 3 s lc show ?thesis by (simp add: q get_set_kv_meta_other)
  qed
qed

lemma record_count_set_record_count_succ:
  assumes "record_count p < 511" and "16 \<le> length p"
  shows "record_count (set_record_count p (NodeMeta_record_count (node_header p) + 1)) = record_count p + 1"
  using assms by (simp add: unat_record_count_succ)

lemma put_new_spec:
  assumes wf: "leaf_wf p" and idx: "1 \<le> idx" "idx < record_count p"
    and room: "leaf_room p (length k + length v)"
  obtains q mo where "put_new p idx k v = (Inr (), q)" "find_min_offset p = Inr mo"
    "kv_slot (record_count p + 1) + length k + length v \<le> mo"
    "length q = length p" "record_count q = record_count p + 1"
    "page_ident q = page_ident p"
    "\<forall>j. j \<le> record_count p \<longrightarrow> get_kv_meta q j =
       (if j < idx then get_kv_meta p j
        else if j = idx then KVMeta_new (length k) (length v) (mo - (length k + length v)) KVInsert False True (get_lookahead k)
        else get_kv_meta p (j - 1))"
    "\<forall>i n. mo \<le> i \<longrightarrow> i + n \<le> length p \<longrightarrow> read_at q i n = read_at p i n"
    "read_at q (mo - (length k + length v)) (length k) = k"
    "read_at q (mo - length v) (length v) = v"
proof -
  let ?n = "record_count p"
  obtain mo where mo: "find_min_offset p = Inr mo"
      "\<And>i. i < ?n \<Longrightarrow> mo \<le> KVMeta_offset (get_kv_meta p i)"
    using leaf_wfD(2)[OF wf] by (auto intro: find_min_offset_spec[of p])
  define no where "no = mo - (length k + length v)"
  define m where "m = KVMeta_new (length k) (length v) no KVInsert False True (get_lookahead k)"
  define p1 where "p1 = set_kv_meta (copy_within p (kv_slot idx) (kv_slot (idx + 1)) (8 * (?n - idx))) idx m"
  define p2 where "p2 = set_record_count p1 (NodeMeta_record_count (node_header p1) + 1)"
  define p3 where "p3 = write_at p2 no k"
  define q where "q = write_at p3 (no + length k) v"
  have fit: "kv_slot (?n + 1) \<le> no" "no + length k + length v = mo"
    using room by (auto simp: leaf_room_def mo no_def)
  have up: "mo \<le> length p" "length p \<le> 4096"
    using mo(2)[of 0] leaf_wfD(1,2)[OF wf] leaf_wfD(5)[OF wf, of 0] by (auto simp: kv_end_def)
  have small: "length k < 2 ^ 14" "length v < 2 ^ 14" "no < 2 ^ 16" "?n < 511" "16 \<le> length p"
    using fit up by (auto simp: kv_slot_def size_of_NodeMeta_def)
  note m = KVMeta_new_fields[OF small(1-3), of KVInsert False True "get_lookahead k", folded m_def]
  have slot: "kv_slot (?n + 1) \<le> length p" using fit up by linarith
  note sh = get_kv_meta_shift_right[OF less_imp_le[OF idx(2)] slot _ p1_def]
  have p1: "length p1 = length p" "node_header p1 = node_header p"
    by (rule sh(2)[OF le0], rule sh(4)[OF le0])
  have p2: "length p2 = length p" "record_count p2 = ?n + 1" "page_ident p2 = page_ident p"
    using small p1 record_count_set_record_count_succ[of p1]
    by (simp_all add: p2_def record_count_cong[OF p1(2)] page_ident_cong[OF p1(2)])
  have inc: "inc_record_count p1 = (Inr (), p2)"
    using small by (simp add: p2_def inc_record_count_eq record_count_cong[OF p1(2)])
  have p3: "length p3 = length p" "no + length k + length v \<le> length p3" "no + length k \<le> length p2"
    using p2 fit up by (simp_all add: p3_def)
  have q_len: "length q = length p" using p3 by (simp add: q_def)
  have "\<not> mo < length k + length v" "\<not> no < (?n + 2) * 8" "\<not> ?n \<le> idx"
    using fit idx by (simp_all add: kv_slot_def size_of_NodeMeta_def)
  then have res: "put_new p idx k v = (Inr (), q)"
    by (simp only: put_new_def Let_def mo(1) sum.case if_False no_def [symmetric] m_def [symmetric]
        p1_def [symmetric] inc prod.case put_key_from_meta_def put_val_from_meta_def m simp_thms if_True
        p3_def [symmetric] q_def [symmetric])
  have r2: "read_at p2 i n = read_at p i n" if "kv_slot (?n + 1) \<le> i" "i + n \<le> length p" for i n
    using that small p1 sh(3)[of 0 i n] kv_slot_ge[of "?n + 1"]
    by (simp add: p2_def set_record_count_def read_at_set_node_header)
  have meta: "get_kv_meta q j = (if j < idx then get_kv_meta p j else if j = idx then m else get_kv_meta p (j - 1))"
    if "j \<le> ?n" for j
  proof -
    have j: "kv_slot j + 8 \<le> no" using that fit(1) kv_slot_mono[of j "?n + 1"] by linarith
    then have "get_kv_meta q j = get_kv_meta p2 j"
      using p3 p2 by (simp add: q_def p3_def get_kv_meta_write_at)
    also have "\<dots> = get_kv_meta p1 j"
      using j p1 fit up by (simp add: p2_def set_record_count_def)
    finally show ?thesis using sh(1)[OF that] by simp
  qed
  have keep: "read_at q i n = read_at p i n" if "mo \<le> i" "i + n \<le> length p" for i n
    using that fit p2 p3 by (simp add: q_def p3_def read_write_disjoint r2)
  have hdr: "node_header q = node_header p2"
    using p2 p3 fit kv_slot_ge[of "?n + 1"] by (simp add: q_def p3_def node_header_write_at)
  have "read_at q no (length k) = k" "read_at q (no + length k) (length v) = v"
    using p2 p3 by (simp_all add: q_def p3_def read_write_disjoint read_write_same)
  moreover have "no + length k = mo - length v" using fit by linarith
  ultimately have vals: "read_at q (mo - (length k + length v)) (length k) = k"
    "read_at q (mo - length v) (length v) = v"
    by (simp_all only: no_def)
  have room': "kv_slot (?n + 1) + length k + length v \<le> mo" using fit by linarith
  have "record_count q = ?n + 1" "page_ident q = page_ident p"
    using p2 hdr record_count_cong[OF hdr] page_ident_cong[OF hdr] by simp_all
  from that[OF res mo(1) room' q_len this _ _ vals] meta[unfolded m_def no_def] keep
  show thesis by blast
qed

lemma user_records_split:
  assumes "1 \<le> i" "i + 1 < record_count p"
  shows "user_records p = map (\<lambda>i. (stored_key p i, stored_val p i)) [1..<i] @ (stored_key p i, stored_val p i) #
    map (\<lambda>i. (stored_key p i, stored_val p i)) [Suc i..<record_count p - 1]"
  using assms unfolding user_records_def user_range_def by (subst upt_split3[of 1 i]) simp_all

text \<open>The facts about a page after an insertion, in the form the invariant needs them.\<close>

lemma put_new_records:
  assumes wf: "leaf_wf p" and idx: "1 \<le> idx" "idx < record_count p"
    and room: "leaf_room p (length k + length v)" and put: "put_new p idx k v = (r, q)"
  shows "r = Inr ()" "length q = length p" "record_count q = record_count p + 1"
    "page_ident q = page_ident p"
    "j \<le> record_count p \<Longrightarrow> stored_key q j = (if j < idx then stored_key p j else if j = idx then k else stored_key p (j - 1))"
    "j \<le> record_count p \<Longrightarrow> stored_val q j = (if j < idx then stored_val p j else if j = idx then v else stored_val p (j - 1))"
    "j \<le> record_count p \<Longrightarrow> KVMeta_fence (get_kv_meta q j) = (if j < idx then KVMeta_fence (get_kv_meta p j) else j \<noteq> idx \<and> KVMeta_fence (get_kv_meta p (j - 1)))"
    "j \<le> record_count p \<Longrightarrow> KVMeta_look_ahead (get_kv_meta q j) =
       (if j < idx then KVMeta_look_ahead (get_kv_meta p j) else if j = idx then get_lookahead k else KVMeta_look_ahead (get_kv_meta p (j - 1)))"
    "j \<le> record_count p \<Longrightarrow> kv_slot (record_count p + 1) \<le> KVMeta_offset (get_kv_meta q j) \<and> kv_end (get_kv_meta q j) \<le> length p"
    "i \<le> record_count p \<Longrightarrow> j \<le> record_count p \<Longrightarrow> i \<noteq> j \<Longrightarrow>
       kv_end (get_kv_meta q i) \<le> KVMeta_offset (get_kv_meta q j) \<or> kv_end (get_kv_meta q j) \<le> KVMeta_offset (get_kv_meta q i)"
proof -
  let ?n = "record_count p"
  obtain q' mo where q': "put_new p idx k v = (Inr (), q')" "find_min_offset p = Inr mo"
    "kv_slot (?n + 1) + length k + length v \<le> mo"
    "length q' = length p" "record_count q' = ?n + 1" "page_ident q' = page_ident p"
    and meta': "\<forall>j. j \<le> ?n \<longrightarrow> get_kv_meta q' j =
       (if j < idx then get_kv_meta p j
        else if j = idx then KVMeta_new (length k) (length v) (mo - (length k + length v)) KVInsert False True (get_lookahead k)
        else get_kv_meta p (j - 1))"
    and keep': "\<forall>i n. mo \<le> i \<longrightarrow> i + n \<le> length p \<longrightarrow> read_at q' i n = read_at p i n"
    and vals': "read_at q' (mo - (length k + length v)) (length k) = k" "read_at q' (mo - length v) (length v) = v"
    by (rule put_new_spec[OF wf idx room])
  define m where "m = KVMeta_new (length k) (length v) (mo - (length k + length v)) KVInsert False True (get_lookahead k)"
  have q: "r = Inr ()" "q' = q" using put q'(1) by auto
  note fit = q'(3)
  note meta = meta'[rule_format, unfolded q(2), folded m_def]
  note keep = keep'[rule_format, unfolded q(2)]
  show "r = Inr ()" "length q = length p" "record_count q = ?n + 1" "page_ident q = page_ident p"
    using q q'(4-6) by simp_all
  note mo = find_min_offset_le[OF q'(2)]
  have e: "kv_end (get_kv_meta p i) \<le> length p" if "i < ?n" for i by (rule leaf_wfD(5)[OF wf that])
  have up: "mo \<le> length p" "length p \<le> 4096"
    using mo[of 0] e[of 0] leaf_wfD(1)[OF wf] idx by (auto simp: kv_end_def)
  have m: "KVMeta_key_size m = length k" "KVMeta_val_size m = length v"
    "KVMeta_offset m = mo - (length k + length v)" "\<not> KVMeta_fence m" "KVMeta_look_ahead m = get_lookahead k"
    using fit up by (simp_all add: m_def)
  have me: "kv_end m = mo" "kv_slot (?n + 1) \<le> KVMeta_offset m"
    using fit m by (simp_all add: kv_end_def kv_len_def)
  have old: "get_stored_key_from_meta q (get_kv_meta p i) = stored_key p i"
    "get_val_from_meta q (get_kv_meta p i) = stored_val p i" if "i < ?n" for i
    using mo[OF that] e[OF that]
    by (simp_all add: keep stored_key_def stored_val_def get_stored_key_from_meta_def get_val_from_meta_def kv_end_def kv_len_def)
  have new: "get_stored_key_from_meta q m = k" "get_val_from_meta q m = v"
    using vals'[unfolded q(2)] fit by (simp_all add: get_stored_key_from_meta_def get_val_from_meta_def m)
  show "j \<le> ?n \<Longrightarrow> stored_key q j = (if j < idx then stored_key p j else if j = idx then k else stored_key p (j - 1))"
    "j \<le> ?n \<Longrightarrow> stored_val q j = (if j < idx then stored_val p j else if j = idx then v else stored_val p (j - 1))"
    using idx by (simp_all add: stored_key_def[of q] stored_val_def[of q] meta old new)
  show "j \<le> ?n \<Longrightarrow> KVMeta_fence (get_kv_meta q j) = (if j < idx then KVMeta_fence (get_kv_meta p j) else j \<noteq> idx \<and> KVMeta_fence (get_kv_meta p (j - 1)))"
    "j \<le> ?n \<Longrightarrow> KVMeta_look_ahead (get_kv_meta q j) =
       (if j < idx then KVMeta_look_ahead (get_kv_meta p j) else if j = idx then get_lookahead k else KVMeta_look_ahead (get_kv_meta p (j - 1)))"
    by (simp_all add: meta m)
  have src: "j = idx \<and> get_kv_meta q j = m \<or>
      (\<exists>j' < ?n. j \<noteq> idx \<and> j' = (if j < idx then j else j - 1) \<and> get_kv_meta q j = get_kv_meta p j')" if "j \<le> ?n" for j
    using that idx by (cases j idx rule: linorder_cases) (auto simp: meta)
  show "kv_slot (?n + 1) \<le> KVMeta_offset (get_kv_meta q j) \<and> kv_end (get_kv_meta q j) \<le> length p" if "j \<le> ?n"
    using src[OF that] me mo e up fit by fastforce
  show "kv_end (get_kv_meta q i) \<le> KVMeta_offset (get_kv_meta q j) \<or> kv_end (get_kv_meta q j) \<le> KVMeta_offset (get_kv_meta q i)"
    if ij: "i \<le> ?n" "j \<le> ?n" "i \<noteq> j"
  proof (cases "i = idx \<or> j = idx")
    case True
    with src[OF ij(1)] src[OF ij(2)] ij(3) me mo show ?thesis by auto
  next
    case False
    then obtain i' j' where "i' < ?n" "j' < ?n" "i' = (if i < idx then i else i - 1)" "j' = (if j < idx then j else j - 1)"
      "get_kv_meta q i = get_kv_meta p i'" "get_kv_meta q j = get_kv_meta p j'"
      using src[OF ij(1)] src[OF ij(2)] by blast
    moreover from this have "i' \<noteq> j'" using ij(3) False by (auto split: if_splits)
    ultimately show ?thesis using leaf_wfD(6)[OF wf] by simp
  qed
qed


lemma put_new_wf:
  assumes wf: "leaf_wf p" and idx: "1 \<le> idx" "idx < record_count p"
    and less: "\<And>i. 1 \<le> i \<Longrightarrow> i < idx \<Longrightarrow> stored_key p i < k"
    and greater: "\<And>i. idx \<le> i \<Longrightarrow> i + 1 < record_count p \<Longrightarrow> k < stored_key p i"
    and room: "leaf_room p (length k + length v)" and put: "put_new p idx k v = (r, q)"
  shows "leaf_wf q" "user_records q = upsert k v (user_records p)"
proof -
  let ?n = "record_count p" and ?f = "\<lambda>p i. (stored_key p i, stored_val p i)"
  note R = put_new_records[OF wf idx room put]
  have n: "2 \<le> ?n" by (rule leaf_wfD(2)[OF wf])
  have split: "[1..<record_count q - 1] = [1..<idx] @ idx # map Suc [idx..<?n - 1]"
    using idx R(3) upt_split3[of 1 idx ?n] by (simp add: map_Suc_upt)
  have "map (?f q) [1..<idx] = map (?f p) [1..<idx]" "map (?f q) (map Suc [idx..<?n - 1]) = map (?f p) [idx..<?n - 1]"
    "?f q idx = (k, v)"
    using idx by (auto simp: R(5,6))
  then have rec: "user_records q = map (?f p) [1..<idx] @ (k, v) # map (?f p) [idx..<?n - 1]"
    by (simp only: user_records_def user_range_def split map_append list.map)
  have old: "user_records p = map (?f p) [1..<idx] @ map (?f p) [idx..<?n - 1]"
    using idx upt_add_eq_append[of 1 idx "?n - 1 - idx"]
    by (simp add: user_records_def user_range_def flip: map_append)
  show rec': "user_records q = upsert k v (user_records p)"
    unfolding rec old using less greater by (intro upsert_absent [symmetric]) auto
  have ks: "map (stored_key p') (user_range p') = map fst (user_records p')" for p'
    by (simp add: user_records_def comp_def)
  have "key_sorted (user_records p)" using leaf_wfD(11)[OF wf] by (simp only: ks)
  then have sorted: "sorted_wrt (<) (map (stored_key q) (user_range q))"
    unfolding ks rec' by (rule key_sorted_upsert)
  have user: "\<not> KVMeta_fence (get_kv_meta q i) \<and> KVMeta_look_ahead (get_kv_meta q i) = get_lookahead (stored_key q i)"
    if "1 \<le> i" "i < ?n" for i
    using that idx R(5,7,8)[of i] leaf_wfD(9,10)[OF wf, of i] leaf_wfD(9,10)[OF wf, of "i - 1"]
    by (cases i idx rule: linorder_cases) auto
  have "kv_slot (?n + 1) \<le> length q" using R(9)[of 0] R(2) by (simp add: kv_end_def)
  moreover have "KVMeta_fence (get_kv_meta q 0)" "KVMeta_fence (get_kv_meta q ?n)"
    using R(7)[of 0] R(7)[of ?n] idx leaf_wfD(7,8)[OF wf] by simp_all
  ultimately show "leaf_wf q"
    unfolding leaf_wf_def set_user_range set_upt using leaf_wfD(1)[OF wf] R(2,3,9,10) n user sorted by auto
qed

section \<open>Overwriting a value in place\<close>

lemma leaf_wf_cong:
  assumes "leaf_wf p" and "length q = length p" and "record_count q = record_count p"
    and meta: "\<And>i. i < record_count p \<Longrightarrow>
      KVMeta_offset (get_kv_meta q i) = KVMeta_offset (get_kv_meta p i) \<and>
      KVMeta_key_size (get_kv_meta q i) = KVMeta_key_size (get_kv_meta p i) \<and>
      KVMeta_val_size (get_kv_meta q i) = KVMeta_val_size (get_kv_meta p i) \<and>
      KVMeta_fence (get_kv_meta q i) = KVMeta_fence (get_kv_meta p i) \<and>
      KVMeta_look_ahead (get_kv_meta q i) = KVMeta_look_ahead (get_kv_meta p i)"
    and key: "\<And>i. i < record_count p \<Longrightarrow> stored_key q i = stored_key p i"
  shows "leaf_wf q"
proof -
  have "kv_end (get_kv_meta q i) = kv_end (get_kv_meta p i)" if "i < record_count p" for i
    using meta[OF that] by (simp add: kv_end_def kv_len_def)
  moreover have "user_range q = user_range p" using assms(3) by (simp add: user_range_def)
  moreover have "sorted_wrt (<) (map (stored_key q) (user_range p))"
  proof -
    have "map (stored_key q) (user_range p) = map (stored_key p) (user_range p)"
      using key by (auto simp: user_range_def)
    then show ?thesis using leaf_wfD(11)[OF assms(1)] by (simp only:)
  qed
  ultimately show ?thesis
    using assms(2,3) meta key leaf_wfD[OF assms(1)]
    unfolding leaf_wf_def set_user_range set_upt by simp
qed

lemma put_val_spec:
  assumes wf: "leaf_wf p" and m: "m < record_count p" and len: "KVMeta_val_size (get_kv_meta p m) = length v"
    and put: "put_val_from_meta p (get_kv_meta p m) v = (r, q)"
  shows "r = Inr ()" "length q = length p" "node_header q = node_header p" "record_count q = record_count p"
    "i < record_count p \<Longrightarrow> get_kv_meta q i = get_kv_meta p i"
    "i < record_count p \<Longrightarrow> stored_key q i = stored_key p i"
    "i < record_count p \<Longrightarrow> stored_val q i = (if i = m then v else stored_val p i)"
proof -
  let ?kv = "get_kv_meta p m" and ?n = "record_count p"
  define off where "off = KVMeta_offset ?kv + KVMeta_key_size ?kv"
  have q: "r = Inr ()" "q = write_at p off v" using put len by (auto simp: put_val_from_meta_def off_def)
  have fit: "kv_slot ?n \<le> KVMeta_offset ?kv" "off + length v \<le> length p" "KVMeta_offset ?kv \<le> off" "off + length v = kv_end ?kv"
    using leaf_wfD(4,5)[OF wf m] len by (auto simp: off_def kv_end_def kv_len_def)
  show "r = Inr ()" by (rule q)
  show "length q = length p" using fit by (simp add: q)
  show h: "node_header q = node_header p"
    using fit kv_slot_ge[of ?n] by (simp add: q node_header_write_at)
  show "record_count q = ?n" by (rule record_count_cong[OF h])
  have meta: "get_kv_meta q i = get_kv_meta p i" if "i < ?n" for i
    using that fit kv_slot_mono[of i ?n] by (simp add: q get_kv_meta_write_at)
  then show "i < ?n \<Longrightarrow> get_kv_meta q i = get_kv_meta p i" .
  have dis: "kv_end (get_kv_meta p i) \<le> KVMeta_offset ?kv \<or> kv_end ?kv \<le> KVMeta_offset (get_kv_meta p i)"
    "kv_end (get_kv_meta p i) \<le> length p" if "i < ?n" "i \<noteq> m" for i
    using leaf_wfD(6)[OF wf that(1) m that(2)] leaf_wfD(5)[OF wf that(1)] by auto
  have other: "read_at q j k = read_at p j k"
    if "i < ?n" "i \<noteq> m" "KVMeta_offset (get_kv_meta p i) \<le> j" "j + k \<le> kv_end (get_kv_meta p i)" for i j k
    using dis[OF that(1,2)] that(3,4) fit unfolding q by (intro read_write_disjoint) auto
  show "stored_key q i = stored_key p i" if "i < ?n"
  proof (cases "i = m")
    case True
    then show ?thesis
      using fit unfolding stored_key_def meta[OF that] get_stored_key_from_meta_def
      unfolding q
      by (simp add: off_def read_write_disjoint)
  next
    case False
    then show ?thesis
      by (simp add: stored_key_def meta[OF that] get_stored_key_from_meta_def other[OF that] kv_end_def kv_len_def)
  qed
  show "stored_val q i = (if i = m then v else stored_val p i)" if "i < ?n"
  proof (cases "i = m")
    case True
    then show ?thesis
      using fit len unfolding stored_val_def meta[OF that] get_val_from_meta_def
      unfolding q
      by (simp add: off_def read_write_same)
  next
    case False
    then show ?thesis
      by (simp add: stored_val_def meta[OF that] get_val_from_meta_def other[OF that] kv_end_def kv_len_def)
  qed
qed

lemma user_records_update:
  assumes "leaf_wf p" and "1 \<le> m" "m + 1 < record_count p" and "record_count q = record_count p"
    and "\<And>i. i < record_count p \<Longrightarrow> stored_key q i = stored_key p i"
    and "\<And>i. i < record_count p \<Longrightarrow> stored_val q i = (if i = m then v else stored_val p i)"
  shows "user_records q = upsert (stored_key p m) v (user_records p)"
proof -
  let ?f = "\<lambda>p i. (stored_key p i, stored_val p i)"
  have "map (?f q) [1..<m] = map (?f p) [1..<m]"
    "map (?f q) [Suc m..<record_count p - 1] = map (?f p) [Suc m..<record_count p - 1]"
    using assms(2-6) by auto
  then have "user_records q = map (?f p) [1..<m] @ (stored_key p m, v) # map (?f p) [Suc m..<record_count p - 1]"
    using user_records_split[of m q] assms(2-6) by simp
  also have "\<dots> = upsert (stored_key p m) v (user_records p)"
    unfolding user_records_split[OF assms(2,3)]
    using leaf_wf_keys_less[OF assms(1)] assms(2,3) by (intro upsert_present [symmetric]) auto
  finally show ?thesis .
qed

section \<open>Lookup\<close>

lemma map_of_user_records:
  assumes "leaf_wf p"
  shows "1 \<le> m \<Longrightarrow> m + 1 < record_count p \<Longrightarrow> map_of (user_records p) (stored_key p m) = Some (stored_val p m)"
    and "(\<And>i. 1 \<le> i \<Longrightarrow> i + 1 < record_count p \<Longrightarrow> stored_key p i \<noteq> k) \<Longrightarrow> map_of (user_records p) k = None"
proof -
  have d: "distinct (map fst (user_records p))"
    using leaf_wfD(11)[OF assms] by (simp add: user_records_def comp_def strict_sorted_iff)
  show "map_of (user_records p) (stored_key p m) = Some (stored_val p m)" if "1 \<le> m" "m + 1 < record_count p"
    using that by (intro map_of_is_SomeI[OF d]) (auto simp: user_records_def set_user_range)
  show "map_of (user_records p) k = None"
    if "\<And>i. 1 \<le> i \<Longrightarrow> i + 1 < record_count p \<Longrightarrow> stored_key p i \<noteq> k"
    using that by (fastforce simp: map_of_eq_None_iff user_records_def set_user_range)
qed

lemma leaf_search_map:
  assumes "leaf_wf p"
  shows "leaf_binary_search p k = Inr m \<Longrightarrow> map_of (user_records p) k = Some (stored_val p m)"
    and "leaf_binary_search p k = Inl l \<Longrightarrow> map_of (user_records p) k = None"
proof -
  show "map_of (user_records p) k = Some (stored_val p m)" if "leaf_binary_search p k = Inr m"
    using assms(1)
  proof (cases rule: leaf_binary_search_cases[where k = k])
    case (found m)
    with that map_of_user_records(1)[OF assms(1), of m] show ?thesis by simp
  qed (use that in simp)
  show "map_of (user_records p) k = None" if "leaf_binary_search p k = Inl l"
    using assms(1)
  proof (cases rule: leaf_binary_search_cases[where k = k])
    case (absent l)
    have "stored_key p i \<noteq> k" if "1 \<le> i" "i + 1 < record_count p" for i
      using absent(4)[of i] absent(5)[of i] that by (cases "i < l") auto
    then show ?thesis by (rule map_of_user_records(2)[OF assms(1)])
  qed (use that in simp)
qed

section \<open>Putting a key\<close>

definition node_prefix :: "bytes \<Rightarrow> bytes" where
  "node_prefix p =
    (let lo = stored_key p 0; hi = stored_key p (record_count p - 1) in take (common_prefix_len lo hi) lo)"

definition full_records :: "bytes \<Rightarrow> (bytes \<times> bytes) list" where
  "full_records p = map (\<lambda>(k, v). (node_prefix p @ k, v)) (user_records p)"

text \<open>
  The puts the page can take: an overwrite by a value of the same length, or a fresh key for
  which there is room.
\<close>

definition suffix_fits :: "bytes \<Rightarrow> bytes \<Rightarrow> bytes \<Rightarrow> bool" where
  "suffix_fits p k v \<longleftrightarrow>
    (case map_of (user_records p) k of
       Some w \<Rightarrow> length w = length v
     | None \<Rightarrow> leaf_room p (length k + length v))"

definition put_fits :: "bytes \<Rightarrow> bytes \<Rightarrow> bytes \<Rightarrow> bool" where
  "put_fits p key v \<longleftrightarrow> suffix_fits p (drop (length (node_prefix p)) key) v"

lemma fence_in_page:
  assumes "leaf_wf p"
  shows "key_in_page p (get_kv_meta p 0)" "key_in_page p (get_kv_meta p (record_count p - 1))"
  using leaf_wfD(2)[OF assms] leaf_wfD(5)[OF assms, of 0] leaf_wfD(5)[OF assms, of "record_count p - 1"]
  by (auto simp: key_in_page_def kv_end_def kv_len_def)

lemma get_node_prefix_eq: "leaf_wf p \<Longrightarrow> get_node_prefix p = Inr (node_prefix p)"
  using leaf_wfD(2)[of p] fence_in_page[of p] by (auto simp: get_node_prefix_def node_prefix_def stored_key_def Let_def)

lemma fence_bounds_eq:
  "leaf_wf p \<Longrightarrow> fence_bounds p = Inr (stored_key p 0, stored_key p (record_count p - 1))"
  using leaf_wfD(2)[of p] fence_in_page[of p] by (auto simp: fence_bounds_def stored_key_def Let_def)

lemma length_stored_val:
  "leaf_wf p \<Longrightarrow> i < record_count p \<Longrightarrow> length (stored_val p i) = KVMeta_val_size (get_kv_meta p i)"
  using leaf_wfD(5)[of p i] by (auto simp: stored_val_def get_val_from_meta_def kv_end_def kv_len_def)

lemma try_put_with_suffix_spec:
  assumes wf: "leaf_wf p" and fits: "suffix_fits p k v" and put: "try_put_with_suffix p k v = (r, q)"
  shows "r = Inr ()" "leaf_wf q" "user_records q = upsert k v (user_records p)"
    "fence_bounds q = fence_bounds p" "node_prefix q = node_prefix p" "length q = length p"
    "page_ident q = page_ident p"
proof -
  let ?n = "record_count p"
  have n: "0 < ?n" "2 \<le> ?n" "?n - 1 < ?n" using leaf_wfD(2)[OF wf] by auto
  have "r = Inr () \<and> leaf_wf q \<and> user_records q = upsert k v (user_records p) \<and> length q = length p \<and>
    page_ident q = page_ident p \<and>
    stored_key q 0 = stored_key p 0 \<and> stored_key q (record_count q - 1) = stored_key p (?n - 1)"
    using wf
  proof (cases rule: leaf_binary_search_cases[where k = k])
    case (found m)
    have m: "m < ?n" "KVMeta_val_size (get_kv_meta p m) = length v"
      using found(3) fits leaf_search_map(1)[OF wf found(1)] length_stored_val[OF wf, of m]
      by (auto simp: suffix_fits_def)
    have "put_val_from_meta p (get_kv_meta p m) v = (r, q)"
      using put found(1) m(2) by (simp add: try_put_with_suffix_def put_existing_def)
    note P = put_val_spec[OF wf m this]
    have "leaf_wf q" by (rule leaf_wf_cong[OF wf P(2,4)]) (simp_all add: P(5,6))
    moreover have "user_records q = upsert k v (user_records p)"
      using user_records_update[OF wf found(2,3) P(4,6,7)] found(4) by simp
    ultimately show ?thesis using P(1,2) P(6)[OF n(1)] P(6)[OF n(3)] page_ident_cong[OF P(3)] by (simp add: P(4))
  next
    case (absent l)
    have room: "leaf_room p (length k + length v)"
      using fits leaf_search_map(2)[OF wf absent(1)] by (simp add: suffix_fits_def)
    have put': "put_new p l k v = (r, q)"
      using put absent(1) by (simp add: try_put_with_suffix_def)
    note R = put_new_records[OF wf absent(2,3) room put']
    have "stored_key q 0 = stored_key p 0" "stored_key q (record_count q - 1) = stored_key p (?n - 1)"
      using R(5)[of 0] R(5)[of ?n] absent(2,3) by (simp_all add: R(3))
    with put_new_wf[OF wf absent(2-5) room put'] R(1,2,4) show ?thesis by blast
  qed
  then show "r = Inr ()" "leaf_wf q" "user_records q = upsert k v (user_records p)"
    "fence_bounds q = fence_bounds p" "node_prefix q = node_prefix p" "length q = length p"
    "page_ident q = page_ident p"
    by (simp_all add: fence_bounds_eq wf node_prefix_def Let_def)
qed

lemma try_put_spec:
  assumes wf: "leaf_wf p" and key: "prefix (node_prefix p) key" and fits: "put_fits p key v"
    and put: "try_put p key v = (r, q)"
  shows "r = Inr ()" "leaf_wf q" "full_records q = upsert key v (full_records p)"
    "fence_bounds q = fence_bounds p" "node_prefix q = node_prefix p" "length q = length p"
    "page_ident q = page_ident p"
proof -
  obtain k where k: "key = node_prefix p @ k" using key by (auto simp: prefix_def)
  have "\<not> record_count p < 2" using leaf_wfD(2)[OF wf] by simp
  then have "try_put_with_suffix p k v = (r, q)"
    using put by (simp add: try_put_def get_node_prefix_eq[OF wf] k)
  moreover have "suffix_fits p k v" using fits by (simp add: put_fits_def k)
  ultimately have S: "suffix_fits p k v" "try_put_with_suffix p k v = (r, q)" by blast+
  note S = try_put_with_suffix_spec[OF wf S]
  show "r = Inr ()" "leaf_wf q" "fence_bounds q = fence_bounds p" "node_prefix q = node_prefix p"
    "length q = length p" "page_ident q = page_ident p"
    by (rule S)+
  show "full_records q = upsert key v (full_records p)"
    by (simp add: full_records_def S(3,5) upsert_map_prefix k)
qed

lemma node_get_spec:
  assumes wf: "leaf_wf p" and key: "prefix (node_prefix p) key"
  shows "node_get p key = Inr (map_of (full_records p) key)"
proof -
  obtain k where k: "key = node_prefix p @ k" using key by (auto simp: prefix_def)
  have "node_get p key = Inr (map_of (user_records p) k)"
  proof (cases "leaf_binary_search p k")
    case (Inl l)
    then show ?thesis
      by (simp add: node_get_def get_node_prefix_eq[OF wf] k leaf_search_map(2)[OF wf])
  next
    case (Inr m)
    have "KVRecordType_exists t" for t by (cases t) (simp_all add: KVRecordType_exists_def)
    with Inr show ?thesis
      by (simp add: node_get_def get_node_prefix_eq[OF wf] k leaf_search_map(1)[OF wf] stored_val_def)
  qed
  then show ?thesis by (simp add: full_records_def k map_of_prefix)
qed

section \<open>The contract of a keyed page\<close>

fun run_puts :: "('s \<Rightarrow> 'k \<Rightarrow> 'v \<Rightarrow> unit result \<times> 's) \<Rightarrow> 's \<Rightarrow> ('k \<times> 'v) list \<Rightarrow> unit result \<times> 's" where
  "run_puts put s [] = (Inr (), s)"
| "run_puts put s ((k, v) # kvs) =
    (case put s k v of (Inl e, s) \<Rightarrow> (Inl e, s) | (Inr _, s) \<Rightarrow> run_puts put s kvs)"

fun all_admitted :: "('s \<Rightarrow> 'k \<Rightarrow> 'v \<Rightarrow> bool) \<Rightarrow> ('s \<Rightarrow> 'k \<Rightarrow> 'v \<Rightarrow> unit result \<times> 's) \<Rightarrow> 's \<Rightarrow> ('k \<times> 'v) list \<Rightarrow> bool" where
  "all_admitted ok put s [] = True"
| "all_admitted ok put s ((k, v) # kvs) = (ok s k v \<and> all_admitted ok put (snd (put s k v)) kvs)"

text \<open>
  What the callers of a leaf page rely on: a page stands for a sorted association list, a
  lookup of a key it covers answers from that list, and an admitted put inserts or replaces.
\<close>

locale keyed_page =
  fixes wf :: "'s \<Rightarrow> bool" and recs :: "'s \<Rightarrow> ('k::linorder \<times> 'v) list"
    and covers :: "'s \<Rightarrow> 'k \<Rightarrow> bool" and admits :: "'s \<Rightarrow> 'k \<Rightarrow> 'v \<Rightarrow> bool"
    and get :: "'s \<Rightarrow> 'k \<Rightarrow> 'v option result" and put :: "'s \<Rightarrow> 'k \<Rightarrow> 'v \<Rightarrow> unit result \<times> 's"
  assumes get_recs: "wf s \<Longrightarrow> covers s k \<Longrightarrow> get s k = Inr (map_of (recs s) k)"
    and put_recs: "wf s \<Longrightarrow> covers s k \<Longrightarrow> admits s k v \<Longrightarrow>
      \<exists>s'. put s k v = (Inr (), s') \<and> wf s' \<and> recs s' = upsert k v (recs s) \<and> (\<forall>x. covers s' x = covers s x)"
begin

lemma get_after_put:
  assumes "wf s" "covers s k" "admits s k v" "put s k v = (r, s')" "covers s k'"
  shows "get s' k' = (if k' = k then Inr (Some v) else get s k')"
proof -
  have "wf s'" "recs s' = upsert k v (recs s)" "covers s' k'"
    using put_recs[OF assms(1-3)] assms(4,5) by auto
  then show ?thesis using assms(1,5) by (simp add: get_recs map_of_upsert)
qed

lemma run_recs:
  "wf s \<Longrightarrow> all_admitted (\<lambda>s k v. covers s k \<and> admits s k v) put s kvs \<Longrightarrow> \<exists>s'. run_puts put s kvs = (Inr (), s') \<and> wf s' \<and>
    recs s' = fold (\<lambda>(k, v). upsert k v) kvs (recs s) \<and> (\<forall>x. covers s' x = covers s x)"
proof (induction kvs arbitrary: s)
  case (Cons kv kvs)
  obtain k v where kv: "kv = (k, v)" by (cases kv)
  with Cons.prems obtain s' where s': "put s k v = (Inr (), s')" "wf s'"
    "recs s' = upsert k v (recs s)" "\<forall>x. covers s' x = covers s x"
    using put_recs[of s k v] by auto
  with Cons.prems kv have "all_admitted (\<lambda>s k v. covers s k \<and> admits s k v) put s' kvs" by simp
  from Cons.IH[OF s'(2) this] s' kv show ?case by auto
qed simp

end

interpretation leaf_page: keyed_page leaf_wf full_records "\<lambda>p. prefix (node_prefix p)" put_fits node_get try_put
proof unfold_locales
  show "node_get p key = Inr (map_of (full_records p) key)" if "leaf_wf p" "prefix (node_prefix p) key" for p key
    using that by (rule node_get_spec)
  show "\<exists>q. try_put p key v = (Inr (), q) \<and> leaf_wf q \<and> full_records q = upsert key v (full_records p) \<and>
      (\<forall>x. prefix (node_prefix q) x = prefix (node_prefix p) x)"
    if "leaf_wf p" "prefix (node_prefix p) key" "put_fits p key v" for p key v
    using try_put_spec[OF that] by (cases "try_put p key v") simp
qed

lemma replay_entries_run: "replay_entries p es = run_puts try_put p es"
  by (induction p es rule: replay_entries.induct) (auto split: prod.split sum.split)

section \<open>Errors of a put\<close>

lemma put_existing_resize:
  assumes "KVMeta_val_size (get_kv_meta p idx) \<noteq> length v"
  shows "fst (put_existing p idx k v) \<noteq> Inr ()"
  using assms
  by (auto simp: put_existing_def Let_def KVMeta_set_val_size_def split: prod.split sum.split)

section \<open>Tombstones\<close>

lemma mark_entry_tombstone_spec:
  assumes wf: "leaf_wf p" and m: "m < record_count p" and mk: "mark_entry_tombstone p m = (b, q)"
  shows "leaf_wf q" "user_records q = user_records p" "node_prefix q = node_prefix p"
proof -
  have "leaf_wf q \<and> (\<forall>i < record_count p. stored_key q i = stored_key p i \<and> stored_val q i = stored_val p i) \<and>
      record_count q = record_count p"
  proof (cases b)
    case False
    with mk have "q = p" by (auto simp: mark_entry_tombstone_def Let_def split: if_splits)
    with wf show ?thesis by simp
  next
    case True
    define kv where "kv = KVMeta_set_record_type (get_kv_meta p m) KVTombstone"
    have q: "q = set_kv_meta p m kv"
      using mk True by (auto simp: mark_entry_tombstone_def Let_def kv_def split: if_splits)
    have s: "kv_slot i + 8 \<le> kv_slot (record_count p)" "kv_slot i + 8 \<le> length p" if "i < record_count p" for i
      using kv_slot_mono[OF that] leaf_wfD(3)[OF wf] by simp_all
    have meta: "get_kv_meta q i = (if i = m then kv else get_kv_meta p i)" if "i < record_count p" for i
      using s[OF that] s[OF m] by (simp add: q get_set_kv_meta_other)
    have hdr: "node_header q = node_header p" "length q = length p" using s[OF m] by (simp_all add: q)
    note rc = record_count_cong[OF hdr(1)]
    have rd: "read_at q j n = read_at p j n" if "kv_slot (record_count p) \<le> j" "j + n \<le> length p" for j n
      using that s[OF m] unfolding q by (intro read_at_set_kv_meta) auto
    have same: "stored_key q i = stored_key p i" "stored_val q i = stored_val p i" if i: "i < record_count p" for i
      using leaf_wfD(4,5)[OF wf i]
      by (auto simp: stored_key_def stored_val_def meta[OF i] kv_def get_stored_key_from_meta_def
          get_val_from_meta_def rd kv_end_def kv_len_def)
    have "leaf_wf q"
      by (rule leaf_wf_cong[OF wf hdr(2) rc]) (simp_all add: meta kv_def same)
    with same rc show ?thesis by simp
  qed
  moreover from leaf_wfD(2)[OF wf] have "0 < record_count p" "record_count p - 1 < record_count p" by auto
  ultimately show "leaf_wf q" "user_records q = user_records p" "node_prefix q = node_prefix p"
    by (auto simp: user_records_def user_range_def node_prefix_def Let_def)
qed

lemma mark_tombstone_spec:
  assumes wf: "leaf_wf p" and mk: "mark_tombstone p key = (r, q)"
  shows "leaf_wf q" "full_records q = full_records p" "node_prefix q = node_prefix p"
proof -
  have "leaf_wf q \<and> user_records q = user_records p \<and> node_prefix q = node_prefix p"
  proof (cases "prefix (node_prefix p) key")
    case False
    with mk wf show ?thesis by (auto simp: mark_tombstone_def get_node_prefix_eq)
  next
    case True
    from wf show ?thesis
    proof (cases rule: leaf_binary_search_cases[where k = "drop (length (node_prefix p)) key"])
      case (found m)
      obtain b p' where me: "mark_entry_tombstone p m = (b, p')" by fastforce
      with mk True found wf have "q = p'" by (simp add: mark_tombstone_def get_node_prefix_eq)
      with mark_entry_tombstone_spec[OF wf _ me] found(3) show ?thesis by simp
    next
      case (absent l)
      with mk True wf show ?thesis by (auto simp: mark_tombstone_def get_node_prefix_eq)
    qed
  qed
  then show "leaf_wf q" "full_records q = full_records p" "node_prefix q = node_prefix p"
    by (auto simp: full_records_def)
qed

section \<open>Properties\<close>

text \<open>A freshly formatted 64-byte page, as bytes.\<close>

definition small_page :: bytes where
  "small_page =
    [2, 4, 3, 0, 0, 0, 0, 0, 48, 0, 7, 0, 0, 0, 0, 0,
     0, 0, 231, 3, 0, 0, 4, 0, 0, 0, 247, 3, 0, 0, 4, 0,
     0, 0, 0, 0, 0, 0, 0, 0, 0, 0, 0, 0, 0, 0, 0, 0,
     0, 0, 0, 0, 0, 0, 0, 0, 0, 0, 0, 0, 0, 0, 0, 255]"

lemma small_page_format: "format_leaf (replicate 64 0) 7 N64 3 = (Inr (), small_page)"
  by code_simp

lemma small_page_facts:
  "leaf_wf small_page" "user_records small_page = []" "full_records small_page = []" "node_prefix small_page = []"
proof -
  note f = format_leaf_wf[OF _ small_page_format]
  show wf: "leaf_wf small_page" using f by simp
  show "user_records small_page = []" using f by simp
  then show "full_records small_page = []" by (simp add: full_records_def)
  have "fence_bounds small_page = Inr ([0x00], [0xFF])" using f by simp
  then show "node_prefix small_page = []"
    by (simp add: fence_bounds_eq[OF wf] node_prefix_def)
qed

lemma small_page_room: "leaf_room small_page 3"
  by code_simp

lemma small_page_fits: "put_fits small_page [5] [1, 2]"
  using small_page_room by (simp add: put_fits_def suffix_fits_def small_page_facts numeral_3_eq_3)

lemmas small_page_put = small_page_facts small_page_fits

text \<open>Formatting a page of the right length succeeds on every page id, size and disk
  address.  The result is a well-formed leaf without user records whose fences are the keys
  \<open>[0x00]\<close> and \<open>[0xFF]\<close>, and whose header carries the 48-bit identity and the size.\<close>

theorem format_leaf_fresh:
  assumes "length p = NodeSize_size_in_bytes sz"
  shows "\<exists>q. format_leaf p page_id sz disk_addr = (Inr (), q) \<and> leaf_wf q \<and> user_records q = [] \<and>
    fence_bounds q = Inr ([0x00], [0xFF]) \<and> length q = length p \<and>
    NodeMeta_page_id (node_header q) = take_bit 48 page_id \<and>
    NodeMeta_leaf (node_header q) = take_bit 48 disk_addr \<and> NodeMeta_size (node_header q) = Some sz"
  using format_leaf_wf[OF assms] by (cases "format_leaf p page_id sz disk_addr") simp

theorem format_leaf_fresh_witness:
  "\<exists>q. format_leaf (replicate 4096 0) 1 LeafPage 2 = (Inr (), q) \<and> leaf_wf q \<and> length q = 4096"
  using format_leaf_fresh[of "replicate 4096 0" LeafPage 1 2] by auto

text \<open>C5: The binary search of a well-formed leaf finds a key that is stored and otherwise
  returns its insertion point: every user record before the point is smaller and every one
  from it on is greater, although the loop compares two-byte look-aheads first.\<close>

theorem leaf_search_correct:
  assumes "leaf_wf p"
  shows "case leaf_binary_search p k of
      Inr m \<Rightarrow> 1 \<le> m \<and> m + 1 < record_count p \<and> stored_key p m = k
    | Inl l \<Rightarrow> 1 \<le> l \<and> l < record_count p \<and>
        (\<forall>i. 1 \<le> i \<and> i < l \<longrightarrow> stored_key p i < k) \<and>
        (\<forall>i. l \<le> i \<and> i + 1 < record_count p \<longrightarrow> k < stored_key p i)"
  using assms by (cases rule: leaf_binary_search_cases[where k = k]) simp_all

theorem leaf_search_correct_witness:
  "leaf_wf small_page \<and> (case leaf_binary_search small_page [5] of
      Inr m \<Rightarrow> stored_key small_page m = [5] | Inl l \<Rightarrow> 1 \<le> l \<and> l < record_count small_page)"
  using leaf_search_correct[OF small_page_facts(1), of "[5]"] small_page_facts(1)
  by (auto split: sum.splits)

text \<open>C4: A put refines insertion into a sorted association list.  On a well-formed leaf
  whose prefix covers the key, and where the value has the old length or there is room for a
  fresh record, \<open>try_put\<close> succeeds, keeps the invariant, the fences, the prefix and the page
  length, and the records become those with the key inserted or replaced.\<close>

theorem try_put_refines_upsert:
  assumes "leaf_wf p" and "prefix (node_prefix p) key" and "put_fits p key v"
  shows "\<exists>q. try_put p key v = (Inr (), q) \<and> leaf_wf q \<and> full_records q = upsert key v (full_records p) \<and>
    fence_bounds q = fence_bounds p \<and> node_prefix q = node_prefix p \<and> length q = length p"
  using try_put_spec[OF assms] by (cases "try_put p key v") simp

theorem try_put_refines_upsert_witness:
  "\<exists>q. try_put small_page [5] [1, 2] = (Inr (), q) \<and> leaf_wf q \<and> full_records q = [([5], [1, 2])]"
  using try_put_refines_upsert[of small_page "[5]" "[1, 2]"] by (auto simp: small_page_put)

text \<open>A lookup after a put returns the new value for the key and what it returned before
  for every other key that the leaf covers.\<close>

theorem node_get_after_try_put:
  assumes "leaf_wf p" and "prefix (node_prefix p) key" and "put_fits p key v"
    and "prefix (node_prefix p) key'"
  shows "\<exists>q. try_put p key v = (Inr (), q) \<and>
    node_get q key' = (if key' = key then Inr (Some v) else node_get p key')"
  using leaf_page.get_after_put[OF assms(1-3) _ assms(4)] try_put_spec(1)[OF assms(1-3)]
  by (cases "try_put p key v") auto

theorem node_get_after_try_put_witness:
  "\<exists>q. try_put small_page [5] [1, 2] = (Inr (), q) \<and> node_get q [5] = Inr (Some [1, 2])"
  using node_get_after_try_put[of small_page "[5]" "[1, 2]" "[5]"] by (simp add: small_page_put)

text \<open>Replaying a list of entries into a leaf that admits each of them in turn succeeds
  and leaves the records that inserting the entries one after the other gives; a lookup then
  sees the last entry of its key.\<close>

theorem replay_entries_fold:
  assumes "leaf_wf p"
    and "all_admitted (\<lambda>p k v. prefix (node_prefix p) k \<and> put_fits p k v) try_put p es"
  shows "\<exists>q. replay_entries p es = (Inr (), q) \<and> leaf_wf q \<and>
    full_records q = fold (\<lambda>(k, v). upsert k v) es (full_records p)"
  using leaf_page.run_recs[OF assms] by (auto simp: replay_entries_run)

theorem replay_entries_fold_witness:
  "\<exists>q. replay_entries small_page [([5], [1, 2])] = (Inr (), q) \<and> leaf_wf q \<and>
    full_records q = [([5], [1, 2])]"
  using replay_entries_fold[of small_page "[([5], [1, 2])]"] by (simp add: small_page_put)

text \<open>A put that does not fit reports the shortage without touching the page: for a key
  that is not on the page, when the record would reach below the space the code keeps for the
  metadata, the result is \<open>InsufficientSpace\<close> and the page is unchanged.\<close>

theorem put_without_space:
  assumes "leaf_wf p" and "map_of (user_records p) k = None" and "find_min_offset p = Inr mo"
    and "mo < (record_count p + 2) * 8 + length k + length v"
  shows "try_put_with_suffix p k v = (Inl InsufficientSpace, p)"
  using assms leaf_search_map(1)[OF assms(1), of k]
  by (cases "leaf_binary_search p k") (auto simp: try_put_with_suffix_def put_new_def Let_def)

theorem put_without_space_witness:
  "try_put_with_suffix small_page [5] (replicate 40 1) = (Inl InsufficientSpace, small_page)"
proof -
  have "find_min_offset small_page = Inr 62" "record_count small_page = 2" by code_simp+
  then show ?thesis
    using put_without_space[of small_page "[5]" 62 "replicate 40 1"] by (simp add: small_page_facts)
qed

text \<open>Replacing a value by one of another length never succeeds: the branch ends in the
  unimplemented \<open>set_val_size\<close>, in a shortage of space, or in an arithmetic overflow.\<close>

theorem put_resize_never_succeeds:
  assumes "leaf_wf p" and "map_of (user_records p) k = Some w" and "length w \<noteq> length v"
  shows "fst (try_put_with_suffix p k v) \<noteq> Inr ()"
  using assms(1)
proof (cases rule: leaf_binary_search_cases[where k = k])
  case (found m)
  then have "KVMeta_val_size (get_kv_meta p m) \<noteq> length v"
    using assms leaf_search_map(1)[OF assms(1) found(1)] length_stored_val[OF assms(1), of m] by simp
  with found(1) show ?thesis by (simp add: try_put_with_suffix_def put_existing_resize)
next
  case (absent l)
  with assms(2) leaf_search_map(2)[OF assms(1) absent(1)] show ?thesis by simp
qed

theorem put_resize_never_succeeds_witness:
  "\<exists>q. try_put small_page [5] [1, 2] = (Inr (), q) \<and> fst (try_put_with_suffix q [5] [1]) \<noteq> Inr ()"
proof -
  obtain q where q: "try_put small_page [5] [1, 2] = (Inr (), q)" by (cases "try_put small_page [5] [1, 2]")
      (use try_put_spec(1)[of small_page "[5]" "[1, 2]"] in \<open>auto simp: small_page_put\<close>)
  have "leaf_wf q" "full_records q = [([5], [1, 2])]" "node_prefix q = []"
    using try_put_spec[OF _ _ _ q] by (simp_all add: small_page_put)
  then have "leaf_wf q" "map_of (user_records q) [5] = Some [1, 2]"
    by (auto simp: full_records_def)
  from put_resize_never_succeeds[OF this, of "[1]"] q show ?thesis by simp
qed

text \<open>C35: A lookup does not see a deletion: after \<open>mark_tombstone\<close> every covered key, the
  deleted one included, is answered as before, because a tombstone is reported to exist.\<close>

theorem get_ignores_tombstone:
  assumes "leaf_wf p" and "prefix (node_prefix p) key'" and "mark_tombstone p key = (r, q)"
  shows "leaf_wf q \<and> node_get q key' = node_get p key'"
  using mark_tombstone_spec[OF assms(1,3)] assms(1,2) by (simp add: node_get_spec)

theorem get_ignores_tombstone_witness:
  "\<exists>q. try_put small_page [5] [1, 2] = (Inr (), q) \<and>
    node_get (snd (mark_tombstone q [5])) [5] = Inr (Some [1, 2])"
proof -
  obtain q where q: "try_put small_page [5] [1, 2] = (Inr (), q)" by (cases "try_put small_page [5] [1, 2]")
      (use try_put_spec(1)[of small_page "[5]" "[1, 2]"] in \<open>auto simp: small_page_put\<close>)
  have q': "leaf_wf q" "full_records q = [([5], [1, 2])]" "node_prefix q = []"
    using try_put_spec[OF _ _ _ q] by (simp_all add: small_page_put)
  with get_ignores_tombstone[OF q'(1), of "[5]" "[5]"] q show ?thesis
    by (cases "mark_tombstone q [5]") (simp add: node_get_spec)
qed

text \<open>\<open>user_entry_count\<close> counts every record of the page, the two fences and the
  tombstones included.\<close>

theorem user_entry_count_counts_all: "user_entry_count p = record_count p"
proof -
  have "KVRecordType_exists t" for t by (cases t) (simp_all add: KVRecordType_exists_def)
  then show ?thesis by (simp add: user_entry_count_def entries_def)
qed


text \<open>C34: The space check of a put is eight bytes short, since it counts the 16-byte header
  as one metadata word: a put on a well-formed page can return success and overwrite the
  metadata word of the upper fence, which it has just moved.  The new word names bytes
  outside the page, so that every later lookup on it begins with a read that is undefined.\<close>

theorem put_overwrites_upper_fence:
  "\<exists>p key v q. leaf_wf p \<and> fence_bounds p = Inr ([0x00], [0xFF]) \<and>
    try_put p key v = (Inr (), q) \<and> length q = length p \<and> record_count q = record_count p + 1 \<and>
    get_kv_meta q (record_count q - 1) \<noteq> get_kv_meta p (record_count p - 1) \<and>
    length q < KVMeta_offset (get_kv_meta q (record_count q - 1)) \<and>
    (\<forall>k. node_get q k = Inl UndefinedBehaviour)"
proof -
  let ?q = "snd (try_put small_page [5] (replicate 27 1))"
  have "fst (try_put small_page [5] (replicate 27 1)) = Inr ()" by code_simp
  then have put: "try_put small_page [5] (replicate 27 1) = (Inr (), ?q)" by (metis prod.collapse)
  have len: "length ?q = length small_page" "record_count ?q = record_count small_page + 1"
    by code_simp+
  have word: "get_kv_meta ?q (record_count ?q - 1) \<noteq> get_kv_meta small_page (record_count small_page - 1)"
    "length ?q < KVMeta_offset (get_kv_meta ?q (record_count ?q - 1))"
    by code_simp+
  have "get_node_prefix ?q = Inl UndefinedBehaviour"
    using len(2) word(2) by (simp add: get_node_prefix_def key_in_page_def Let_def)
  then have "\<forall>k. node_get ?q k = Inl UndefinedBehaviour" by (simp add: node_get_def)
  moreover have "leaf_wf small_page" "fence_bounds small_page = Inr ([0], [255])"
    using format_leaf_wf(2,4)[OF _ small_page_format] by simp_all
  ultimately show ?thesis using put len word by blast
qed

text \<open>A 64-byte leaf with the user records 1, 2 and 3, the second with a one-byte value.\<close>

definition three_records :: bytes where
  "three_records =
    [5, 4, 3, 0, 0, 0, 0, 0, 48, 0, 7, 0, 0, 0, 0, 0,
     0, 0, 231, 3, 0, 0, 4, 0, 0, 1, 221, 3, 0, 0, 4, 0,
     0, 2, 189, 3, 16, 0, 4, 0, 0, 3, 173, 3, 0, 0, 4, 0,
     0, 0, 247, 3, 0, 0, 4, 0, 0, 0, 3, 2, 22, 1, 0, 255]"

lemma three_records_metas:
  "record_count three_records = 5"
  "map (\<lambda>i. (KVMeta_offset (get_kv_meta three_records i), kv_len (get_kv_meta three_records i))) [0..<5] =
    [(62, 1), (61, 1), (59, 2), (58, 1), (63, 1)]"
  "map (\<lambda>i. KVMeta_fence (get_kv_meta three_records i)) [0..<5] = [True, False, False, False, True]"
  "map (\<lambda>i. KVMeta_look_ahead (get_kv_meta three_records i)) [1..<4] = map get_lookahead [[1], [2], [3]]"
  "map (stored_key three_records) [1..<4] = [[1], [2], [3]]"
  by code_simp+

lemma three_records_wf: "leaf_wf three_records"
proof -
  have "[0..<5] = [0, 1, 2, 3, 4::nat]" "[1..<4] = [1, 2, 3::nat]" by code_simp+
  with three_records_metas show ?thesis
    by (simp add: leaf_wf_def user_range_def kv_slot_def size_of_NodeMeta_def kv_end_def)
      (simp add: three_records_def)
qed

text \<open>C33: Removing a record can damage another one: when records lie below the removed one,
  \<open>erase_kv_in_buffer\<close> moves as many bytes as the removed record has instead of the bytes
  below it.  Here the removal of key 2 rewrites the key of record 1.\<close>

theorem remove_corrupts_neighbour:
  "\<exists>p q. leaf_wf p \<and> full_records p = [([1], []), ([2], [22]), ([3], [])] \<and>
    remove_key_physical p [2] = (Inr True, q) \<and> full_records q = [([2], []), ([3], [])]"
proof -
  have "full_records three_records = [([1], []), ([2], [22]), ([3], [])]" by code_simp
  moreover have "map_prod id full_records (remove_key_physical three_records [2]) =
      (Inr True, [([2], []), ([3], [])])"
    by code_simp
  ultimately show ?thesis
    using three_records_wf by (cases "remove_key_physical three_records [2]") auto
qed

end
