(* ===== verification/Wal.thy ===== *)
theory Wal
  imports Prelude "HOL-Library.AList"
begin

text \<open>
  wal.rs: the write-ahead log.  The log file is a byte list with a cursor, as \<open>std::fs::File\<close>
  offers it; file operations succeed, and a crash is a file that lost the tail of its last
  write.  \<open>WalManager\<close> holds its state behind a mutex, so each method is one state transition.

  The reader walks the bytes with an index; here it carries the bytes that remain, so the
  index is the length of what is gone.  The hash maps of per-page statistics are association
  lists without duplicate keys; counters are natural numbers, so the saturating and checked
  additions of the code, which no log reaches, are plain additions.
\<close>

section \<open>Records\<close>

definition RECORD_TYPE_PUT :: u8 where "RECORD_TYPE_PUT = 0"
definition RECORD_TYPE_TOMBSTONE :: u8 where "RECORD_TYPE_TOMBSTONE = 1"
definition RECORD_TYPE_TXN_BEGIN :: u8 where "RECORD_TYPE_TXN_BEGIN = 2"
definition RECORD_TYPE_TXN_COMMIT :: u8 where "RECORD_TYPE_TXN_COMMIT = 3"
definition RECORD_TYPE_TXN_ABORT :: u8 where "RECORD_TYPE_TXN_ABORT = 4"
definition TXN_META_PAGE_ID :: u64 where "TXN_META_PAGE_ID = -1"
definition GROUP_MARKER :: u8 where "GROUP_MARKER = 0xAA"
definition GROUP_HEADER_LEN :: nat where "GROUP_HEADER_LEN = 1 + 8 + 4"
definition MANIFEST_MAGIC :: bytes where "MANIFEST_MAGIC = [0x57, 0x41, 0x4C, 0x4D]"
definition MANIFEST_VERSION :: u32 where "MANIFEST_VERSION = 1"
definition MANIFEST_LEN :: nat where "MANIFEST_LEN = 32"

datatype WalEntryKind = Redo | Undo

datatype WalTxnMarker = TxnBegin | TxnCommit | TxnAbort

datatype WalOp = Put bytes | Tombstone | TxnMarker WalTxnMarker

record WalRecord =
  wal_page_id :: u64
  wal_key :: bytes
  wal_lower_fence :: bytes
  wal_upper_fence :: bytes
  wal_kind :: WalEntryKind
  wal_txn_id :: u64
  wal_op :: WalOp

primrec WalEntryKind_as_byte :: "WalEntryKind \<Rightarrow> u8" where
  "WalEntryKind_as_byte Redo = 0"
| "WalEntryKind_as_byte Undo = 1"

definition WalEntryKind_from_byte :: "u8 \<Rightarrow> WalEntryKind" where
  "WalEntryKind_from_byte byte = (if byte = 1 then Undo else Redo)"

primrec WalTxnMarker_to_record_type :: "WalTxnMarker \<Rightarrow> u8" where
  "WalTxnMarker_to_record_type TxnBegin = RECORD_TYPE_TXN_BEGIN"
| "WalTxnMarker_to_record_type TxnCommit = RECORD_TYPE_TXN_COMMIT"
| "WalTxnMarker_to_record_type TxnAbort = RECORD_TYPE_TXN_ABORT"

definition WalTxnMarker_from_record_type :: "u8 \<Rightarrow> WalTxnMarker option" where
  "WalTxnMarker_from_record_type tag =
    (if tag = RECORD_TYPE_TXN_BEGIN then Some TxnBegin
     else if tag = RECORD_TYPE_TXN_COMMIT then Some TxnCommit
     else if tag = RECORD_TYPE_TXN_ABORT then Some TxnAbort
     else None)"

section \<open>The log file\<close>

record File =
  fbytes :: bytes
  fpos :: nat

definition f_seek :: "File \<Rightarrow> nat \<Rightarrow> File" where
  "f_seek f n = f\<lparr>fpos := n\<rparr>"

definition f_seek_end :: "File \<Rightarrow> File" where
  "f_seek_end f = f\<lparr>fpos := length (fbytes f)\<rparr>"

definition f_set_len :: "File \<Rightarrow> nat \<Rightarrow> File" where
  "f_set_len f n = f\<lparr>fbytes := take n (fbytes f) @ replicate (n - length (fbytes f)) 0\<rparr>"

definition f_write_all :: "File \<Rightarrow> bytes \<Rightarrow> File" where
  "f_write_all f bs =
    f\<lparr>fbytes := take (fpos f) (fbytes f) @ replicate (fpos f - length (fbytes f)) 0 @ bs @
         drop (fpos f + length bs) (fbytes f),
      fpos := fpos f + length bs\<rparr>"

definition f_write_seq :: "File \<Rightarrow> bytes list \<Rightarrow> File" where
  "f_write_seq f bss = fold (\<lambda>bs f. f_write_all f bs) bss f"

section \<open>The manifest\<close>

record WalManifest =
  checkpoint_len :: u64

definition WalManifest_new :: WalManifest where
  "WalManifest_new = \<lparr>checkpoint_len = word_of_nat MANIFEST_LEN\<rparr>"

definition manifest_buf :: "WalManifest \<Rightarrow> bytes" where
  "manifest_buf manifest =
    MANIFEST_MAGIC @ u32_to_le_bytes MANIFEST_VERSION @ u64_to_le_bytes (checkpoint_len manifest) @ replicate 16 0"

definition write_manifest :: "File \<Rightarrow> WalManifest \<Rightarrow> File" where
  "write_manifest f manifest =
    (let buf = manifest_buf manifest;
         current = fpos f;
         f = f_seek f 0;
         f = f_write_all f buf
     in f_seek f current)"

definition read_manifest :: "File \<Rightarrow> WalManifest \<times> File" where
  "read_manifest f =
    (let manifest = WalManifest_new in
     if length (fbytes f) < MANIFEST_LEN then
       let f = f_set_len f MANIFEST_LEN;
           f = write_manifest f manifest
       in (manifest, f)
     else
       let header = take MANIFEST_LEN (fbytes f);
           f = f_seek f MANIFEST_LEN
       in
         if take 4 header \<noteq> MANIFEST_MAGIC \<or> u32_from_le_bytes (read_at header 4 4) \<noteq> MANIFEST_VERSION then
           (manifest, write_manifest f manifest)
         else
           (manifest\<lparr>checkpoint_len := max (u64_from_le_bytes (read_at header 8 8)) (word_of_nat MANIFEST_LEN)\<rparr>, f))"

section \<open>Writing\<close>

definition u32_of_len :: "bytes \<Rightarrow> u32" where
  "u32_of_len bs = word_of_nat (length bs)"

text \<open>The writes of \<open>write_record_payload\<close>, in order, and the number of bytes it reports.\<close>

definition record_writes :: "WalRecord \<Rightarrow> bytes list" where
  "record_writes r =
    (case wal_op r of
       Put value \<Rightarrow>
         [[RECORD_TYPE_PUT], [WalEntryKind_as_byte (wal_kind r)], u64_to_le_bytes (wal_txn_id r),
          u32_to_le_bytes (u32_of_len (wal_key r)), u32_to_le_bytes (u32_of_len value),
          u32_to_le_bytes (u32_of_len (wal_lower_fence r)), u32_to_le_bytes (u32_of_len (wal_upper_fence r)),
          wal_key r, value, wal_lower_fence r, wal_upper_fence r]
     | Tombstone \<Rightarrow>
         [[RECORD_TYPE_TOMBSTONE], [WalEntryKind_as_byte (wal_kind r)], u64_to_le_bytes (wal_txn_id r),
          u32_to_le_bytes (u32_of_len (wal_key r)),
          u32_to_le_bytes (u32_of_len (wal_lower_fence r)), u32_to_le_bytes (u32_of_len (wal_upper_fence r)),
          wal_key r, wal_lower_fence r, wal_upper_fence r]
     | TxnMarker marker \<Rightarrow>
         [[WalTxnMarker_to_record_type marker], [WalEntryKind_as_byte (wal_kind r)],
          u64_to_le_bytes (wal_txn_id r)])"

definition record_size :: "WalRecord \<Rightarrow> nat" where
  "record_size r =
    (case wal_op r of
       Put value \<Rightarrow>
         1 + 8 + 1 + 4 + 4 + 4 + 4 + length (wal_key r) + length value +
         length (wal_lower_fence r) + length (wal_upper_fence r)
     | Tombstone \<Rightarrow>
         1 + 8 + 1 + 4 + 4 + 4 + length (wal_key r) + length (wal_lower_fence r) + length (wal_upper_fence r)
     | TxnMarker _ \<Rightarrow> 1 + 8 + 1)"

definition write_record_payload :: "File \<Rightarrow> WalRecord \<Rightarrow> nat \<times> File" where
  "write_record_payload f r =
    (let f = f_write_seq f (record_writes r);
         header_bytes = 1 + 8
     in case wal_op r of
          Put value \<Rightarrow>
            (header_bytes + 1 + 4 + 4 + 4 + 4 + length (wal_key r) + length value +
             length (wal_lower_fence r) + length (wal_upper_fence r), f)
        | Tombstone \<Rightarrow>
            (header_bytes + 1 + 4 + 4 + 4 + length (wal_key r) + length (wal_lower_fence r) +
             length (wal_upper_fence r), f)
        | TxnMarker _ \<Rightarrow> (header_bytes + 1, f))"

fun write_payloads :: "File \<Rightarrow> WalRecord list \<Rightarrow> nat \<Rightarrow> nat \<times> File" where
  "write_payloads f [] payload = (payload, f)"
| "write_payloads f (r # rs) payload =
    (let (n, f) = write_record_payload f r in write_payloads f rs (payload + n))"

definition write_group :: "File \<Rightarrow> u64 \<Rightarrow> WalRecord list \<Rightarrow> nat result \<times> File" where
  "write_group f page_id records =
    (if records = [] then (Inr 0, f)
     else
       let f = f_write_all f [GROUP_MARKER];
           f = f_write_all f (u64_to_le_bytes page_id)
       in
         if 2 ^ 32 \<le> int (length records) then (Inl (Panic PanicExpect), f)
         else
           let f = f_write_all f (u32_to_le_bytes (word_of_nat (length records)));
               (payload, f) = write_payloads f records 0
           in (Inr (GROUP_HEADER_LEN + payload), f))"

section \<open>Reading\<close>

definition read_len :: "bytes \<Rightarrow> nat" where
  "read_len bs = unat (u32_from_le_bytes (take 4 bs))"

text \<open>
  The three arms of the inner loop of \<open>read_records\<close>: a record and the remaining bytes, or
  None where the code breaks out of both loops.
\<close>

definition parse_tombstone :: "u64 \<Rightarrow> WalEntryKind \<Rightarrow> u64 \<Rightarrow> bytes \<Rightarrow> (WalRecord \<times> bytes) option" where
  "parse_tombstone page_id entry_kind txn_id bs =
    (if length bs < 12 then None
     else
       let key_len = read_len bs; bs = drop 4 bs;
           lower_len = read_len bs; bs = drop 4 bs;
           upper_len = read_len bs; bs = drop 4 bs
       in
         if length bs < key_len + lower_len + upper_len then None
         else
           let key = take key_len bs; bs = drop key_len bs;
               lower = take lower_len bs; bs = drop lower_len bs;
               upper = take upper_len bs; bs = drop upper_len bs
           in Some (\<lparr>wal_page_id = page_id, wal_key = key, wal_lower_fence = lower,
                wal_upper_fence = upper, wal_kind = entry_kind, wal_txn_id = txn_id,
                wal_op = Tombstone\<rparr>, bs))"

definition parse_put :: "u64 \<Rightarrow> WalEntryKind \<Rightarrow> u64 \<Rightarrow> bytes \<Rightarrow> (WalRecord \<times> bytes) option" where
  "parse_put page_id entry_kind txn_id bs =
    (if length bs < 16 then None
     else
       let key_len = read_len bs; bs = drop 4 bs;
           val_len = read_len bs; bs = drop 4 bs;
           lower_len = read_len bs; bs = drop 4 bs;
           upper_len = read_len bs; bs = drop 4 bs
       in
         if length bs < key_len + val_len + lower_len + upper_len then None
         else
           let key = take key_len bs; bs = drop key_len bs;
               val = take val_len bs; bs = drop val_len bs;
               lower = take lower_len bs; bs = drop lower_len bs;
               upper = take upper_len bs; bs = drop upper_len bs
           in Some (\<lparr>wal_page_id = page_id, wal_key = key, wal_lower_fence = lower,
                wal_upper_fence = upper, wal_kind = entry_kind, wal_txn_id = txn_id,
                wal_op = Put val\<rparr>, bs))"

definition parse_marker :: "u64 \<Rightarrow> WalEntryKind \<Rightarrow> u64 \<Rightarrow> u8 \<Rightarrow> bytes \<Rightarrow> (WalRecord \<times> bytes) option" where
  "parse_marker page_id entry_kind txn_id record_type bs =
    (case WalTxnMarker_from_record_type record_type of
       None \<Rightarrow> None
     | Some marker \<Rightarrow>
         Some (\<lparr>wal_page_id = page_id, wal_key = [], wal_lower_fence = [],
           wal_upper_fence = [], wal_kind = entry_kind, wal_txn_id = txn_id,
           wal_op = TxnMarker marker\<rparr>, bs))"

definition parse_record :: "u64 \<Rightarrow> bytes \<Rightarrow> (WalRecord \<times> bytes) option" where
  "parse_record page_id bs =
    (if bs = [] then None
     else
       let record_type = hd bs; bs = tl bs in
       if length bs < 1 + 8 then None
       else
         let entry_kind = WalEntryKind_from_byte (hd bs); bs = tl bs;
             txn_id = u64_from_le_bytes (take 8 bs); bs = drop 8 bs
         in
           if record_type = RECORD_TYPE_TOMBSTONE then parse_tombstone page_id entry_kind txn_id bs
           else if record_type = RECORD_TYPE_PUT then parse_put page_id entry_kind txn_id bs
           else parse_marker page_id entry_kind txn_id record_type bs)"

text \<open>
  The inner loop: the records of one group.  The flag tells whether all of them were read;
  the records read before a break stay in the result, as they do in the code.
\<close>

fun parse_group_records :: "nat \<Rightarrow> u64 \<Rightarrow> bytes \<Rightarrow> bool \<times> WalRecord list \<times> nat \<times> bytes" where
  "parse_group_records 0 page_id bs = (True, [], 0, bs)"
| "parse_group_records (Suc n) page_id bs =
    (case parse_record page_id bs of
       None \<Rightarrow> (False, [], 0, bs)
     | Some (r, bs) \<Rightarrow>
         let (complete, rs, payload_bytes, bs) = parse_group_records n page_id bs
         in (complete, r # rs, record_size r + payload_bytes, bs))"

definition add_bytes :: "u64 \<Rightarrow> nat \<Rightarrow> (u64 \<times> nat) list \<Rightarrow> (u64 \<times> nat) list" where
  "add_bytes page_id n m =
    AList.update page_id (case map_of m page_id of None \<Rightarrow> n | Some b \<Rightarrow> b + n) m"

lemma parse_arms_shorter:
  "parse_tombstone pid k t bs = Some (r, bs') \<Longrightarrow> length bs' \<le> length bs"
  "parse_put pid k t bs = Some (r, bs') \<Longrightarrow> length bs' \<le> length bs"
  "parse_marker pid k t ty bs = Some (r, bs') \<Longrightarrow> length bs' \<le> length bs"
  by (auto simp: parse_tombstone_def parse_put_def parse_marker_def Let_def split: if_splits option.splits)

lemma parse_record_shorter: "parse_record pid bs = Some (r, bs') \<Longrightarrow> length bs' < length bs"
  by (auto simp: parse_record_def Let_def neq_Nil_conv split: if_splits dest!: parse_arms_shorter)

lemma parse_group_records_shorter:
  "parse_group_records n pid bs = (c, rs, payload, bs') \<Longrightarrow> length bs' \<le> length bs"
proof (induction n arbitrary: bs c rs payload)
  case (Suc n)
  then show ?case
    by (fastforce dest: parse_record_shorter split: option.splits prod.splits)
qed simp

text \<open>
  The outer loop over groups; the result carries the bytes that remain after the last
  complete group.
\<close>

function read_groups ::
    "bytes \<Rightarrow> (u64 \<times> nat) list \<Rightarrow> WalRecord list \<times> (u64 \<times> nat) list \<times> bytes" where
  "read_groups bs page_bytes =
    (if length bs < GROUP_HEADER_LEN \<or> hd bs \<noteq> GROUP_MARKER then ([], page_bytes, bs)
     else
       let rest = tl bs;
           page_id = u64_from_le_bytes (take 8 rest); rest = drop 8 rest;
           record_count = unat (u32_from_le_bytes (take 4 rest)); rest = drop 4 rest
       in
         case parse_group_records record_count page_id rest of
           (complete, rs, payload_bytes, rest) \<Rightarrow>
             if \<not> complete then (rs, page_bytes, bs)
             else
               case read_groups rest (add_bytes page_id (GROUP_HEADER_LEN + payload_bytes) page_bytes) of
                 (rs', page_bytes, valid) \<Rightarrow> (rs @ rs', page_bytes, valid))"
  by pat_completeness auto
termination
  by (relation "measure (\<lambda>(bs, m). length bs)")
    (fastforce simp: GROUP_HEADER_LEN_def dest!: sym [THEN parse_group_records_shorter])+

declare read_groups.simps [simp del]

definition read_records :: "File \<Rightarrow> WalRecord list \<times> (u64 \<times> nat) list \<times> nat \<times> File" where
  "read_records f =
    (let bytes = drop MANIFEST_LEN (fbytes f);
         f = f_seek f (max MANIFEST_LEN (length (fbytes f)));
         (records, page_bytes, rest) = read_groups bytes [];
         valid_idx = length bytes - length rest
     in (records, page_bytes, MANIFEST_LEN + valid_idx, f))"

section \<open>The log manager\<close>

record LeafWalStats =
  stat_count :: nat
  stat_bytes :: nat

record WalState =
  wal_file :: File
  wal_records :: "WalRecord list"
  leaf_counts :: "(u64 \<times> LeafWalStats) list"
  total_records :: nat
  total_bytes :: nat
  manifest :: WalManifest

definition stats_of :: "(u64 \<times> LeafWalStats) list \<Rightarrow> u64 \<Rightarrow> LeafWalStats" where
  "stats_of m page = (case map_of m page of None \<Rightarrow> \<lparr>stat_count = 0, stat_bytes = 0\<rparr> | Some s \<Rightarrow> s)"

definition count_record :: "WalRecord \<Rightarrow> (u64 \<times> LeafWalStats) list \<Rightarrow> (u64 \<times> LeafWalStats) list" where
  "count_record r m =
    (let s = stats_of m (wal_page_id r)
     in AList.update (wal_page_id r) (s\<lparr>stat_count := stat_count s + 1\<rparr>) m)"

definition set_bytes :: "u64 \<times> nat \<Rightarrow> (u64 \<times> LeafWalStats) list \<Rightarrow> (u64 \<times> LeafWalStats) list" where
  "set_bytes pb m =
    (let s = stats_of m (fst pb) in AList.update (fst pb) (s\<lparr>stat_bytes := snd pb\<rparr>) m)"

definition WalManager_open :: "File \<Rightarrow> WalState" where
  "WalManager_open f =
    (let (manifest, f) = read_manifest f;
         (records, page_bytes, valid_len, f) = read_records f;
         file_len = length (fbytes f);
         f = (if valid_len < file_len then f_set_len f valid_len else f);
         (manifest, f) =
           (if word_of_nat valid_len < checkpoint_len manifest then
              let manifest = manifest\<lparr>checkpoint_len := word_of_nat valid_len\<rparr>
              in (manifest, write_manifest f manifest)
            else (manifest, f));
         f = f_seek_end f;
         leaf_counts = fold count_record records [];
         leaf_counts = fold set_bytes page_bytes leaf_counts
     in \<lparr>wal_file = f, wal_records = records, leaf_counts = leaf_counts,
         total_records = length records, total_bytes = valid_len, manifest = manifest\<rparr>)"

definition records_grouped :: "WalState \<Rightarrow> (u64 \<times> WalRecord list) list" where
  "records_grouped st =
    fold (\<lambda>r m. AList.update (wal_page_id r)
        ((case map_of m (wal_page_id r) of None \<Rightarrow> [] | Some rs \<Rightarrow> rs) @ [r]) m)
      (wal_records st) []"

definition append_record :: "WalState \<Rightarrow> WalRecord \<Rightarrow> unit result \<times> WalState" where
  "append_record st r =
    (let st = st\<lparr>wal_file := f_seek_end (wal_file st)\<rparr>;
         st = st\<lparr>wal_records := wal_records st @ [r], total_records := total_records st + 1,
             leaf_counts := count_record r (leaf_counts st)\<rparr>
     in
       case write_group (wal_file st) (wal_page_id r) [r] of
         (Inl e, f) \<Rightarrow> (Inl e, st\<lparr>wal_file := f\<rparr>)
       | (Inr bytes_written, f) \<Rightarrow>
           let s = stats_of (leaf_counts st) (wal_page_id r);
               st = st\<lparr>wal_file := f,
                   leaf_counts := AList.update (wal_page_id r)
                     (s\<lparr>stat_bytes := stat_bytes s + bytes_written\<rparr>) (leaf_counts st),
                   total_bytes := total_bytes st + bytes_written\<rparr>
           in (Inr (), st))"

definition append_put ::
    "WalState \<Rightarrow> u64 \<Rightarrow> bytes \<Rightarrow> bytes \<Rightarrow> bytes \<Rightarrow> bytes \<Rightarrow> WalEntryKind \<Rightarrow> u64 \<Rightarrow> unit result \<times> WalState" where
  "append_put st page_id key val lower upper kind txn_id =
    append_record st \<lparr>wal_page_id = page_id, wal_key = key, wal_lower_fence = lower,
      wal_upper_fence = upper, wal_kind = kind, wal_txn_id = txn_id, wal_op = Put val\<rparr>"

definition append_tombstone ::
    "WalState \<Rightarrow> u64 \<Rightarrow> bytes \<Rightarrow> bytes \<Rightarrow> bytes \<Rightarrow> WalEntryKind \<Rightarrow> u64 \<Rightarrow> unit result \<times> WalState" where
  "append_tombstone st page_id key lower upper kind txn_id =
    append_record st \<lparr>wal_page_id = page_id, wal_key = key, wal_lower_fence = lower,
      wal_upper_fence = upper, wal_kind = kind, wal_txn_id = txn_id, wal_op = Tombstone\<rparr>"

definition append_txn_marker ::
    "WalState \<Rightarrow> WalTxnMarker \<Rightarrow> WalEntryKind \<Rightarrow> u64 \<Rightarrow> unit result \<times> WalState" where
  "append_txn_marker st marker kind txn_id =
    append_record st \<lparr>wal_page_id = TXN_META_PAGE_ID, wal_key = [], wal_lower_fence = [],
      wal_upper_fence = [], wal_kind = kind, wal_txn_id = txn_id, wal_op = TxnMarker marker\<rparr>"

text \<open>
  \<open>rewrite_records\<close>: runs of records of one page become one group each.
\<close>

function rewrite_loop ::
    "File \<Rightarrow> WalRecord list \<Rightarrow> (u64 \<times> LeafWalStats) list \<Rightarrow> (u64 \<times> LeafWalStats) list result \<times> File" where
  "rewrite_loop f [] stats = (Inr stats, f)"
| "rewrite_loop f (r # rs) stats =
    (let page_id = wal_page_id r;
         run = r # takeWhile (\<lambda>x. wal_page_id x = page_id) rs
     in
       case write_group f page_id run of
         (Inl e, f) \<Rightarrow> (Inl e, f)
       | (Inr bytes_written, f) \<Rightarrow>
           let s = stats_of stats page_id;
               stats = AList.update page_id
                 \<lparr>stat_count = stat_count s + length run, stat_bytes = stat_bytes s + bytes_written\<rparr> stats
           in rewrite_loop f (dropWhile (\<lambda>x. wal_page_id x = page_id) rs) stats)"
  by pat_completeness auto
termination
  by (relation "measure (\<lambda>(f, rs, stats). length rs)") (auto simp: le_imp_less_Suc length_dropWhile_le)

definition rewrite_records :: "File \<Rightarrow> WalRecord list \<Rightarrow> (u64 \<times> LeafWalStats) list result \<times> File" where
  "rewrite_records f records =
    (let f = f_set_len f MANIFEST_LEN;
         f = f_seek f MANIFEST_LEN
     in rewrite_loop f records [])"

definition checkpoint_page :: "WalState \<Rightarrow> u64 \<Rightarrow> unit result \<times> WalState" where
  "checkpoint_page st page_key =
    (if \<forall>r \<in> set (wal_records st). wal_page_id r \<noteq> page_key then (Inr (), st)
     else
       let st = st\<lparr>wal_records := filter (\<lambda>r. wal_page_id r \<noteq> page_key) (wal_records st)\<rparr> in
       case rewrite_records (wal_file st) (wal_records st) of
         (Inl e, f) \<Rightarrow> (Inl e, st\<lparr>wal_file := f\<rparr>)
       | (Inr stats, f) \<Rightarrow>
           let total = foldl (\<lambda>acc s. acc + stat_bytes (snd s)) 0 stats;
               manifest = \<lparr>checkpoint_len = word_of_nat (MANIFEST_LEN + total)\<rparr>;
               f = write_manifest f manifest;
               f = f_seek_end f
           in (Inr (), st\<lparr>wal_file := f, leaf_counts := stats, total_records := length (wal_records st),
                total_bytes := total, manifest := manifest\<rparr>))"

definition WalManager_clear :: "WalState \<Rightarrow> WalState" where
  "WalManager_clear st =
    (let f = f_set_len (wal_file st) MANIFEST_LEN;
         f = write_manifest f WalManifest_new;
         f = f_seek_end f
     in st\<lparr>wal_file := f, wal_records := [], leaf_counts := [], total_records := 0, total_bytes := 0,
         manifest := WalManifest_new\<rparr>)"

definition should_checkpoint_page :: "WalState \<Rightarrow> u64 \<Rightarrow> nat \<Rightarrow> bool" where
  "should_checkpoint_page st page_id threshold =
    (case map_of (leaf_counts st) page_id of None \<Rightarrow> False | Some s \<Rightarrow> threshold \<le> stat_count s)"

definition leaf_stats :: "WalState \<Rightarrow> u64 \<Rightarrow> (nat \<times> nat) option" where
  "leaf_stats st page_id = map_option (\<lambda>s. (stat_count s, stat_bytes s)) (map_of (leaf_counts st) page_id)"

text \<open>\<open>max_by_key\<close> returns the last of the greatest elements in iteration order.\<close>

fun max_by_bytes :: "(u64 \<times> LeafWalStats) list \<Rightarrow> (u64 \<times> LeafWalStats) option" where
  "max_by_bytes [] = None"
| "max_by_bytes (x # xs) =
    (case max_by_bytes xs of
       None \<Rightarrow> Some x
     | Some y \<Rightarrow> if stat_bytes (snd x) \<le> stat_bytes (snd y) then Some y else Some x)"

definition global_checkpoint_candidate :: "WalState \<Rightarrow> nat \<Rightarrow> nat \<Rightarrow> u64 option" where
  "global_checkpoint_candidate st total_record_threshold total_byte_threshold =
    (if total_records st < total_record_threshold \<and> total_bytes st < total_byte_threshold then None
     else map_option fst (max_by_bytes (filter (\<lambda>(page, _). page \<noteq> TXN_META_PAGE_ID) (leaf_counts st))))"

section \<open>Encoding\<close>

definition enc_record :: "WalRecord \<Rightarrow> bytes" where
  "enc_record r = concat (record_writes r)"

definition enc_group :: "u64 \<times> WalRecord list \<Rightarrow> bytes" where
  "enc_group g = GROUP_MARKER # u64_to_le_bytes (fst g) @ u32_to_le_bytes (word_of_nat (length (snd g))) @
    concat (map enc_record (snd g))"

definition enc_log :: "(u64 \<times> WalRecord list) list \<Rightarrow> bytes" where
  "enc_log gs = concat (map enc_group gs)"

text \<open>Records the format can carry: lengths fit 32 bits and a marker has no key or fences.\<close>

definition record_ok :: "WalRecord \<Rightarrow> bool" where
  "record_ok r \<longleftrightarrow>
    int (length (wal_key r)) < 2 ^ 32 \<and> int (length (wal_lower_fence r)) < 2 ^ 32 \<and>
    int (length (wal_upper_fence r)) < 2 ^ 32 \<and>
    (case wal_op r of
       Put v \<Rightarrow> int (length v) < 2 ^ 32
     | Tombstone \<Rightarrow> True
     | TxnMarker _ \<Rightarrow> wal_key r = [] \<and> wal_lower_fence r = [] \<and> wal_upper_fence r = [])"

definition group_ok :: "u64 \<times> WalRecord list \<Rightarrow> bool" where
  "group_ok g \<longleftrightarrow> int (length (snd g)) < 2 ^ 32 \<and> (\<forall>r \<in> set (snd g). record_ok r \<and> wal_page_id r = fst g)"

lemmas record_type_defs = RECORD_TYPE_PUT_def RECORD_TYPE_TOMBSTONE_def RECORD_TYPE_TXN_BEGIN_def
  RECORD_TYPE_TXN_COMMIT_def RECORD_TYPE_TXN_ABORT_def

lemma length_enc_record: "length (enc_record r) = record_size r"
  by (simp add: enc_record_def record_writes_def record_size_def split: WalOp.split)

lemma kind_roundtrip [simp]: "WalEntryKind_from_byte (WalEntryKind_as_byte k) = k"
  by (cases k) (simp_all add: WalEntryKind_from_byte_def)

lemma unat_u32_of_len: "int (length bs) < 2 ^ 32 \<Longrightarrow> unat (u32_of_len bs) = length bs"
  by (simp add: u32_of_len_def unat_of_nat)

lemma read_len_u32 [simp]: "read_len (u32_to_le_bytes w @ rest) = unat w"
  by (simp add: read_len_def)

lemma take_drop_codec [simp]:
  "drop 4 (u32_to_le_bytes w @ rest) = rest" "take 8 (u64_to_le_bytes x @ rest) = u64_to_le_bytes x"
  "drop 8 (u64_to_le_bytes x @ rest) = rest"
  by simp_all

lemma parse_put_enc:
  assumes "int (length k) < 2 ^ 32" "int (length v) < 2 ^ 32" "int (length lo) < 2 ^ 32" "int (length hi) < 2 ^ 32"
  shows "parse_put pid kd t (u32_to_le_bytes (u32_of_len k) @ u32_to_le_bytes (u32_of_len v) @
      u32_to_le_bytes (u32_of_len lo) @ u32_to_le_bytes (u32_of_len hi) @ k @ v @ lo @ hi @ rest) =
    Some (\<lparr>wal_page_id = pid, wal_key = k, wal_lower_fence = lo, wal_upper_fence = hi, wal_kind = kd,
      wal_txn_id = t, wal_op = Put v\<rparr>, rest)"
  using assms[THEN unat_u32_of_len] by (simp add: parse_put_def Let_def)

lemma parse_tombstone_enc:
  assumes "int (length k) < 2 ^ 32" "int (length lo) < 2 ^ 32" "int (length hi) < 2 ^ 32"
  shows "parse_tombstone pid kd t (u32_to_le_bytes (u32_of_len k) @
      u32_to_le_bytes (u32_of_len lo) @ u32_to_le_bytes (u32_of_len hi) @ k @ lo @ hi @ rest) =
    Some (\<lparr>wal_page_id = pid, wal_key = k, wal_lower_fence = lo, wal_upper_fence = hi, wal_kind = kd,
      wal_txn_id = t, wal_op = Tombstone\<rparr>, rest)"
  using assms[THEN unat_u32_of_len] by (simp add: parse_tombstone_def Let_def)

lemma parse_record_dispatch:
  "parse_record pid (ty # kd # u64_to_le_bytes t @ bs) =
    (if ty = RECORD_TYPE_TOMBSTONE then parse_tombstone pid (WalEntryKind_from_byte kd) t bs
     else if ty = RECORD_TYPE_PUT then parse_put pid (WalEntryKind_from_byte kd) t bs
     else parse_marker pid (WalEntryKind_from_byte kd) t ty bs)"
  by (simp add: parse_record_def)

lemma parse_enc_record:
  assumes "record_ok r" "wal_page_id r = pid"
  shows "parse_record pid (enc_record r @ rest) = Some (r, rest)"
proof (cases "wal_op r")
  case (Put v)
  with assms show ?thesis
    by (simp add: enc_record_def record_writes_def parse_record_dispatch record_ok_def parse_put_enc
        record_type_defs)
next
  case Tombstone
  with assms show ?thesis
    by (simp add: enc_record_def record_writes_def parse_record_dispatch record_ok_def parse_tombstone_enc
        record_type_defs)
next
  case (TxnMarker m)
  with assms show ?thesis
    by (cases m) (simp_all add: enc_record_def record_writes_def parse_record_dispatch record_ok_def
        parse_marker_def WalTxnMarker_from_record_type_def record_type_defs)
qed

lemma take_app: "n \<le> length bs \<Longrightarrow> take n (bs @ ys) = take n bs" by simp
lemma drop_app: "n \<le> length bs \<Longrightarrow> drop n (bs @ ys) = drop n bs @ ys" by simp
lemma read_len_app: "4 \<le> length bs \<Longrightarrow> read_len (bs @ ys) = read_len bs" by (simp add: read_len_def)

lemma parse_arms_append:
  "parse_tombstone pid k t bs = Some (r, rest) \<Longrightarrow> parse_tombstone pid k t (bs @ ys) = Some (r, rest @ ys)"
  "parse_put pid k t bs = Some (r, rest) \<Longrightarrow> parse_put pid k t (bs @ ys) = Some (r, rest @ ys)"
  "parse_marker pid k t ty bs = Some (r, rest) \<Longrightarrow> parse_marker pid k t ty (bs @ ys) = Some (r, rest @ ys)"
  by (auto simp: parse_tombstone_def parse_put_def parse_marker_def Let_def take_app drop_app read_len_app
      simp del: take_append drop_append drop_drop split: if_splits option.splits)

lemma parse_record_append:
  assumes "parse_record pid bs = Some (r, rest)"
  shows "parse_record pid (bs @ ys) = Some (r, rest @ ys)"
proof -
  have "10 \<le> length bs"
    using assms by (auto simp: parse_record_def Let_def neq_Nil_conv split: if_splits)
  then obtain ty kd b where bs: "bs = ty # kd # b" "8 \<le> length b"
    by (cases bs; cases "tl bs") auto
  then show ?thesis
    using assms by (auto simp: parse_record_def Let_def take_app drop_app parse_arms_append
      simp del: take_append drop_append split: if_splits)
qed

lemma parse_truncated_record:
  assumes "record_ok r" "wal_page_id r = pid" "n < length (enc_record r)"
  shows "parse_record pid (take n (enc_record r)) = None"
proof (rule ccontr)
  assume "parse_record pid (take n (enc_record r)) \<noteq> None"
  then obtain r' rest where "parse_record pid (take n (enc_record r)) = Some (r', rest)" by auto
  from parse_record_append[OF this, of "drop n (enc_record r)"]
  have "parse_record pid (enc_record r) = Some (r', rest @ drop n (enc_record r))" by simp
  moreover have "parse_record pid (enc_record r) = Some (r, [])"
    using parse_enc_record[OF assms(1,2), of "[]"] by simp
  ultimately show False using assms(3) by simp
qed

section \<open>Reading back groups\<close>

definition group_bytes :: "u64 \<times> WalRecord list \<Rightarrow> nat" where
  "group_bytes g = GROUP_HEADER_LEN + sum_list (map record_size (snd g))"

lemma length_concat_enc: "length (concat (map enc_record rs)) = sum_list (map record_size rs)"
  by (induction rs) (simp_all add: length_enc_record)

lemma length_enc_group: "length (enc_group g) = group_bytes g"
  by (simp add: enc_group_def group_bytes_def GROUP_HEADER_LEN_def length_concat_enc)

lemma length_enc_log: "length (enc_log gs) = sum_list (map group_bytes gs)"
  by (induction gs) (simp_all add: enc_log_def length_enc_group)

lemma parse_group_enc:
  "\<forall>r \<in> set rs. record_ok r \<and> wal_page_id r = pid \<Longrightarrow>
    parse_group_records (length rs) pid (concat (map enc_record rs) @ rest) =
      (True, rs, sum_list (map record_size rs), rest)"
  by (induction rs) (simp_all add: parse_enc_record)

lemma read_groups_group:
  assumes "group_ok g"
  shows "read_groups (enc_group g @ rest) m =
    (case read_groups rest (add_bytes (fst g) (group_bytes g) m) of (rs', m', v) \<Rightarrow> (snd g @ rs', m', v))"
proof -
  have "unat (word_of_nat (length (snd g)) :: u32) = length (snd g)"
    using assms by (simp add: group_ok_def unat_of_nat)
  moreover have "parse_group_records (length (snd g)) (fst g) (concat (map enc_record (snd g)) @ rest) =
      (True, snd g, sum_list (map record_size (snd g)), rest)"
    using assms by (intro parse_group_enc) (simp add: group_ok_def)
  ultimately show ?thesis
    by (subst read_groups.simps) (simp add: enc_group_def GROUP_HEADER_LEN_def Let_def group_bytes_def)
qed

lemma read_groups_stop: "length bs < GROUP_HEADER_LEN \<Longrightarrow> read_groups bs m = ([], m, bs)"
  by (subst read_groups.simps) simp

lemma read_groups_log:
  assumes "\<forall>g \<in> set gs. group_ok g"
  shows "read_groups (enc_log gs @ rest) m =
    (case read_groups rest (fold (\<lambda>g. add_bytes (fst g) (group_bytes g)) gs m) of
       (rs', m', v) \<Rightarrow> (concat (map snd gs) @ rs', m', v))"
  using assms
proof (induction gs arbitrary: m)
  case (Cons g gs)
  then show ?case
    by (simp add: enc_log_def read_groups_group split: prod.split)
qed (simp add: enc_log_def)

text \<open>A group of one record that lost its tail is not read at all.\<close>

lemma read_truncated_group:
  assumes "record_ok r" and "n < length (enc_group (wal_page_id r, [r]))"
  shows "read_groups (take n (enc_group (wal_page_id r, [r]))) m = ([], m, take n (enc_group (wal_page_id r, [r])))"
proof (cases "n < GROUP_HEADER_LEN")
  case True
  then show ?thesis by (intro read_groups_stop) simp
next
  case False
  define k where "k = n - 13"
  have "n = 1 + 8 + 4 + k" using False by (simp add: k_def GROUP_HEADER_LEN_def)
  then have t: "take n (enc_group (wal_page_id r, [r])) = GROUP_MARKER # u64_to_le_bytes (wal_page_id r) @
      u32_to_le_bytes 1 @ take k (enc_record r)"
  proof -
    let ?h = "GROUP_MARKER # u64_to_le_bytes (wal_page_id r) @ u32_to_le_bytes 1"
    have "enc_group (wal_page_id r, [r]) = ?h @ enc_record r" "length ?h = 13"
      by (simp_all add: enc_group_def)
    with \<open>n = 1 + 8 + 4 + k\<close> have "take n (enc_group (wal_page_id r, [r])) = ?h @ take k (enc_record r)"
      by (simp only: take_append) simp
    then show ?thesis by simp
  qed
  have "k < length (enc_record r)"
    using assms(2) False by (simp add: k_def length_enc_group group_bytes_def length_enc_record GROUP_HEADER_LEN_def)
  then have "parse_record (wal_page_id r) (take k (enc_record r)) = None"
    by (intro parse_truncated_record assms(1)) simp_all
  then show ?thesis
    unfolding t by (subst read_groups.simps) (simp add: Let_def GROUP_HEADER_LEN_def)
qed

section \<open>Writing at the end of the file\<close>

definition at_end :: "File \<Rightarrow> bool" where
  "at_end f \<longleftrightarrow> fpos f = length (fbytes f)"

definition extend :: "File \<Rightarrow> bytes \<Rightarrow> File" where
  "extend f bs = f\<lparr>fbytes := fbytes f @ bs, fpos := length (fbytes f) + length bs\<rparr>"

lemma extend_simps [simp]:
  "fbytes (extend f bs) = fbytes f @ bs" "at_end (extend f bs)" "extend (extend f as) bs = extend f (as @ bs)"
  by (simp_all add: extend_def at_end_def)

lemma write_all_end: "at_end f \<Longrightarrow> f_write_all f bs = extend f bs"
  by (simp add: at_end_def f_write_all_def extend_def)

lemma extend_Nil: "at_end f \<Longrightarrow> extend f [] = f"
  by (simp add: at_end_def extend_def)

lemma write_seq_end: "at_end f \<Longrightarrow> f_write_seq f bss = extend f (concat bss)"
proof (induction bss arbitrary: f)
  case (Cons bs bss)
  then show ?case by (simp add: f_write_seq_def write_all_end)
qed (simp add: f_write_seq_def extend_Nil)

lemma write_record_payload_end:
  "at_end f \<Longrightarrow> write_record_payload f r = (record_size r, extend f (enc_record r))"
  by (simp add: write_record_payload_def record_size_def write_seq_end enc_record_def split: WalOp.split)

lemma write_payloads_end:
  "at_end f \<Longrightarrow> write_payloads f rs n =
    (n + sum_list (map record_size rs), extend f (concat (map enc_record rs)))"
  by (induction rs arbitrary: f n) (simp_all add: write_record_payload_end extend_Nil)

lemma write_group_end:
  assumes "at_end f" "rs \<noteq> []" "int (length rs) < 2 ^ 32"
  shows "write_group f pid rs = (Inr (group_bytes (pid, rs)), extend f (enc_group (pid, rs)))"
  using assms by (simp add: write_group_def write_all_end write_payloads_end group_bytes_def enc_group_def)

section \<open>Statistics\<close>

lemma stats_of_update: "stats_of (AList.update k s m) p = (if p = k then s else stats_of m p)"
  by (simp add: stats_of_def update_conv')

lemma stats_of_Nil [simp]: "stats_of [] p = \<lparr>stat_count = 0, stat_bytes = 0\<rparr>"
  by (simp add: stats_of_def)

definition page_count :: "u64 \<Rightarrow> WalRecord list \<Rightarrow> nat" where
  "page_count p rs = length (filter (\<lambda>r. wal_page_id r = p) rs)"

definition page_bytes_in :: "u64 \<Rightarrow> (u64 \<times> WalRecord list) list \<Rightarrow> nat" where
  "page_bytes_in p gs = sum_list (map group_bytes (filter (\<lambda>g. fst g = p) gs))"

lemma stats_count_records:
  "stats_of (fold count_record rs m) p = (stats_of m p)\<lparr>stat_count := stat_count (stats_of m p) + page_count p rs\<rparr>"
proof (induction rs arbitrary: m)
  case Nil
  then show ?case by (simp add: page_count_def)
next
  case (Cons r rs)
  then show ?case
    by (simp add: count_record_def Let_def stats_of_update page_count_def)
qed

lemma stats_set_bytes:
  "distinct (map fst pb) \<Longrightarrow> stats_of (fold set_bytes pb m) p =
    (case map_of pb p of None \<Rightarrow> stats_of m p | Some b \<Rightarrow> (stats_of m p)\<lparr>stat_bytes := b\<rparr>)"
proof (induction pb arbitrary: m)
  case (Cons x pb)
  have "map_of pb (fst x) = None" using Cons.prems by (simp add: map_of_eq_None_iff)
  with Cons show ?case
    by (auto simp: set_bytes_def Let_def stats_of_update split: option.split)
qed simp

lemma distinct_add_bytes: "distinct (map fst m) \<Longrightarrow> distinct (map fst (add_bytes p n m))"
  by (simp add: add_bytes_def distinct_update)

lemma distinct_fold_add_bytes:
  "distinct (map fst m) \<Longrightarrow> distinct (map fst (fold (\<lambda>g. add_bytes (fst g) (group_bytes g)) gs m))"
  by (induction gs arbitrary: m) (simp_all add: distinct_add_bytes)

lemma map_of_fold_add_bytes:
  "case_option 0 id (map_of (fold (\<lambda>g. add_bytes (fst g) (group_bytes g)) gs m) p) =
    case_option 0 id (map_of m p) + page_bytes_in p gs"
proof (induction gs arbitrary: m)
  case (Cons g gs)
  have "case_option 0 id (map_of (add_bytes (fst g) (group_bytes g) m) p) =
      case_option 0 id (map_of m p) + (if fst g = p then group_bytes g else 0)"
    by (auto simp: add_bytes_def update_conv' split: option.split)
  with Cons show ?case by (simp add: page_bytes_in_def)
qed (simp add: page_bytes_in_def)

definition add_group :: "u64 \<times> WalRecord list \<Rightarrow> (u64 \<times> LeafWalStats) list \<Rightarrow> (u64 \<times> LeafWalStats) list" where
  "add_group g m = (let s = stats_of m (fst g) in AList.update (fst g)
     \<lparr>stat_count = stat_count s + length (snd g), stat_bytes = stat_bytes s + group_bytes g\<rparr> m)"

lemma page_count_group: "group_ok g \<Longrightarrow> page_count p (snd g) = (if fst g = p then length (snd g) else 0)"
  by (auto simp: group_ok_def page_count_def filter_True filter_empty_conv)

lemma page_count_append [simp]: "page_count p (xs @ ys) = page_count p xs + page_count p ys"
  by (simp add: page_count_def)

lemma stats_add_groups:
  "\<forall>g \<in> set gs. group_ok g \<Longrightarrow> stats_of (fold add_group gs m) p =
    \<lparr>stat_count = stat_count (stats_of m p) + page_count p (concat (map snd gs)),
     stat_bytes = stat_bytes (stats_of m p) + page_bytes_in p gs\<rparr>"
proof (induction gs arbitrary: m)
  case Nil
  then show ?case by (simp add: page_count_def page_bytes_in_def)
next
  case (Cons g gs)
  then show ?case
    by (simp add: add_group_def Let_def stats_of_update page_count_group page_bytes_in_def)
qed

lemma sum_bytes_update:
  "distinct (map fst m) \<Longrightarrow>
    sum_list (map (\<lambda>x. stat_bytes (snd x)) (AList.update k s m)) + stat_bytes (stats_of m k) =
    sum_list (map (\<lambda>x. stat_bytes (snd x)) m) + stat_bytes s"
proof (induction m)
  case (Cons x m)
  then show ?case by (cases x) (auto simp: stats_of_def split: option.splits)
qed simp

lemma distinct_add_group: "distinct (map fst m) \<Longrightarrow> distinct (map fst (add_group g m))"
  by (simp add: add_group_def Let_def distinct_update)

lemma sum_bytes_add_groups:
  "distinct (map fst m) \<Longrightarrow> distinct (map fst (fold add_group gs m)) \<and>
    sum_list (map (\<lambda>x. stat_bytes (snd x)) (fold add_group gs m)) =
    sum_list (map (\<lambda>x. stat_bytes (snd x)) m) + sum_list (map group_bytes gs)"
proof (induction gs arbitrary: m)
  case (Cons g gs)
  have "sum_list (map (\<lambda>x. stat_bytes (snd x)) (add_group g m)) = sum_list (map (\<lambda>x. stat_bytes (snd x)) m) + group_bytes g"
    using sum_bytes_update[OF Cons.prems, of "fst g"
        "\<lparr>stat_count = stat_count (stats_of m (fst g)) + length (snd g),
          stat_bytes = stat_bytes (stats_of m (fst g)) + group_bytes g\<rparr>"]
    by (simp add: add_group_def Let_def)
  with Cons show ?case by (simp add: distinct_add_group)
qed simp

lemma foldl_sum: "foldl (\<lambda>acc x. acc + f x) (a :: nat) xs = a + sum_list (map f xs)"
  by (induction xs arbitrary: a) simp_all

section \<open>Rewriting the log\<close>

function page_runs :: "WalRecord list \<Rightarrow> (u64 \<times> WalRecord list) list" where
  "page_runs [] = []"
| "page_runs (r # rs) =
    (wal_page_id r, r # takeWhile (\<lambda>x. wal_page_id x = wal_page_id r) rs) #
    page_runs (dropWhile (\<lambda>x. wal_page_id x = wal_page_id r) rs)"
  by pat_completeness auto
termination
  by (relation "measure length") (auto simp: le_imp_less_Suc length_dropWhile_le)

lemma concat_page_runs: "concat (map snd (page_runs rs)) = rs"
  by (induction rs rule: page_runs.induct) simp_all

lemma page_run_ok:
  assumes "\<forall>x \<in> set (r # rs). record_ok x" and "int (length (r # rs)) < 2 ^ 32"
  shows "group_ok (wal_page_id r, r # takeWhile (\<lambda>x. wal_page_id x = wal_page_id r) rs)"
proof -
  have "length (r # takeWhile (\<lambda>x. wal_page_id x = wal_page_id r) rs) \<le> length (r # rs)"
    by (simp add: length_takeWhile_le)
  then have "int (length (r # takeWhile (\<lambda>x. wal_page_id x = wal_page_id r) rs)) < 2 ^ 32"
    using assms(2) by linarith
  then show ?thesis
    using assms(1) by (auto simp: group_ok_def dest: set_takeWhileD)
qed

lemma page_runs_ok:
  assumes "\<forall>x \<in> set rs. record_ok x" and "int (length rs) < 2 ^ 32"
  shows "\<forall>g \<in> set (page_runs rs). group_ok g"
  using assms
proof (induction rs rule: page_runs.induct)
  case (2 r rs)
  let ?d = "dropWhile (\<lambda>x. wal_page_id x = wal_page_id r) rs"
  have "length ?d \<le> length (r # rs)" by (simp add: length_dropWhile_le le_SucI)
  then have "int (length ?d) < 2 ^ 32" using 2(3) by linarith
  moreover have "\<forall>x \<in> set ?d. record_ok x" using 2(2) by (auto dest: set_dropWhileD)
  ultimately show ?case using 2(1) page_run_ok[OF 2(2,3)] by (simp only: page_runs.simps list.set) blast
qed simp

lemma group_ok_length: "group_ok (p, rs) \<Longrightarrow> int (length rs) < 2 ^ 32"
  unfolding group_ok_def snd_conv by (rule conjunct1)

lemma write_group_Cons:
  assumes "at_end f" and "group_ok (pid, r # rs)"
  shows "write_group f pid (r # rs) = (Inr (group_bytes (pid, r # rs)), extend f (enc_group (pid, r # rs)))"
  by (rule write_group_end[OF assms(1) list.distinct(2) group_ok_length[OF assms(2)]])

lemma rewrite_loop_step:
  assumes "write_group f (wal_page_id r) (r # takeWhile (\<lambda>x. wal_page_id x = wal_page_id r) rs) = (Inr b, f')"
  shows "rewrite_loop f (r # rs) stats =
    rewrite_loop f' (dropWhile (\<lambda>x. wal_page_id x = wal_page_id r) rs)
      (AList.update (wal_page_id r)
        \<lparr>stat_count = stat_count (stats_of stats (wal_page_id r)) +
            length (r # takeWhile (\<lambda>x. wal_page_id x = wal_page_id r) rs),
         stat_bytes = stat_bytes (stats_of stats (wal_page_id r)) + b\<rparr> stats)"
  by (subst rewrite_loop.simps) (simp only: Let_def assms prod.case sum.case)

lemma rewrite_loop_Cons:
  assumes "at_end f" and "group_ok (wal_page_id r, r # takeWhile (\<lambda>x. wal_page_id x = wal_page_id r) rs)"
  shows "rewrite_loop f (r # rs) stats =
    (let g = (wal_page_id r, r # takeWhile (\<lambda>x. wal_page_id x = wal_page_id r) rs)
     in rewrite_loop (extend f (enc_group g)) (dropWhile (\<lambda>x. wal_page_id x = wal_page_id r) rs) (add_group g stats))"
  unfolding Let_def add_group_def fst_conv snd_conv
  by (rule rewrite_loop_step[OF write_group_Cons[OF assms]])

lemma rewrite_loop_end:
  assumes "at_end f" and "\<forall>g \<in> set (page_runs rs). group_ok g"
  shows "rewrite_loop f rs stats = (Inr (fold add_group (page_runs rs) stats), extend f (enc_log (page_runs rs)))"
  using assms
proof (induction rs arbitrary: f stats rule: page_runs.induct)
  case 1
  then show ?case by (simp add: enc_log_def extend_Nil)
next
  case (2 r rs)
  have g: "group_ok (wal_page_id r, r # takeWhile (\<lambda>x. wal_page_id x = wal_page_id r) rs)"
    and gs: "\<forall>g \<in> set (page_runs (dropWhile (\<lambda>x. wal_page_id x = wal_page_id r) rs)). group_ok g"
    using 2(3) by simp_all
  show ?case
    unfolding rewrite_loop_Cons[OF 2(2) g] Let_def 2(1)[OF extend_simps(2) gs]
    by (simp add: enc_log_def)
qed

section \<open>The log invariant\<close>

text \<open>
  \<open>wal_rep st gs\<close>: the file holds a manifest and the groups \<open>gs\<close>, and the state in memory
  is what these groups stand for.
\<close>

definition stats_exact :: "(u64 \<times> LeafWalStats) list \<Rightarrow> (u64 \<times> WalRecord list) list \<Rightarrow> bool" where
  "stats_exact m gs \<longleftrightarrow>
    (\<forall>p. stats_of m p = \<lparr>stat_count = page_count p (concat (map snd gs)), stat_bytes = page_bytes_in p gs\<rparr>)"

definition wal_rep :: "WalState \<Rightarrow> (u64 \<times> WalRecord list) list \<Rightarrow> bool" where
  "wal_rep st gs \<longleftrightarrow>
    (\<forall>g \<in> set gs. group_ok g) \<and>
    (\<exists>m. fbytes (wal_file st) = manifest_buf m @ enc_log gs) \<and>
    wal_records st = concat (map snd gs) \<and> total_records st = length (wal_records st) \<and>
    stats_exact (leaf_counts st) gs"

definition wal_inv :: "WalState \<Rightarrow> bool" where
  "wal_inv st \<longleftrightarrow> (\<exists>gs. wal_rep st gs)"

lemma length_manifest_buf [simp]: "length (manifest_buf m) = 32"
  by (simp add: manifest_buf_def MANIFEST_MAGIC_def)

lemma enc_log_simps [simp]:
  "enc_log [] = []" "enc_log (g # gs) = enc_group g @ enc_log gs" "enc_log (gs @ hs) = enc_log gs @ enc_log hs"
  by (simp_all add: enc_log_def)

lemma page_bytes_in_simps [simp]:
  "page_bytes_in p [] = 0" "page_bytes_in p (gs @ hs) = page_bytes_in p gs + page_bytes_in p hs"
  "page_bytes_in p [g] = (if fst g = p then group_bytes g else 0)"
  by (simp_all add: page_bytes_in_def)

lemma page_count_simps [simp]: "page_count p [] = 0" "page_count p [r] = (if wal_page_id r = p then 1 else 0)"
  by (simp_all add: page_count_def)

lemma write_manifest_bytes:
  "32 \<le> length (fbytes f) \<Longrightarrow> fbytes (write_manifest f m) = manifest_buf m @ drop 32 (fbytes f)"
  by (simp add: write_manifest_def Let_def f_seek_def f_write_all_def)

section \<open>Appending\<close>

lemma single_group_ok: "record_ok r \<Longrightarrow> group_ok (wal_page_id r, [r])"
  by (simp add: group_ok_def)

lemma append_record_rep:
  assumes "wal_rep st gs" and "record_ok r"
  shows "\<exists>st'. append_record st r = (Inr (), st') \<and> wal_rep st' (gs @ [(wal_page_id r, [r])]) \<and>
    fbytes (wal_file st') = fbytes (wal_file st) @ enc_group (wal_page_id r, [r]) \<and>
    total_bytes st' = total_bytes st + group_bytes (wal_page_id r, [r])"
proof -
  let ?g = "(wal_page_id r, [r])"
  have "at_end (f_seek_end (wal_file st))" by (simp add: at_end_def f_seek_end_def)
  note w = write_group_Cons[OF this single_group_ok[OF assms(2)]]
  obtain m where m: "fbytes (wal_file st) = manifest_buf m @ enc_log gs"
    using assms(1) by (auto simp: wal_rep_def)
  have e: "fbytes (f_seek_end (wal_file st)) = fbytes (wal_file st)"
    by (simp add: f_seek_end_def)
  show ?thesis
    using assms single_group_ok[OF assms(2)]
    by (auto simp: append_record_def Let_def w e wal_rep_def m stats_exact_def stats_of_update count_record_def)
qed

section \<open>Checkpoints\<close>

lemma f_set_len_head:
  "fbytes f = manifest_buf m @ bs \<Longrightarrow> fbytes (f_set_len f MANIFEST_LEN) = manifest_buf m"
  by (simp add: f_set_len_def MANIFEST_LEN_def)

lemma rewrite_records_rep:
  assumes "fbytes f = manifest_buf m @ bs" and "\<forall>x \<in> set rs. record_ok x" and "int (length rs) < 2 ^ 32"
  shows "rewrite_records f rs = (Inr (fold add_group (page_runs rs) []),
    extend (f_seek (f_set_len f MANIFEST_LEN) MANIFEST_LEN) (enc_log (page_runs rs)))"
proof -
  have "at_end (f_seek (f_set_len f MANIFEST_LEN) MANIFEST_LEN)"
    using assms(1) by (simp add: at_end_def f_seek_def f_set_len_def MANIFEST_LEN_def)
  then show ?thesis
    unfolding rewrite_records_def Let_def by (rule rewrite_loop_end[OF _ page_runs_ok[OF assms(2,3)]])
qed

lemma wal_rep_records_ok:
  assumes "wal_rep st gs" shows "\<forall>x \<in> set (wal_records st). record_ok x"
  using assms by (auto simp: wal_rep_def group_ok_def)

lemma checkpoint_page_rep:
  assumes rep: "wal_rep st gs" and "int (length (wal_records st)) < 2 ^ 32"
  shows "\<exists>st' gs'. checkpoint_page st p = (Inr (), st') \<and> wal_rep st' gs' \<and>
    wal_records st' = filter (\<lambda>r. wal_page_id r \<noteq> p) (wal_records st) \<and>
    (st' = st \<or> MANIFEST_LEN + total_bytes st' = length (fbytes (wal_file st')))"
proof (cases "\<forall>r \<in> set (wal_records st). wal_page_id r \<noteq> p")
  case True
  then have "checkpoint_page st p = (Inr (), st)" by (simp add: checkpoint_page_def)
  with rep True show ?thesis by (auto simp: filter_True)
next
  case False
  define rs where "rs = filter (\<lambda>r. wal_page_id r \<noteq> p) (wal_records st)"
  define f where "f = extend (f_seek (f_set_len (wal_file st) MANIFEST_LEN) MANIFEST_LEN) (enc_log (page_runs rs))"
  define stats where "stats = fold add_group (page_runs rs) []"
  define total where "total = sum_list (map group_bytes (page_runs rs))"
  define mf where "mf = \<lparr>checkpoint_len = word_of_nat (MANIFEST_LEN + total)\<rparr>"
  obtain m where m: "fbytes (wal_file st) = manifest_buf m @ enc_log gs"
    using rep by (auto simp: wal_rep_def)
  have ok: "\<forall>x \<in> set rs. record_ok x" using wal_rep_records_ok[OF rep] by (simp add: rs_def)
  have len: "int (length rs) < 2 ^ 32"
    using assms(2) length_filter_le[of "\<lambda>r. wal_page_id r \<noteq> p" "wal_records st"] unfolding rs_def by linarith
  have rw: "rewrite_records (wal_file st) rs = (Inr stats, f)"
    unfolding f_def stats_def by (rule rewrite_records_rep[OF m ok len])
  have tot: "foldl (\<lambda>acc s. acc + stat_bytes (snd s)) 0 stats = total"
    using sum_bytes_add_groups[of "[]" "page_runs rs"] by (simp add: foldl_sum stats_def total_def)
  have fb: "fbytes f = manifest_buf m @ enc_log (page_runs rs)"
    using f_set_len_head[OF m] by (simp add: f_def f_seek_def)
  define st' where "st' = st\<lparr>wal_records := rs, wal_file := f_seek_end (write_manifest f mf), leaf_counts := stats,
      total_records := length rs, total_bytes := total, manifest := mf\<rparr>"
  have "checkpoint_page st p = (Inr (), st')"
    unfolding checkpoint_page_def if_not_P[OF False] Let_def
    by (simp add: rs_def [symmetric] rw tot mf_def st'_def)
  moreover have "fbytes (wal_file st') = manifest_buf mf @ enc_log (page_runs rs)"
    by (simp add: st'_def f_seek_end_def write_manifest_bytes fb)
  moreover have "stats_exact stats (page_runs rs)"
    using page_runs_ok[OF ok len] by (simp add: stats_exact_def stats_def stats_add_groups)
  ultimately show ?thesis
    using page_runs_ok[OF ok len]
    by (intro exI[of _ st'] exI[of _ "page_runs rs"])
      (auto simp: wal_rep_def st'_def concat_page_runs length_enc_log total_def MANIFEST_LEN_def rs_def)
qed

lemma clear_rep:
  assumes "wal_rep st gs" shows "wal_rep (WalManager_clear st) []"
proof -
  obtain m where m: "fbytes (wal_file st) = manifest_buf m @ enc_log gs"
    using assms by (auto simp: wal_rep_def)
  show ?thesis
    using f_set_len_head[OF m]
    by (auto simp: WalManager_clear_def wal_rep_def Let_def f_seek_end_def write_manifest_bytes stats_exact_def)
qed

section \<open>Opening\<close>

lemma read_at_manifest:
  "take 4 (manifest_buf m) = MANIFEST_MAGIC" "u32_from_le_bytes (read_at (manifest_buf m) 4 4) = MANIFEST_VERSION"
  "u64_from_le_bytes (read_at (manifest_buf m) 8 8) = checkpoint_len m"
  by (simp_all add: manifest_buf_def MANIFEST_MAGIC_def read_at_def)

lemma read_manifest_rep:
  assumes "fbytes f = manifest_buf m @ bs"
  shows "read_manifest f = (\<lparr>checkpoint_len = max (checkpoint_len m) (word_of_nat MANIFEST_LEN)\<rparr>, f_seek f MANIFEST_LEN)"
  using assms read_at_manifest[of m]
  by (simp add: read_manifest_def Let_def MANIFEST_LEN_def WalManifest_new_def)

text \<open>
  Opening a log whose tail is no complete group keeps the groups and drops the tail; the
  records \<open>ts\<close> read from the torn tail are in memory only.
\<close>

lemma open_parts:
  assumes f: "fbytes f = manifest_buf m @ enc_log gs @ tail" and ok: "\<forall>g \<in> set gs. group_ok g"
    and tail: "\<And>pb. read_groups tail pb = (ts, pb, tail)"
  defines "st \<equiv> WalManager_open f" and "pb \<equiv> fold (\<lambda>g. add_bytes (fst g) (group_bytes g)) gs []"
  shows "wal_records st = concat (map snd gs) @ ts" "total_records st = length (wal_records st)"
    "total_bytes st = MANIFEST_LEN + length (enc_log gs)"
    "leaf_counts st = fold set_bytes pb (fold count_record (wal_records st) [])"
    "\<exists>m'. fbytes (wal_file st) = manifest_buf m' @ enc_log gs"
proof -
  define rs where "rs = concat (map snd gs) @ ts"
  define vl where "vl = MANIFEST_LEN + length (enc_log gs)"
  define mf where "mf = \<lparr>checkpoint_len = max (checkpoint_len m) (word_of_nat MANIFEST_LEN)\<rparr>"
  define f1 where "f1 = f_seek (f_seek f MANIFEST_LEN) (max MANIFEST_LEN (length (fbytes f)))"
  define f2 where "f2 = (if vl < length (fbytes f1) then f_set_len f1 vl else f1)"
  have rg: "read_groups (enc_log gs @ tail) [] = (rs, pb, tail)"
    using read_groups_log[OF ok, of tail "[]"] tail by (simp add: pb_def rs_def)
  have rr: "read_records (f_seek f MANIFEST_LEN) = (rs, pb, vl, f1)"
    using rg f by (simp add: read_records_def Let_def MANIFEST_LEN_def f_seek_def vl_def f1_def)
  have f2: "fbytes f2 = manifest_buf m @ enc_log gs"
    using f by (auto simp: f2_def f1_def vl_def f_set_len_def f_seek_def MANIFEST_LEN_def)
  have st: "wal_records st = rs" "total_records st = length rs"
    "total_bytes st = vl" "leaf_counts st = fold set_bytes pb (fold count_record rs [])"
    "wal_file st = f_seek_end (if word_of_nat vl < checkpoint_len mf
        then write_manifest f2 (mf\<lparr>checkpoint_len := word_of_nat vl\<rparr>) else f2)"
    unfolding st_def WalManager_open_def Let_def read_manifest_rep[OF f] mf_def [symmetric] rr prod.case
    by (simp_all add: f2_def split: prod.split)
  then show "wal_records st = concat (map snd gs) @ ts" "total_records st = length (wal_records st)"
    "total_bytes st = MANIFEST_LEN + length (enc_log gs)"
    "leaf_counts st = fold set_bytes pb (fold count_record (wal_records st) [])"
    by (simp_all add: rs_def vl_def)
  show "\<exists>m'. fbytes (wal_file st) = manifest_buf m' @ enc_log gs"
    by (auto simp: st(5) f_seek_end_def write_manifest_bytes f2)
qed

lemma open_rep:
  assumes f: "fbytes f = manifest_buf m @ enc_log gs @ tail" and ok: "\<forall>g \<in> set gs. group_ok g"
    and tail: "\<And>pb. read_groups tail pb = ([], pb, tail)"
  shows "wal_rep (WalManager_open f) gs" "total_bytes (WalManager_open f) = MANIFEST_LEN + length (enc_log gs)"
proof -
  define pb where "pb = fold (\<lambda>g. add_bytes (fst g) (group_bytes g)) gs []"
  define st where "st = WalManager_open f"
  note parts = open_parts[OF f ok tail, folded st_def pb_def]
  have pbm: "case_option 0 id (map_of pb p) = page_bytes_in p gs" for p
    using map_of_fold_add_bytes[of gs "[]" p] by (simp add: pb_def)
  have "distinct (map fst pb)" unfolding pb_def by (rule distinct_fold_add_bytes) simp
  then have "stats_exact (leaf_counts st) gs"
    unfolding stats_exact_def parts(4) pbm [symmetric]
    by (simp add: parts(1) stats_set_bytes stats_count_records split: option.split)
  with parts ok show "wal_rep (WalManager_open f) gs"
    unfolding st_def [symmetric] by (simp add: wal_rep_def)
  show "total_bytes (WalManager_open f) = MANIFEST_LEN + length (enc_log gs)"
    using parts(3) by (simp add: st_def)
qed

section \<open>The contract of a durable log\<close>

fun run_appends :: "('s \<Rightarrow> 'r \<Rightarrow> unit result \<times> 's) \<Rightarrow> 's \<Rightarrow> 'r list \<Rightarrow> unit result \<times> 's" where
  "run_appends app s [] = (Inr (), s)"
| "run_appends app s (r # rs) =
    (case app s r of (Inl e, s) \<Rightarrow> (Inl e, s) | (Inr _, s) \<Rightarrow> run_appends app s rs)"

text \<open>
  What the store relies on: an append adds its record to the log and its bytes to the disk;
  recovery from the disk gives the log back, and recovery from a disk that lost part of the
  last append gives the log before it.
\<close>

locale durable_log =
  fixes inv :: "'s \<Rightarrow> bool" and recs :: "'s \<Rightarrow> 'r list" and ok :: "'r \<Rightarrow> bool"
    and app :: "'s \<Rightarrow> 'r \<Rightarrow> unit result \<times> 's" and disk :: "'s \<Rightarrow> bytes" and recover :: "bytes \<Rightarrow> 's"
  assumes append_ok: "inv s \<Longrightarrow> ok r \<Longrightarrow>
      \<exists>s' bs. app s r = (Inr (), s') \<and> inv s' \<and> recs s' = recs s @ [r] \<and> disk s' = disk s @ bs"
    and recover_ok: "inv s \<Longrightarrow> inv (recover (disk s)) \<and> recs (recover (disk s)) = recs s"
    and recover_torn: "inv s \<Longrightarrow> ok r \<Longrightarrow> app s r = (Inr (), s') \<Longrightarrow> length (disk s) \<le> n \<Longrightarrow>
      n < length (disk s') \<Longrightarrow> recs (recover (take n (disk s'))) = recs s"
begin

lemma appends_ok:
  "inv s \<Longrightarrow> \<forall>r \<in> set rs. ok r \<Longrightarrow>
    \<exists>s' bs. run_appends app s rs = (Inr (), s') \<and> inv s' \<and> recs s' = recs s @ rs \<and> disk s' = disk s @ bs"
proof (induction rs arbitrary: s)
  case (Cons r rs)
  then obtain s1 bs1 where s1: "app s r = (Inr (), s1)" "inv s1" "recs s1 = recs s @ [r]" "disk s1 = disk s @ bs1"
    using append_ok[of s r] by auto
  with Cons show ?case using Cons.IH[OF s1(2)] by auto
qed auto

lemma crash_gives_prefix:
  assumes "inv s" "\<forall>r \<in> set rs. ok r" "run_appends app s rs = (Inr (), s')"
    and "length (disk s) \<le> n" "n \<le> length (disk s')"
  shows "\<exists>k \<le> length rs. recs (recover (take n (disk s'))) = recs s @ take k rs"
  using assms
proof (induction rs arbitrary: s)
  case Nil
  then show ?case using recover_ok[of s] by auto
next
  case (Cons r rs)
  then obtain s1 bs1 where s1: "app s r = (Inr (), s1)" "inv s1" "recs s1 = recs s @ [r]" "disk s1 = disk s @ bs1"
    using append_ok[of s r] by auto
  have run: "run_appends app s1 rs = (Inr (), s')" using Cons.prems(3) s1(1) by simp
  obtain bs where bs: "disk s' = disk s1 @ bs"
    using appends_ok[OF s1(2), of rs] Cons.prems(2) run by auto
  show ?case
  proof (cases "n < length (disk s1)")
    case True
    then have "take n (disk s') = take n (disk s1)" by (simp add: bs)
    then have "recs (recover (take n (disk s'))) = recs s @ take 0 (r # rs)"
      using recover_torn[OF Cons.prems(1) _ s1(1) Cons.prems(4) True] Cons.prems(2) by simp
    then show ?thesis by blast
  next
    case False
    then obtain k where "k \<le> length rs" "recs (recover (take n (disk s'))) = recs s1 @ take k rs"
      using Cons.IH[OF s1(2) _ run _ Cons.prems(5)] Cons.prems(2) by auto
    with s1(3) show ?thesis by (intro exI[of _ "Suc k"]) simp
  qed
qed

end

definition log_disk :: "WalState \<Rightarrow> bytes" where
  "log_disk st = fbytes (wal_file st)"

definition log_recover :: "bytes \<Rightarrow> WalState" where
  "log_recover bs = WalManager_open \<lparr>fbytes = bs, fpos = 0\<rparr>"

lemma read_groups_Nil: "read_groups [] pb = ([], pb, [])"
  by (rule read_groups_stop) (simp add: GROUP_HEADER_LEN_def)

lemma recover_rep:
  assumes "wal_rep st gs"
  shows "wal_rep (log_recover (log_disk st)) gs"
proof -
  obtain m where "fbytes (wal_file st) = manifest_buf m @ enc_log gs" using assms by (auto simp: wal_rep_def)
  then show ?thesis
    using assms open_rep(1)[of "\<lparr>fbytes = log_disk st, fpos = 0\<rparr>" m gs "[]"]
    by (simp add: wal_rep_def log_recover_def log_disk_def read_groups_Nil)
qed

lemma torn_rep:
  assumes rep: "wal_rep st gs" and r: "record_ok r" and ap: "append_record st r = (Inr (), st')"
    and n: "length (log_disk st) \<le> n" "n < length (log_disk st')"
  shows "wal_rep (log_recover (take n (log_disk st'))) gs"
proof -
  obtain m where m: "log_disk st = manifest_buf m @ enc_log gs" using rep by (auto simp: wal_rep_def log_disk_def)
  define g where "g = enc_group (wal_page_id r, [r])"
  have d: "log_disk st' = log_disk st @ g"
    using append_record_rep[OF rep r] ap by (auto simp: log_disk_def g_def)
  define k where "k = n - length (log_disk st)"
  have t: "take n (log_disk st') = manifest_buf m @ enc_log gs @ take k g" and k: "k < length g"
  proof -
    have "take n (log_disk st @ g) = log_disk st @ take k g" using n(1) by (simp add: k_def)
    then show "take n (log_disk st') = manifest_buf m @ enc_log gs @ take k g"
      by (simp only: d m append_assoc)
    show "k < length g" using n by (simp add: d k_def)
  qed
  have ok: "\<forall>g \<in> set gs. group_ok g" using rep by (simp add: wal_rep_def)
  have "read_groups (take k g) pb = ([], pb, take k g)" for pb
    using read_truncated_group[OF r] k unfolding g_def by blast
  moreover have "fbytes \<lparr>fbytes = take n (log_disk st'), fpos = 0\<rparr> = manifest_buf m @ enc_log gs @ take k g"
    by (simp only: File.select_convs t)
  ultimately show ?thesis unfolding log_recover_def by (intro open_rep(1)[OF _ ok])
qed

interpretation wal_log: durable_log wal_inv wal_records record_ok append_record log_disk log_recover
proof unfold_locales
  show "\<exists>st' bs. append_record st r = (Inr (), st') \<and> wal_inv st' \<and> wal_records st' = wal_records st @ [r] \<and>
      log_disk st' = log_disk st @ bs" if i: "wal_inv st" and r: "record_ok r" for st r
  proof -
    obtain gs where gs: "wal_rep st gs" using i by (auto simp: wal_inv_def)
    obtain st' where st': "append_record st r = (Inr (), st')" "wal_rep st' (gs @ [(wal_page_id r, [r])])"
        "fbytes (wal_file st') = fbytes (wal_file st) @ enc_group (wal_page_id r, [r])"
      using append_record_rep[OF gs r] by blast
    moreover have "wal_records st' = wal_records st @ [r]" using gs st'(2) by (simp add: wal_rep_def)
    ultimately show ?thesis unfolding wal_inv_def log_disk_def by blast
  qed
  show "wal_inv (log_recover (log_disk st)) \<and> wal_records (log_recover (log_disk st)) = wal_records st"
    if i: "wal_inv st" for st
  proof -
    obtain gs where gs: "wal_rep st gs" using i by (auto simp: wal_inv_def)
    with recover_rep[OF gs] show ?thesis by (auto simp: wal_inv_def wal_rep_def)
  qed
  show "wal_records (log_recover (take n (log_disk st'))) = wal_records st"
    if i: "wal_inv st" and r: "record_ok r" "append_record st r = (Inr (), st')" "length (log_disk st) \<le> n"
      "n < length (log_disk st')" for st r st' n
  proof -
    obtain gs where gs: "wal_rep st gs" using i by (auto simp: wal_inv_def)
    with torn_rep[OF gs r] show ?thesis by (simp add: wal_rep_def)
  qed
qed

section \<open>Grouping by page\<close>

lemma records_grouped_fold:
  "map_of (fold (\<lambda>r m. AList.update (wal_page_id r)
        ((case map_of m (wal_page_id r) of None \<Rightarrow> [] | Some rs \<Rightarrow> rs) @ [r]) m) rs m) p =
    (if \<exists>r \<in> set rs. wal_page_id r = p
     then Some (case_option [] id (map_of m p) @ filter (\<lambda>r. wal_page_id r = p) rs) else map_of m p)"
proof (induction rs arbitrary: m)
  case (Cons r rs)
  show ?case unfolding fold_Cons o_apply Cons by (auto simp: update_conv' split: option.split)
qed simp

lemma read_torn_pair:
  assumes "record_ok r1" "record_ok r2" "wal_page_id r1 = pid" "wal_page_id r2 = pid" "n < length (enc_record r2)"
  shows "read_groups (GROUP_MARKER # u64_to_le_bytes pid @ u32_to_le_bytes 2 @ enc_record r1 @ take n (enc_record r2)) pb =
    ([r1], pb, GROUP_MARKER # u64_to_le_bytes pid @ u32_to_le_bytes 2 @ enc_record r1 @ take n (enc_record r2))"
proof -
  have "parse_group_records 2 pid (enc_record r1 @ take n (enc_record r2)) =
      (False, [r1], record_size r1, take n (enc_record r2))"
    using parse_enc_record[OF assms(1,3)] parse_truncated_record[OF assms(2,4,5)] by (simp add: numeral_2_eq_2)
  then show ?thesis by (subst read_groups.simps) (simp add: GROUP_HEADER_LEN_def Let_def)
qed

section \<open>Properties\<close>

definition empty_log :: WalState where
  "empty_log = WalManager_open \<lparr>fbytes = manifest_buf WalManifest_new, fpos = 0\<rparr>"

lemma empty_log_rep: "wal_rep empty_log []"
  unfolding empty_log_def by (rule open_rep(1)[where tail = "[]" and m = WalManifest_new]) (simp_all add: read_groups_Nil)

lemma empty_log_inv: "wal_inv empty_log" "wal_records empty_log = []"
  using empty_log_rep unfolding wal_inv_def by blast (use empty_log_rep in \<open>simp add: wal_rep_def\<close>)

definition put_record :: "u64 \<Rightarrow> bytes \<Rightarrow> bytes \<Rightarrow> WalRecord" where
  "put_record page key v = \<lparr>wal_page_id = page, wal_key = key, wal_lower_fence = [0], wal_upper_fence = [255],
    wal_kind = Redo, wal_txn_id = 1, wal_op = Put v\<rparr>"

lemma put_record_ok: "length key < 100 \<Longrightarrow> length v < 100 \<Longrightarrow> record_ok (put_record page key v)"
  by (simp add: record_ok_def put_record_def)

text \<open>C7: Recovery after a crash returns a prefix of what was appended.  Take a log that
  satisfies the invariant, append any records, and cut the file anywhere after the old end:
  opening what is left gives the old records and the first \<open>k\<close> new ones for some \<open>k\<close>.\<close>

theorem wal_crash_prefix:
  assumes "wal_inv st" and "\<forall>r \<in> set rs. record_ok r" and "run_appends append_record st rs = (Inr (), st')"
    and "length (log_disk st) \<le> n" and "n \<le> length (log_disk st')"
  shows "\<exists>k \<le> length rs. wal_records (log_recover (take n (log_disk st'))) = wal_records st @ take k rs"
  using assms by (rule wal_log.crash_gives_prefix)

theorem wal_crash_prefix_witness:
  "\<exists>st'. run_appends append_record empty_log [put_record 7 [5] [1]] = (Inr (), st') \<and>
    (\<exists>k \<le> 1. wal_records (log_recover (take (length (log_disk st') - 1) (log_disk st'))) = take k [put_record 7 [5] [1]])"
proof -
  have ok: "\<forall>r \<in> set [put_record 7 [5] [1]]. record_ok r" by (simp add: put_record_ok)
  obtain st' where st': "append_record empty_log (put_record 7 [5] [1]) = (Inr (), st')"
      "fbytes (wal_file st') = fbytes (wal_file empty_log) @ enc_group (wal_page_id (put_record 7 [5] [1]), [put_record 7 [5] [1]])"
    using append_record_rep[OF empty_log_rep, of "put_record 7 [5] [1]"] ok by auto
  have run: "run_appends append_record empty_log [put_record 7 [5] [1]] = (Inr (), st')" using st'(1) by simp
  have "length (log_disk empty_log) \<le> length (log_disk st') - 1"
    using st'(2) by (simp add: log_disk_def enc_group_def)
  with wal_crash_prefix[OF empty_log_inv(1) ok run] run show ?thesis
    by (auto simp: empty_log_inv)
qed

text \<open>C10: The operations of the log manager keep its invariant: the file holds exactly the
  records in memory and the per-page statistics count them and their bytes.  An append adds
  its record at the end, a checkpoint of a page removes the records of that page and nothing
  else, and clearing leaves no record.\<close>

theorem wal_operations_keep_log:
  assumes "wal_inv st" and "record_ok r" and "int (length (wal_records st)) < 2 ^ 32"
  shows "(\<exists>st'. append_record st r = (Inr (), st') \<and> wal_inv st' \<and> wal_records st' = wal_records st @ [r]) \<and>
    (\<exists>st'. checkpoint_page st p = (Inr (), st') \<and> wal_inv st' \<and>
       wal_records st' = filter (\<lambda>r. wal_page_id r \<noteq> p) (wal_records st)) \<and>
    wal_inv (WalManager_clear st) \<and> wal_records (WalManager_clear st) = []"
proof -
  obtain gs where gs: "wal_rep st gs" using assms(1) by (auto simp: wal_inv_def)
  have "\<exists>st'. append_record st r = (Inr (), st') \<and> wal_inv st' \<and> wal_records st' = wal_records st @ [r]"
    using wal_log.append_ok[OF assms(1,2)] by blast
  moreover have "\<exists>st'. checkpoint_page st p = (Inr (), st') \<and> wal_inv st' \<and>
       wal_records st' = filter (\<lambda>r. wal_page_id r \<noteq> p) (wal_records st)"
    using checkpoint_page_rep[OF gs assms(3)] unfolding wal_inv_def by blast
  moreover have "wal_inv (WalManager_clear st) \<and> wal_records (WalManager_clear st) = []"
    using clear_rep[OF gs] unfolding wal_inv_def by (auto simp: WalManager_clear_def Let_def)
  ultimately show ?thesis by blast
qed

theorem wal_operations_keep_log_witness:
  "wal_inv empty_log \<and> record_ok (put_record 7 [5] [1]) \<and>
    (\<exists>st'. append_record empty_log (put_record 7 [5] [1]) = (Inr (), st') \<and> wal_records st' = [put_record 7 [5] [1]])"
  using wal_operations_keep_log[OF empty_log_inv(1) put_record_ok, of "[5]" "[1]" 7] by (auto simp: empty_log_inv put_record_ok)

text \<open>Reopening a log gives back its records in order and the record and byte counts of
  every page.\<close>

theorem wal_reopen_same:
  assumes "wal_inv st"
  shows "wal_records (log_recover (log_disk st)) = wal_records st \<and>
    total_records (log_recover (log_disk st)) = total_records st \<and>
    stats_of (leaf_counts (log_recover (log_disk st))) p = stats_of (leaf_counts st) p"
proof -
  obtain gs where gs: "wal_rep st gs" using assms by (auto simp: wal_inv_def)
  with recover_rep[OF gs] show ?thesis by (simp add: wal_rep_def stats_exact_def)
qed

theorem wal_reopen_same_witness:
  "wal_records (log_recover (log_disk empty_log)) = []"
  using wal_reopen_same[OF empty_log_inv(1)] by (simp add: empty_log_inv)

text \<open>A group of several records that lost its tail is recovered inconsistently: the
  records before the tear are returned to the caller, but the file is cut before the group,
  so the next opening no longer has them.\<close>

theorem torn_group_half_kept:
  assumes "record_ok r1" "record_ok r2" "wal_page_id r1 = pid" "wal_page_id r2 = pid"
    and "n < length (enc_record r2)" and "k = GROUP_HEADER_LEN + length (enc_record r1) + n"
  shows "wal_records (log_recover (manifest_buf m @ take k (enc_group (pid, [r1, r2])))) = [r1] \<and>
    wal_records (log_recover (log_disk (log_recover (manifest_buf m @ take k (enc_group (pid, [r1, r2])))))) = []"
proof -
  let ?h = "GROUP_MARKER # u64_to_le_bytes pid @ u32_to_le_bytes 2 @ enc_record r1"
  let ?t = "?h @ take n (enc_record r2)" and ?f = "\<lparr>fbytes = manifest_buf m @ take k (enc_group (pid, [r1, r2])), fpos = 0\<rparr>"
  have "enc_group (pid, [r1, r2]) = ?h @ enc_record r2" "length ?h = GROUP_HEADER_LEN + length (enc_record r1)"
    by (simp_all add: enc_group_def GROUP_HEADER_LEN_def)
  then have t: "take k (enc_group (pid, [r1, r2])) = ?t" by (simp only: take_append assms(6)) simp
  have torn: "read_groups ?t pb = ([r1], pb, ?t)" for pb using read_torn_pair[OF assms(1-5)] by simp
  have f: "fbytes ?f = manifest_buf m @ enc_log [] @ ?t" by (simp only: File.select_convs t enc_log_simps append_Nil)
  note parts = open_parts[OF f _ torn]
  obtain m' where m': "log_disk (log_recover (fbytes ?f)) = manifest_buf m' @ enc_log [] @ []"
    using parts(5) by (auto simp: log_recover_def log_disk_def)
  have "wal_records (log_recover (log_disk (log_recover (fbytes ?f)))) = []"
    using open_parts(1)[of "\<lparr>fbytes = log_disk (log_recover (fbytes ?f)), fpos = 0\<rparr>" m' "[]" "[]" "[]"] m'
    by (simp add: log_recover_def read_groups_Nil)
  with parts(1) show ?thesis by (simp add: log_recover_def)
qed

theorem torn_group_half_kept_witness:
  "wal_records (log_recover (manifest_buf WalManifest_new @
      take (GROUP_HEADER_LEN + length (enc_record (put_record 7 [5] [1])) + 3)
        (enc_group (7, [put_record 7 [5] [1], put_record 7 [6] [2]])))) = [put_record 7 [5] [1]]"
  using torn_group_half_kept[OF put_record_ok put_record_ok, of "[5]" "[1]" "[6]" "[2]" 7 7 7 3 _ WalManifest_new]
  by (simp add: put_record_def length_enc_record record_size_def)

text \<open>The records of a page under \<open>records_grouped\<close> are the log's records of that page
  in log order, and pages without records have no entry.\<close>

theorem records_grouped_spec:
  "map_of (records_grouped st) p =
    (let rs = filter (\<lambda>r. wal_page_id r = p) (wal_records st) in if rs = [] then None else Some rs)"
  by (simp add: records_grouped_def records_grouped_fold Let_def filter_empty_conv)

text \<open>The byte count differs between a running and a reopened log: after a checkpoint
  that rewrote the file the counter excludes the manifest, and opening the same file counts
  its 32 bytes as well.\<close>

theorem reopened_log_counts_manifest:
  assumes "wal_inv st" and "int (length (wal_records st)) < 2 ^ 32" and "\<exists>r \<in> set (wal_records st). wal_page_id r = p"
  shows "\<exists>st'. checkpoint_page st p = (Inr (), st') \<and> total_bytes (log_recover (log_disk st')) = total_bytes st' + MANIFEST_LEN"
proof -
  obtain gs where gs: "wal_rep st gs" using assms(1) by (auto simp: wal_inv_def)
  obtain st' gs' where st': "checkpoint_page st p = (Inr (), st')" "wal_rep st' gs'"
      "wal_records st' = filter (\<lambda>r. wal_page_id r \<noteq> p) (wal_records st)"
      "st' = st \<or> MANIFEST_LEN + total_bytes st' = length (fbytes (wal_file st'))"
    using checkpoint_page_rep[OF gs assms(2)] by blast
  have "st' \<noteq> st" using st'(3) assms(3) by (metis (mono_tags, lifting) filter_id_conv)
  with st'(4) have t: "MANIFEST_LEN + total_bytes st' = length (log_disk st')" by (simp add: log_disk_def)
  obtain m where m: "log_disk st' = manifest_buf m @ enc_log gs'" "\<forall>g \<in> set gs'. group_ok g"
    using st'(2) by (auto simp: wal_rep_def log_disk_def)
  have "total_bytes (log_recover (log_disk st')) = MANIFEST_LEN + length (enc_log gs')"
    unfolding log_recover_def by (rule open_rep(2)[of _ m gs' "[]"]) (simp_all add: m read_groups_Nil)
  with t m(1) st'(1) show ?thesis by (simp add: MANIFEST_LEN_def)
qed

theorem reopened_log_counts_manifest_witness:
  "\<exists>st st'. append_record empty_log (put_record 7 [5] [1]) = (Inr (), st) \<and> checkpoint_page st 7 = (Inr (), st') \<and>
    total_bytes (log_recover (log_disk st')) = total_bytes st' + MANIFEST_LEN"
proof -
  obtain st where st: "append_record empty_log (put_record 7 [5] [1]) = (Inr (), st)" "wal_inv st"
      "wal_records st = [put_record 7 [5] [1]]"
    using wal_log.append_ok[OF empty_log_inv(1) put_record_ok, of "[5]" "[1]" 7] by (auto simp: empty_log_inv)
  have "\<exists>r \<in> set (wal_records st). wal_page_id r = 7" by (simp add: st(3) put_record_def)
  with reopened_log_counts_manifest[OF st(2) _ this] st(1,3) show ?thesis by auto
qed

end
