(* ===== verification/Map_Table.thy ===== *)
theory Map_Table
  imports Types
begin

text \<open>
  map_table.rs: the page table.  Every leaf page has one 64-bit entry with the address of the
  page, a leaf flag, a write-pending flag and a 14-bit lock state: the number of readers, or
  all ones for a writer.

  The lock operations are retry loops around atomic instructions on the entry.  Each loop is
  given as its iteration, which makes at most one access to the shared word: it takes the
  local state of the thread and the word, and returns both.  \<open>page_step\<close> interleaves the
  iterations of any number of threads; a weak compare-and-exchange may fail for no reason, so
  an iteration also takes the flag that says whether it does.  The loops run to completion
  without interference are the sequential operations that the single-threaded models use.
\<close>

section \<open>Page entries\<close>

type_synonym page_entry = u64

text \<open>The caret of lib.rs is the exclusive or of Rust.\<close>

definition SPIN_RETRIES :: nat where "SPIN_RETRIES = 2 XOR 12"

definition WRITE_LOCK_STATE :: u16 where "WRITE_LOCK_STATE = push_bit 14 1 - 1"

definition PageEntry_state :: "page_entry \<Rightarrow> u16" where
  "PageEntry_state e = ucast e AND WRITE_LOCK_STATE"

definition PageEntry_set_state :: "page_entry \<Rightarrow> u16 \<Rightarrow> page_entry" where
  "PageEntry_set_state e new_state = (e AND NOT (ucast WRITE_LOCK_STATE)) OR ucast new_state"

definition PageEntry_pending_write :: "page_entry \<Rightarrow> bool" where
  "PageEntry_pending_write e \<longleftrightarrow> drop_bit 14 e AND 1 = 1"

definition PageEntry_set_pending_write :: "page_entry \<Rightarrow> bool \<Rightarrow> page_entry" where
  "PageEntry_set_pending_write e new = (e AND NOT (push_bit 14 1)) OR push_bit 14 (of_bool new)"

definition PageEntry_new_write_locked :: "nat \<Rightarrow> page_entry" where
  "PageEntry_new_write_locked index = PageEntry_set_state (push_bit 16 (word_of_nat index)) WRITE_LOCK_STATE"

definition PageEntry_leaf :: "u64 \<Rightarrow> page_entry" where
  "PageEntry_leaf addr = push_bit 16 addr OR push_bit 15 1"

definition PageEntry_get_ref :: "page_entry \<Rightarrow> NodeRef" where
  "PageEntry_get_ref e =
    (let is_leaf = (drop_bit 15 e AND 1 = 1); addr = drop_bit 16 e
     in if is_leaf then Leaf addr else MiniPage (unat addr))"

section \<open>The table\<close>

record MapTable =
  indirection_arr :: "page_entry list"
  next_free :: nat

definition MapTable_new :: "nat \<Rightarrow> MapTable" where
  "MapTable_new leaf_upper_bound = \<lparr>indirection_arr = replicate leaf_upper_bound 0, next_free = 0\<rparr>"

definition MapTable_capacity :: "MapTable \<Rightarrow> nat" where
  "MapTable_capacity t = length (indirection_arr t)"

definition get_entry :: "MapTable \<Rightarrow> nat \<Rightarrow> page_entry" where
  "get_entry t page = indirection_arr t ! page"

definition set_entry :: "MapTable \<Rightarrow> nat \<Rightarrow> page_entry \<Rightarrow> MapTable" where
  "set_entry t page e = t\<lparr>indirection_arr := (indirection_arr t)[page := e]\<rparr>"

definition init_leaf_entry :: "MapTable \<Rightarrow> u64 \<Rightarrow> nat result \<times> MapTable" where
  "init_leaf_entry t disk_addr =
    (if MapTable_capacity t = 0 then (Inl (Panic PanicTodo), t)
     else (Inr 0, (set_entry t 0 (PageEntry_leaf disk_addr))\<lparr>next_free := 1\<rparr>))"

text \<open>The result is the page of the write guard together with the entry the guard keeps.\<close>

definition create_page_entry :: "MapTable \<Rightarrow> nat \<Rightarrow> (nat \<times> page_entry) result \<times> MapTable" where
  "create_page_entry t node =
    (let target_idx = next_free t;
         t = t\<lparr>next_free := target_idx + 1\<rparr>
     in
       if MapTable_capacity t \<le> target_idx then (Inl (Panic PanicTodo), t)
       else
         let val = PageEntry_new_write_locked node
         in (Inr (target_idx, val), set_entry t target_idx val))"

definition has_entry :: "MapTable \<Rightarrow> nat \<Rightarrow> bool" where
  "has_entry t page = (if MapTable_capacity t \<le> page then False else get_entry t page \<noteq> 0)"

section \<open>Lock loops\<close>

text \<open>
  The local state of a thread: idle, in a loop with the tries that are left and the entry it
  last saw, or holding a guard with the entry the guard keeps.
\<close>

datatype lock_pc =
    Idle
  | Reading nat page_entry
  | Writing nat page_entry
  | ReadGuard page_entry
  | WriteGuard page_entry
  | Upgrading nat page_entry page_entry
  | DropRead page_entry
  | DropWrite page_entry
  | Downgrading page_entry page_entry
  | LockFailed

text \<open>
  Compare-and-exchange on the shared word: the previous value and whether the exchange took
  place.
\<close>

definition compare_exchange :: "bool \<Rightarrow> u64 \<Rightarrow> u64 \<Rightarrow> u64 \<Rightarrow> bool \<times> u64" where
  "compare_exchange spurious w expected new =
    (if w = expected \<and> \<not> spurious then (True, new) else (False, w))"

definition read_page_entry_iter :: "bool \<Rightarrow> nat \<Rightarrow> page_entry \<Rightarrow> u64 \<Rightarrow> lock_pc \<times> u64" where
  "read_page_entry_iter spurious tries entry w =
    (case tries of
       0 \<Rightarrow> (LockFailed, w)
     | Suc n \<Rightarrow>
         if PageEntry_pending_write entry then (Reading n entry, w)
         else
           let lock_state = PageEntry_state entry in
           if WRITE_LOCK_STATE \<le> lock_state then (Reading n w, w)
           else
             let new = PageEntry_set_state entry (lock_state + 1) in
             case compare_exchange spurious w entry new of
               (True, w') \<Rightarrow> (ReadGuard entry, w')
             | (False, w') \<Rightarrow> (Reading n w, w'))"

definition write_page_entry_iter :: "bool \<Rightarrow> nat \<Rightarrow> page_entry \<Rightarrow> u64 \<Rightarrow> lock_pc \<times> u64" where
  "write_page_entry_iter spurious tries entry w =
    (case tries of
       0 \<Rightarrow> (LockFailed, w)
     | Suc n \<Rightarrow>
         if PageEntry_state entry = 0 then
           let new = PageEntry_set_pending_write (PageEntry_set_state entry WRITE_LOCK_STATE) False in
           case compare_exchange spurious w entry new of
             (True, w') \<Rightarrow> (WriteGuard entry, w')
           | (False, w') \<Rightarrow> (Writing n w, w')
         else if \<not> PageEntry_pending_write entry then
           let new = PageEntry_set_pending_write entry True in
           case compare_exchange spurious w entry new of
             (True, w') \<Rightarrow> (Writing n entry, w')
           | (False, w') \<Rightarrow> (Writing n w, w')
         else (Writing n w, w))"

definition upgrade_iter :: "nat \<Rightarrow> page_entry \<Rightarrow> page_entry \<Rightarrow> u64 \<Rightarrow> lock_pc \<times> u64" where
  "upgrade_iter tries node entry w =
    (case tries of
       0 \<Rightarrow> (ReadGuard node, w)
     | Suc n \<Rightarrow>
         if PageEntry_state entry = 1 then
           let new = PageEntry_set_state entry WRITE_LOCK_STATE in
           case compare_exchange False w entry new of
             (True, w') \<Rightarrow> (WriteGuard node, w')
           | (False, w') \<Rightarrow> (Upgrading n node w, w')
         else (Upgrading n node w, w))"

definition drop_read_iter :: "bool \<Rightarrow> page_entry \<Rightarrow> u64 \<Rightarrow> lock_pc \<times> u64" where
  "drop_read_iter spurious entry w =
    (let new = PageEntry_set_state entry (PageEntry_state entry - 1) in
     case compare_exchange spurious w entry new of
       (True, w') \<Rightarrow> (Idle, w')
     | (False, w') \<Rightarrow> (DropRead w, w'))"

definition drop_write_iter :: "bool \<Rightarrow> page_entry \<Rightarrow> u64 \<Rightarrow> lock_pc \<times> u64" where
  "drop_write_iter spurious entry w =
    (let new = PageEntry_set_state entry 0 in
     case compare_exchange spurious w entry new of
       (True, w') \<Rightarrow> (Idle, w')
     | (False, w') \<Rightarrow> (DropWrite w, w'))"

definition downgrade_store :: "page_entry \<Rightarrow> page_entry \<Rightarrow> lock_pc \<times> u64" where
  "downgrade_store node entry = (ReadGuard node, PageEntry_set_state entry 1)"

definition set_mini_page :: "nat \<Rightarrow> lock_pc \<times> u64" where
  "set_mini_page mini_page =
    (let entry = PageEntry_new_write_locked mini_page in (WriteGuard entry, entry))"

definition set_leaf :: "u64 \<Rightarrow> lock_pc \<times> u64" where
  "set_leaf disk_addr = (let entry = PageEntry_leaf disk_addr in (WriteGuard entry, entry))"

section \<open>Interleaving\<close>

text \<open>What a thread may do next; each action makes at most one access to the word.\<close>

datatype lock_action =
    StartRead
  | StartWrite
  | StartUpgrade
  | StartDowngrade
  | StartDrop
  | SetMiniPage nat
  | SetLeaf u64
  | Continue bool

fun lock_act :: "lock_action \<Rightarrow> lock_pc \<Rightarrow> u64 \<Rightarrow> (lock_pc \<times> u64) option" where
  "lock_act StartRead Idle w = Some (Reading SPIN_RETRIES w, w)"
| "lock_act StartWrite Idle w = Some (Writing SPIN_RETRIES w, w)"
| "lock_act StartUpgrade (ReadGuard node) w = Some (Upgrading SPIN_RETRIES node w, w)"
| "lock_act StartDowngrade (WriteGuard node) w = Some (Downgrading node w, w)"
| "lock_act StartDrop (ReadGuard node) w = Some (DropRead w, w)"
| "lock_act StartDrop (WriteGuard node) w = Some (DropWrite w, w)"
| "lock_act (SetMiniPage i) (WriteGuard node) w = Some (set_mini_page i)"
| "lock_act (SetLeaf a) (WriteGuard node) w = Some (set_leaf a)"
| "lock_act (Continue s) (Reading n e) w = Some (read_page_entry_iter s n e w)"
| "lock_act (Continue s) (Writing n e) w = Some (write_page_entry_iter s n e w)"
| "lock_act (Continue s) (Upgrading n node e) w = Some (upgrade_iter n node e w)"
| "lock_act (Continue s) (DropRead e) w = Some (drop_read_iter s e w)"
| "lock_act (Continue s) (DropWrite e) w = Some (drop_write_iter s e w)"
| "lock_act (Continue s) (Downgrading node e) w = Some (downgrade_store node e)"
| "lock_act (Continue s) LockFailed w = Some (Idle, w)"
| "lock_act _ _ _ = None"

text \<open>
  One step of the system, by thread \<open>i\<close> with an action of \<open>A\<close>; the system is the word of one
  page and the local states of the threads.
\<close>

inductive page_step :: "lock_action set \<Rightarrow> u64 \<times> lock_pc list \<Rightarrow> u64 \<times> lock_pc list \<Rightarrow> bool" for A where
  "i < length pcs \<Longrightarrow> a \<in> A \<Longrightarrow> lock_act a (pcs ! i) w = Some (pc, w') \<Longrightarrow>
    page_step A (w, pcs) (w', pcs[i := pc])"

inductive_cases page_stepE [elim!]: "page_step A s s'"

section \<open>Sequential operations\<close>

text \<open>
  The loops without interference: the word changes only by the thread's own exchanges, and a
  weak exchange does not fail without a reason.  The recursion ends because each iteration
  uses up a try.
\<close>

fun read_loop :: "nat \<Rightarrow> page_entry \<Rightarrow> u64 \<Rightarrow> page_entry result \<times> u64" where
  "read_loop tries entry w =
    (case read_page_entry_iter False tries entry w of
       (Reading n e, w') \<Rightarrow> if n < tries then read_loop n e w' else (Inl (QSErr PageLockFail), w')
     | (ReadGuard node, w') \<Rightarrow> (Inr node, w')
     | (_, w') \<Rightarrow> (Inl (QSErr PageLockFail), w'))"

declare read_loop.simps [simp del]

fun write_loop :: "nat \<Rightarrow> page_entry \<Rightarrow> u64 \<Rightarrow> page_entry result \<times> u64" where
  "write_loop tries entry w =
    (case write_page_entry_iter False tries entry w of
       (Writing n e, w') \<Rightarrow> if n < tries then write_loop n e w' else (Inl (QSErr PageLockFail), w')
     | (WriteGuard node, w') \<Rightarrow> (Inr node, w')
     | (_, w') \<Rightarrow> (Inl (QSErr PageLockFail), w'))"

declare write_loop.simps [simp del]

definition read_page_entry :: "MapTable \<Rightarrow> nat \<Rightarrow> page_entry result \<times> MapTable" where
  "read_page_entry t page =
    (let w = get_entry t page; (r, w') = read_loop SPIN_RETRIES w w in (r, set_entry t page w'))"

definition write_page_entry :: "MapTable \<Rightarrow> nat \<Rightarrow> page_entry result \<times> MapTable" where
  "write_page_entry t page =
    (let w = get_entry t page; (r, w') = write_loop SPIN_RETRIES w w in (r, set_entry t page w'))"

section \<open>Fields of an entry\<close>

lemma write_lock_state: "WRITE_LOCK_STATE = mask 14" "unat WRITE_LOCK_STATE = 16383"
  by (simp_all add: WRITE_LOCK_STATE_def mask_eq_exp_minus_1)

lemma bit_WRITE_LOCK_STATE: "bit WRITE_LOCK_STATE i \<longleftrightarrow> i < 14"
  by (simp add: write_lock_state(1) bit_mask_iff) auto

lemma bit_state: "bit (PageEntry_state e) i \<longleftrightarrow> i < 14 \<and> bit e i"
  by (auto simp: PageEntry_state_def bit_simps bit_WRITE_LOCK_STATE)

lemma bit_set_state:
  "bit (PageEntry_set_state e s) i \<longleftrightarrow> i < 64 \<and> (if i < 14 then bit s i else bit e i \<or> bit s i)"
  by (auto simp: PageEntry_set_state_def bit_simps bit_WRITE_LOCK_STATE dest: bit_imp_le_length)

lemma take_bit_small:
  assumes "unat (w :: 'a::len word) < 2 ^ k" shows "take_bit k w = w"
proof -
  have "unat (take_bit k w) = unat w"
    using assms by (simp add: unsigned_take_bit_eq take_bit_nat_eq_self)
  then show ?thesis by (simp only: word_unat_eq_iff)
qed

lemma bit_small: "unat (w :: 'a::len word) < 2 ^ k \<Longrightarrow> bit w i \<Longrightarrow> i < k"
  using take_bit_small[of w k] by (metis bit_take_bit_iff)

lemma bit_exp_int: "bit (16384 :: int) i \<longleftrightarrow> i = 14" "bit (32768 :: int) i \<longleftrightarrow> i = 15"
proof -
  have "bit (push_bit 14 1 :: int) i \<longleftrightarrow> i = 14" "bit (push_bit 15 1 :: int) i \<longleftrightarrow> i = 15"
    unfolding bit_push_bit_iff by (auto simp: bit_1_iff)
  then show "bit (16384 :: int) i \<longleftrightarrow> i = 14" "bit (32768 :: int) i \<longleftrightarrow> i = 15" by simp_all
qed

lemma pending_bit: "PageEntry_pending_write e \<longleftrightarrow> bit e 14"
  by (simp add: PageEntry_pending_write_def bit_iff_and_drop_bit_eq_1 and.commute)

lemma bit_set_pending:
  "bit (PageEntry_set_pending_write e b) i \<longleftrightarrow> i < 64 \<and> (if i = 14 then b else bit e i)"
  by (auto simp: PageEntry_set_pending_write_def bit_simps bit_exp_int dest: bit_imp_le_length)

lemma state_set_state [simp]:
  assumes "unat s < 2 ^ 14" shows "PageEntry_state (PageEntry_set_state e s) = s"
  by (rule bit_word_eqI) (auto simp: bit_state bit_set_state dest: bit_small[OF assms])

lemma state_set_pending [simp]: "PageEntry_state (PageEntry_set_pending_write e b) = PageEntry_state e"
  by (rule bit_word_eqI) (auto simp: bit_state bit_set_pending)

lemma pending_set_pending [simp]: "PageEntry_pending_write (PageEntry_set_pending_write e b) = b"
  by (simp add: pending_bit bit_set_pending)

lemma pending_set_state [simp]:
  assumes "unat s < 2 ^ 14" shows "PageEntry_pending_write (PageEntry_set_state e s) = PageEntry_pending_write e"
  by (auto simp: pending_bit bit_set_state dest: bit_small[OF assms])

lemma state_less: "unat (PageEntry_state e) < 2 ^ 14"
proof -
  have "take_bit 14 (PageEntry_state e) = PageEntry_state e"
    by (rule bit_word_eqI) (auto simp: bit_state bit_simps)
  then have "unat (PageEntry_state e) = take_bit 14 (unat (PageEntry_state e))"
    by (metis unsigned_take_bit_eq)
  then show ?thesis by (metis take_bit_nat_less_exp)
qed

lemma get_ref_bits: "PageEntry_get_ref e = (if bit e 15 then Leaf (drop_bit 16 e) else MiniPage (unat (drop_bit 16 e)))"
  by (simp add: PageEntry_get_ref_def Let_def bit_iff_and_drop_bit_eq_1 and.commute)

lemma get_ref_set_state [simp]:
  assumes "unat s < 2 ^ 14" shows "PageEntry_get_ref (PageEntry_set_state e s) = PageEntry_get_ref e"
proof -
  have "drop_bit 16 (PageEntry_set_state e s) = drop_bit 16 e"
    by (rule bit_word_eqI) (auto simp: bit_simps bit_set_state dest: bit_small[OF assms] bit_imp_le_length)
  then show ?thesis using bit_small[OF assms, of 15] by (auto simp: get_ref_bits bit_set_state)
qed

lemma get_ref_set_pending [simp]: "PageEntry_get_ref (PageEntry_set_pending_write e b) = PageEntry_get_ref e"
proof -
  have "drop_bit 16 (PageEntry_set_pending_write e b) = drop_bit 16 e"
    by (rule bit_word_eqI) (auto simp: bit_simps bit_set_pending dest: bit_imp_le_length)
  then show ?thesis by (simp add: get_ref_bits bit_set_pending)
qed

lemma get_ref_leaf [simp]:
  assumes "unat addr < 2 ^ 48" shows "PageEntry_get_ref (PageEntry_leaf addr) = Leaf addr"
proof -
  have "drop_bit 16 (PageEntry_leaf addr) = addr"
    by (rule bit_word_eqI) (auto simp: PageEntry_leaf_def bit_simps bit_exp_int dest: bit_small[OF assms])
  moreover have "bit (PageEntry_leaf addr) 15" by (simp add: PageEntry_leaf_def bit_simps bit_exp_int)
  ultimately show ?thesis by (simp add: get_ref_bits)
qed

lemma leaf_unlocked [simp]: "PageEntry_state (PageEntry_leaf addr) = 0" "\<not> PageEntry_pending_write (PageEntry_leaf addr)"
proof -
  show "PageEntry_state (PageEntry_leaf addr) = 0"
    by (rule bit_word_eqI) (auto simp: bit_state PageEntry_leaf_def bit_simps bit_exp_int)
  show "\<not> PageEntry_pending_write (PageEntry_leaf addr)"
    by (simp add: pending_bit PageEntry_leaf_def bit_simps bit_exp_int)
qed

lemma mini_page_locked [simp]: "PageEntry_state (PageEntry_new_write_locked i) = WRITE_LOCK_STATE"
  by (simp add: PageEntry_new_write_locked_def write_lock_state(2))

lemma get_ref_push: "unat a < 2 ^ 48 \<Longrightarrow> PageEntry_get_ref (push_bit 16 a) = MiniPage (unat a)"
proof -
  assume a: "unat a < 2 ^ 48"
  have "drop_bit 16 (push_bit 16 a) = a"
    by (rule bit_word_eqI) (auto simp: bit_simps dest: bit_small[OF a])
  then show ?thesis by (simp add: get_ref_bits bit_push_bit_iff)
qed

lemma get_ref_mini_page [simp]:
  assumes "i < 2 ^ 48" shows "PageEntry_get_ref (PageEntry_new_write_locked i) = MiniPage i"
proof -
  have i: "unat (word_of_nat i :: u64) = i" by (rule unat_of_nat_u64) (use assms in simp)
  have "unat WRITE_LOCK_STATE < 2 ^ 14" by (simp add: write_lock_state(2))
  then show ?thesis
    unfolding PageEntry_new_write_locked_def get_ref_set_state[OF \<open>unat WRITE_LOCK_STATE < 2 ^ 14\<close>]
    using get_ref_push[of "word_of_nat i"] assms by (simp only: i)
qed

section \<open>Mutual exclusion\<close>

fun is_reader :: "lock_pc \<Rightarrow> bool" where
  "is_reader (ReadGuard _) = True"
| "is_reader (Upgrading _ _ _) = True"
| "is_reader (DropRead _) = True"
| "is_reader _ = False"

fun is_writer :: "lock_pc \<Rightarrow> bool" where
  "is_writer (WriteGuard _) = True"
| "is_writer (DropWrite _) = True"
| "is_writer (Downgrading _ _) = True"
| "is_writer _ = False"

definition readers :: "lock_pc list \<Rightarrow> nat" where
  "readers pcs = length (filter is_reader pcs)"

definition writers :: "lock_pc list \<Rightarrow> nat" where
  "writers pcs = length (filter is_writer pcs)"

text \<open>
  The lock invariant: without a writer the state counts the readers, with a writer there is
  one and no reader, and the state is all ones.
\<close>

definition lock_inv :: "u64 \<times> lock_pc list \<Rightarrow> bool" where
  "lock_inv s \<longleftrightarrow> (case s of (w, pcs) \<Rightarrow>
    length pcs < unat WRITE_LOCK_STATE \<and>
    (writers pcs = 0 \<and> unat (PageEntry_state w) = readers pcs \<or>
     writers pcs = 1 \<and> readers pcs = 0 \<and> PageEntry_state w = WRITE_LOCK_STATE))"

lemma length_filter_update:
  "i < length xs \<Longrightarrow> length (filter P (xs[i := x])) + of_bool (P (xs ! i)) = length (filter P xs) + of_bool (P x)"
proof (induction xs arbitrary: i)
  case (Cons y xs)
  then show ?case by (cases i) auto
qed simp

lemma readers_update:
  "i < length pcs \<Longrightarrow> readers (pcs[i := pc]) + of_bool (is_reader (pcs ! i)) = readers pcs + of_bool (is_reader pc)"
  "i < length pcs \<Longrightarrow> writers (pcs[i := pc]) + of_bool (is_writer (pcs ! i)) = writers pcs + of_bool (is_writer pc)"
  by (simp_all add: readers_def writers_def length_filter_update)

lemma readers_le: "readers pcs \<le> length pcs" "writers pcs \<le> length pcs"
  by (simp_all add: readers_def writers_def)

lemma unat_succ_state: "PageEntry_state w < WRITE_LOCK_STATE \<Longrightarrow>
    unat (PageEntry_state w + 1) = unat (PageEntry_state w) + 1"
  using write_lock_state(2) by (simp add: word_less_nat_alt unat_word_ariths)

text \<open>
  What one action does to the lock: it leaves state and holder kinds, takes or gives back a
  read share, takes or gives back the write lock, or turns one into the other.
\<close>

datatype lock_effect = Keep | TakeRead | FreeRead | TakeWrite | FreeWrite | Upgrade | Downgrade

fun effect_ok :: "lock_effect \<Rightarrow> u64 \<Rightarrow> lock_pc \<Rightarrow> u64 \<Rightarrow> lock_pc \<Rightarrow> bool" where
  "effect_ok Keep w pc w' pc' \<longleftrightarrow> PageEntry_state w' = PageEntry_state w \<and>
    is_reader pc' = is_reader pc \<and> is_writer pc' = is_writer pc"
| "effect_ok TakeRead w pc w' pc' \<longleftrightarrow> PageEntry_state w < WRITE_LOCK_STATE \<and>
    PageEntry_state w' = PageEntry_state w + 1 \<and> \<not> is_reader pc \<and> \<not> is_writer pc \<and> is_reader pc' \<and> \<not> is_writer pc'"
| "effect_ok FreeRead w pc w' pc' \<longleftrightarrow> unat (PageEntry_state w') = unat (PageEntry_state w) - 1 \<and>
    is_reader pc \<and> \<not> is_writer pc \<and> \<not> is_reader pc' \<and> \<not> is_writer pc'"
| "effect_ok TakeWrite w pc w' pc' \<longleftrightarrow> PageEntry_state w = 0 \<and> PageEntry_state w' = WRITE_LOCK_STATE \<and>
    \<not> is_reader pc \<and> \<not> is_writer pc \<and> \<not> is_reader pc' \<and> is_writer pc'"
| "effect_ok FreeWrite w pc w' pc' \<longleftrightarrow> PageEntry_state w' = 0 \<and>
    \<not> is_reader pc \<and> is_writer pc \<and> \<not> is_reader pc' \<and> \<not> is_writer pc'"
| "effect_ok Upgrade w pc w' pc' \<longleftrightarrow> PageEntry_state w = 1 \<and> PageEntry_state w' = WRITE_LOCK_STATE \<and>
    is_reader pc \<and> \<not> is_writer pc \<and> \<not> is_reader pc' \<and> is_writer pc'"
| "effect_ok Downgrade w pc w' pc' \<longleftrightarrow> PageEntry_state w' = 1 \<and>
    \<not> is_reader pc \<and> is_writer pc \<and> is_reader pc' \<and> \<not> is_writer pc'"

lemma effect_keeps_inv:
  assumes inv: "lock_inv (w, pcs)" and i: "i < length pcs" and eff: "effect_ok e w (pcs ! i) w' pc"
  shows "lock_inv (w', pcs[i := pc])"
proof -
  note u = readers_update[OF i, of pc] readers_le[of pcs] write_lock_state(2)
  have pos: "is_reader (pcs ! i) \<Longrightarrow> 0 < readers pcs" "is_writer (pcs ! i) \<Longrightarrow> 0 < writers pcs"
    using i by (auto simp: readers_def writers_def filter_empty_conv)
  show ?thesis
  proof (cases e)
    case Keep
    with inv eff u show ?thesis by (auto simp: lock_inv_def)
  next
    case TakeRead
    with eff have "PageEntry_state w \<noteq> WRITE_LOCK_STATE" by auto
    with TakeRead inv eff u unat_succ_state[of w] show ?thesis by (auto simp: lock_inv_def)
  next
    case FreeRead
    with inv eff u pos show ?thesis by (auto simp: lock_inv_def)
  next
    case TakeWrite
    with inv eff u show ?thesis by (auto simp: lock_inv_def)
  next
    case FreeWrite
    with inv eff u pos show ?thesis by (auto simp: lock_inv_def)
  next
    case Upgrade
    with eff have "unat (PageEntry_state w) = 1" "PageEntry_state w \<noteq> WRITE_LOCK_STATE"
      using u(5) by auto
    with Upgrade inv eff u show ?thesis by (auto simp: lock_inv_def)
  next
    case Downgrade
    with inv eff u pos show ?thesis by (auto simp: lock_inv_def)
  qed
qed

lemma is_kind_cases: "is_reader pc \<Longrightarrow> \<not> is_writer pc" by (cases pc) auto

lemma compare_exchange_cases:
  "compare_exchange s w e n = (b, w') \<Longrightarrow> (b \<longrightarrow> w = e \<and> w' = n) \<and> (\<not> b \<longrightarrow> w' = w)"
  by (auto simp: compare_exchange_def split: if_splits)

lemma read_iter_effect:
  assumes "read_page_entry_iter s n e w = (pc', w')"
  shows "effect_ok Keep w (Reading n e) w' pc' \<or> effect_ok TakeRead w (Reading n e) w' pc'"
proof -
  have "unat (PageEntry_state e + 1) < 2 ^ 14" if "PageEntry_state e < WRITE_LOCK_STATE"
    using unat_succ_state[OF that] that write_lock_state(2) by (simp add: word_less_nat_alt)
  then show ?thesis
    using assms
    by (auto simp: read_page_entry_iter_def Let_def compare_exchange_def not_le split: nat.splits if_splits)
qed

lemma write_iter_effect:
  assumes "write_page_entry_iter s n e w = (pc', w')"
  shows "effect_ok Keep w (Writing n e) w' pc' \<or> effect_ok TakeWrite w (Writing n e) w' pc'"
proof -
  have "unat WRITE_LOCK_STATE < 2 ^ 14" by (simp add: write_lock_state(2))
  then show ?thesis
    using assms
    by (auto simp: write_page_entry_iter_def Let_def compare_exchange_def split: nat.splits if_splits)
qed

lemma upgrade_iter_effect:
  assumes "upgrade_iter n node e w = (pc', w')"
  shows "effect_ok Keep w (Upgrading n node e) w' pc' \<or> effect_ok Upgrade w (Upgrading n node e) w' pc'"
proof -
  have "unat WRITE_LOCK_STATE < 2 ^ 14" by (simp add: write_lock_state(2))
  then show ?thesis
    using assms
    by (auto simp: upgrade_iter_def Let_def compare_exchange_def split: nat.splits if_splits)
qed

lemma drop_write_iter_effect:
  assumes "drop_write_iter s e w = (pc', w')"
  shows "effect_ok Keep w (DropWrite e) w' pc' \<or> effect_ok FreeWrite w (DropWrite e) w' pc'"
  using assms by (auto simp: drop_write_iter_def Let_def compare_exchange_def split: if_splits)

lemma unat_pred_state:
  assumes "PageEntry_state w \<noteq> 0"
  shows "unat (PageEntry_state w - 1) = unat (PageEntry_state w) - 1"
  using assms by (simp add: unat_minus_one)

lemma drop_read_iter_effect:
  assumes "drop_read_iter s e w = (pc', w')" and "PageEntry_state w \<noteq> 0"
  shows "effect_ok Keep w (DropRead e) w' pc' \<or> effect_ok FreeRead w (DropRead e) w' pc'"
proof -
  have "unat (PageEntry_state w - 1) < 2 ^ 14"
    using unat_pred_state[OF assms(2)] state_less[of w] by simp
  then show ?thesis
    using assms unat_pred_state[of w]
    by (auto simp: drop_read_iter_def Let_def compare_exchange_def split: if_splits)
qed

definition safe_actions :: "lock_action set" where
  "safe_actions = {a. \<forall>addr. a \<noteq> SetLeaf addr}"

lemma inv_reader_state:
  assumes "lock_inv (w, pcs)" "i < length pcs" "is_reader (pcs ! i)"
  shows "PageEntry_state w \<noteq> 0"
proof -
  have "0 < readers pcs" using assms(2,3) by (auto simp: readers_def filter_empty_conv)
  with assms(1) show ?thesis by (auto simp: lock_inv_def)
qed

lemma lock_act_keeps_inv:
  assumes inv: "lock_inv (w, pcs)" and i: "i < length pcs" and a: "a \<in> safe_actions"
    and act: "lock_act a (pcs ! i) w = Some (pc, w')"
  shows "lock_inv (w', pcs[i := pc])"
proof -
  note k = effect_keeps_inv[OF inv i]
  have W: "effect_ok Keep w (pcs ! i) w' pc" if "writers pcs = 1 \<Longrightarrow> PageEntry_state w' = WRITE_LOCK_STATE"
    "is_writer (pcs ! i)" "is_writer pc"
  proof -
    have "0 < writers pcs" using i that(2) by (auto simp: writers_def filter_empty_conv)
    with inv that show ?thesis by (auto simp: lock_inv_def dest: is_kind_cases)
  qed
  show ?thesis
    using act
  proof (cases rule: lock_act.elims)
    case (7 i node w)
    then show ?thesis using k[OF W] by (simp add: set_mini_page_def Let_def)
  next
    case (8 addr node w)
    with a show ?thesis by (simp add: safe_actions_def)
  next
    case (9 s n e w)
    then show ?thesis using read_iter_effect[of s n e w pc w'] k by (auto simp del: effect_ok.simps)
  next
    case (10 s n e w)
    then show ?thesis using write_iter_effect[of s n e w pc w'] k by (auto simp del: effect_ok.simps)
  next
    case (11 s n node e w)
    then show ?thesis using upgrade_iter_effect[of n node e w pc w'] k by (auto simp del: effect_ok.simps)
  next
    case (12 s e w)
    then show ?thesis using drop_read_iter_effect[of s e w pc w'] inv_reader_state[OF inv i] k by (auto simp del: effect_ok.simps)
  next
    case (13 s e w)
    then show ?thesis using drop_write_iter_effect[of s e w pc w'] k by (auto simp del: effect_ok.simps)
  next
    case (14 s node e w)
    then show ?thesis using k[of Downgrade] by (simp add: downgrade_store_def)
  qed (use k[of Keep] in auto)
qed

interpretation page_lock: step_invariant "page_step safe_actions" lock_inv
  by unfold_locales (auto intro: lock_act_keeps_inv)

section \<open>Runs\<close>

text \<open>A schedule names the thread and its action at every step.\<close>

fun run_schedule :: "(nat \<times> lock_action) list \<Rightarrow> u64 \<times> lock_pc list \<Rightarrow> (u64 \<times> lock_pc list) option" where
  "run_schedule [] s = Some s"
| "run_schedule ((i, a) # as) (w, pcs) =
    (if i < length pcs then
       case lock_act a (pcs ! i) w of
         None \<Rightarrow> None
       | Some (pc, w') \<Rightarrow> run_schedule as (w', pcs[i := pc])
     else None)"

lemma run_schedule_reach:
  "run_schedule as s = Some s' \<Longrightarrow> snd ` set as \<subseteq> A \<Longrightarrow> (page_step A)\<^sup>*\<^sup>* s s'"
proof (induction as s rule: run_schedule.induct)
  case (2 i a as w pcs)
  then obtain pc w' where st: "i < length pcs" "lock_act a (pcs ! i) w = Some (pc, w')"
      "run_schedule as (w', pcs[i := pc]) = Some s'"
    by (auto split: if_splits option.splits)
  have "page_step A (w, pcs) (w', pcs[i := pc])" using st(1,2) 2(3) by (auto intro!: page_step.intros)
  moreover have "(page_step A)\<^sup>*\<^sup>* (w', pcs[i := pc]) s'" using 2 st by auto
  ultimately show ?case by (rule converse_rtranclp_into_rtranclp)
qed simp

section \<open>The sequential loops\<close>

lemma read_loop_unlocked:
  assumes "\<not> PageEntry_pending_write w" "PageEntry_state w < WRITE_LOCK_STATE"
  shows "read_loop (Suc n) w w = (Inr w, PageEntry_set_state w (PageEntry_state w + 1))"
proof -
  have "\<not> WRITE_LOCK_STATE \<le> PageEntry_state w" using assms(2) by (simp add: not_le)
  with assms(1) show ?thesis
    by (subst read_loop.simps) (simp add: read_page_entry_iter_def Let_def compare_exchange_def)
qed

lemma write_loop_unlocked:
  assumes "PageEntry_state w = 0"
  shows "write_loop (Suc n) w w =
    (Inr w, PageEntry_set_pending_write (PageEntry_set_state w WRITE_LOCK_STATE) False)"
  using assms by (subst write_loop.simps) (simp add: write_page_entry_iter_def Let_def compare_exchange_def)

lemma read_loop_pending:
  "PageEntry_pending_write e \<Longrightarrow> read_loop n e w = (Inl (QSErr PageLockFail), w)"
proof (induction n)
  case 0
  show ?case by (subst read_loop.simps) (simp add: read_page_entry_iter_def)
next
  case (Suc n)
  then show ?case by (subst read_loop.simps) (simp add: read_page_entry_iter_def)
qed

lemma write_loop_busy_pending:
  "PageEntry_pending_write w \<Longrightarrow> PageEntry_state w \<noteq> 0 \<Longrightarrow> write_loop n w w = (Inl (QSErr PageLockFail), w)"
proof (induction n)
  case 0
  show ?case by (subst write_loop.simps) (simp add: write_page_entry_iter_def)
next
  case (Suc n)
  then show ?case by (subst write_loop.simps) (simp add: write_page_entry_iter_def)
qed

lemma set_pending_same: "\<not> PageEntry_pending_write w \<Longrightarrow> PageEntry_set_pending_write w True \<noteq> w"
  by (metis pending_set_pending)

lemma write_loop_busy:
  assumes "\<not> PageEntry_pending_write w" "PageEntry_state w \<noteq> 0"
  shows "write_loop (Suc (Suc n)) w w = (Inl (QSErr PageLockFail), PageEntry_set_pending_write w True)"
proof -
  let ?w = "PageEntry_set_pending_write w True"
  have "write_loop (Suc (Suc n)) w w = write_loop (Suc n) w ?w"
    using assms by (subst write_loop.simps) (simp add: write_page_entry_iter_def Let_def compare_exchange_def)
  also have "\<dots> = write_loop n ?w ?w"
    using assms set_pending_same[OF assms(1)]
    by (subst write_loop.simps) (simp add: write_page_entry_iter_def Let_def compare_exchange_def)
  also have "\<dots> = (Inl (QSErr PageLockFail), ?w)"
    using assms by (simp add: write_loop_busy_pending)
  finally show ?thesis .
qed

lemma SPIN_RETRIES_eq: "SPIN_RETRIES = 14"
  by (simp add: SPIN_RETRIES_def)

section \<open>Properties\<close>

text \<open>C6: Mutual exclusion of the page lock, as long as no writer calls \<open>set_leaf\<close>.  Start fewer
  than 16383 threads on an unlocked entry and interleave their reads, writes, upgrades,
  downgrades, releases and mini-page updates in any order, with any spurious failures: at most
  one thread holds the write lock, no reader holds the page beside a writer, and without a writer the state field
  counts the readers.\<close>

theorem page_mutual_exclusion:
  assumes "(page_step safe_actions)\<^sup>*\<^sup>* (w0, replicate n Idle) (w, pcs)"
    and "PageEntry_state w0 = 0" and "n < unat WRITE_LOCK_STATE"
  shows "writers pcs \<le> 1 \<and> (writers pcs = 1 \<longrightarrow> readers pcs = 0) \<and>
    (writers pcs = 0 \<longrightarrow> unat (PageEntry_state w) = readers pcs)"
proof -
  have "lock_inv (w0, replicate n Idle)"
    using assms(2,3) by (simp add: lock_inv_def readers_def writers_def filter_empty_conv)
  from page_lock.reach_inv[OF assms(1) this] show ?thesis by (auto simp: lock_inv_def)
qed

theorem page_mutual_exclusion_witness:
  "\<exists>w pcs. (page_step safe_actions)\<^sup>*\<^sup>* (PageEntry_leaf 5, replicate 2 Idle) (w, pcs) \<and> writers pcs = 1 \<and> readers pcs = 0"
proof -
  let ?s = "[(0, StartWrite), (0, Continue False), (1, StartRead)]"
  have "map_option (\<lambda>(w, pcs). (writers pcs, length pcs)) (run_schedule ?s (PageEntry_leaf 5, replicate 2 Idle)) = Some (1, 2)"
    by code_simp
  then obtain w pcs where r: "run_schedule ?s (PageEntry_leaf 5, replicate 2 Idle) = Some (w, pcs)" "writers pcs = 1"
    by auto
  have reach: "(page_step safe_actions)\<^sup>*\<^sup>* (PageEntry_leaf 5, replicate 2 Idle) (w, pcs)"
    by (rule run_schedule_reach[OF r(1)]) (simp add: safe_actions_def)
  have "2 < unat WRITE_LOCK_STATE" by (simp add: write_lock_state(2))
  from page_mutual_exclusion[OF reach leaf_unlocked(1) this] r(2) reach show ?thesis by blast
qed

text \<open>C36: Pointing a write-locked page at its disk address releases the lock: \<open>set_leaf\<close>
  stores an unlocked entry while the guard lives, so a second thread obtains a write guard
  of the same page.\<close>

theorem set_leaf_breaks_exclusion:
  "\<exists>w pcs. (page_step UNIV)\<^sup>*\<^sup>* (PageEntry_leaf 5, replicate 2 Idle) (w, pcs) \<and> writers pcs = 2"
proof -
  let ?s = "[(0, StartWrite), (0, Continue False), (0, SetLeaf 9), (1, StartWrite), (1, Continue False)]"
  have "map_option (\<lambda>(w, pcs). writers pcs) (run_schedule ?s (PageEntry_leaf 5, replicate 2 Idle)) = Some 2"
    by code_simp
  then obtain w pcs where r: "run_schedule ?s (PageEntry_leaf 5, replicate 2 Idle) = Some (w, pcs)" "writers pcs = 2"
    by auto
  from run_schedule_reach[OF r(1), of UNIV] r(2) show ?thesis by auto
qed

text \<open>C37: A writer that gives up locks the readers out.  Its attempt on a page with readers
  fails and leaves the write-pending flag set.  As long as the flag is set, whatever the lock
  state becomes (the last reader gone included), every attempt to read fails and changes nothing.\<close>

theorem failed_writer_blocks_readers:
  assumes "\<not> PageEntry_pending_write w" and "PageEntry_state w \<noteq> 0" and "unat s < 2 ^ 14"
  shows "write_loop SPIN_RETRIES w w = (Inl (QSErr PageLockFail), PageEntry_set_pending_write w True) \<and>
    (let w' = PageEntry_set_state (PageEntry_set_pending_write w True) s in
     read_loop SPIN_RETRIES w' w' = (Inl (QSErr PageLockFail), w'))"
proof -
  have "SPIN_RETRIES = Suc (Suc 12)" by (simp add: SPIN_RETRIES_eq)
  then show ?thesis
    using write_loop_busy[OF assms(1,2), of 12] assms(3) by (simp add: Let_def read_loop_pending)
qed

theorem failed_writer_blocks_readers_witness:
  "write_loop SPIN_RETRIES (PageEntry_set_state (PageEntry_leaf 5) 1) (PageEntry_set_state (PageEntry_leaf 5) 1) =
    (Inl (QSErr PageLockFail), PageEntry_set_pending_write (PageEntry_set_state (PageEntry_leaf 5) 1) True)"
  using failed_writer_blocks_readers[of "PageEntry_set_state (PageEntry_leaf 5) 1" 0] by simp

text \<open>A page entry refers to what was stored in it: a leaf address or a mini-page index
  below \<open>2 ^ 48\<close> reads back, and the lock state and the pending flag do not touch it.\<close>

theorem page_entry_reference:
  assumes "unat addr < 2 ^ 48" and "index < 2 ^ 48" and "unat s < 2 ^ 14"
  shows "PageEntry_get_ref (PageEntry_leaf addr) = Leaf addr \<and>
    PageEntry_get_ref (PageEntry_new_write_locked index) = MiniPage index \<and>
    PageEntry_get_ref (PageEntry_set_state e s) = PageEntry_get_ref e \<and>
    PageEntry_get_ref (PageEntry_set_pending_write e b) = PageEntry_get_ref e \<and>
    PageEntry_state (PageEntry_set_state e s) = s \<and>
    PageEntry_pending_write (PageEntry_set_state e s) = PageEntry_pending_write e"
  using assms by simp

theorem page_entry_reference_witness:
  "PageEntry_get_ref (PageEntry_leaf 5) = Leaf 5 \<and> PageEntry_get_ref (PageEntry_new_write_locked 64) = MiniPage 64"
  using page_entry_reference[of 5 64 1] by simp

end
