(* ===== verification/Io_Engine.thy ===== *)
theory Io_Engine
  imports Prelude
begin

text \<open>
  io_engine.rs: the data file as an array of 4096-byte pages behind one metadata page.  The
  file is its byte sequence; a read past the end fails, a write past the end extends the file
  with zeros.  Other failures of the operating system are not modelled.
\<close>

section \<open>The engine\<close>

record IoEngine =
  io_file :: bytes
  next_addr :: u64

definition IoEngine_open :: "bytes \<Rightarrow> IoEngine" where
  "IoEngine_open file =
    (let min_len = 2 * 4096;
         file = (if length file < min_len then file @ replicate (min_len - length file) 0 else file)
     in \<lparr>io_file = file, next_addr = word_of_nat (length file div 4096 - 1)\<rparr>)"

text \<open>The product is computed in 64 bits and checked for overflow.\<close>

definition calc_offset :: "u64 \<Rightarrow> nat result" where
  "calc_offset page_addr =
    (let offset = (uint page_addr + 1) * 4096
     in if 2 ^ 64 \<le> offset then Inl (Panic PanicOverflow) else Inr (nat offset))"

text \<open>\<open>read_exact_at\<close> reports an error when the file ends before the page does.\<close>

definition get_page :: "IoEngine \<Rightarrow> u64 \<Rightarrow> bytes result" where
  "get_page io page_addr =
    (case calc_offset page_addr of
       Inl e \<Rightarrow> Inl e
     | Inr offset \<Rightarrow>
         if length (io_file io) < offset + 4096 then Inl (Panic PanicExpect)
         else Inr (read_at (io_file io) offset 4096))"

definition write_page :: "IoEngine \<Rightarrow> u64 \<Rightarrow> bytes \<Rightarrow> unit result \<times> IoEngine" where
  "write_page io page_addr leaf =
    (case calc_offset page_addr of
       Inl e \<Rightarrow> (Inl e, io)
     | Inr offset \<Rightarrow>
         let file = io_file io @ replicate (offset - length (io_file io)) 0
         in (Inr (), io\<lparr>io_file := write_at file offset leaf\<rparr>))"

definition get_new_addr :: "IoEngine \<Rightarrow> u64 \<times> IoEngine" where
  "get_new_addr io = (next_addr io, io\<lparr>next_addr := next_addr io + 1\<rparr>)"

definition DiskLeaf_zeroed :: bytes where
  "DiskLeaf_zeroed = replicate 4096 0"

section \<open>Pages do not overlap\<close>

definition addr_ok :: "u64 \<Rightarrow> bool" where
  "addr_ok a \<longleftrightarrow> (uint a + 1) * 4096 < 2 ^ 64"

lemma calc_offset_ok: "addr_ok a \<Longrightarrow> calc_offset a = Inr ((unat a + 1) * 4096)"
  by (simp add: addr_ok_def calc_offset_def nat_add_distrib nat_mult_distrib)

lemma calc_offset_InrD: "calc_offset a = Inr off \<Longrightarrow> addr_ok a \<and> off = (unat a + 1) * 4096"
  by (cases "addr_ok a") (auto simp: calc_offset_ok, auto simp: addr_ok_def calc_offset_def)

lemma get_page_InrD:
  assumes "get_page io a = Inr d"
  shows "addr_ok a" "(unat a + 1) * 4096 + 4096 \<le> length (io_file io)"
    "d = read_at (io_file io) ((unat a + 1) * 4096) 4096" "length d = 4096"
proof -
  obtain off where "calc_offset a = Inr off" using assms by (auto simp: get_page_def split: sum.splits)
  with calc_offset_InrD[OF this] assms show "addr_ok a" "(unat a + 1) * 4096 + 4096 \<le> length (io_file io)"
    "d = read_at (io_file io) ((unat a + 1) * 4096) 4096" "length d = 4096"
    by (auto simp: get_page_def split: if_splits)
qed

lemma get_page_ok:
  "addr_ok a \<Longrightarrow> (unat a + 1) * 4096 + 4096 \<le> length (io_file io) \<Longrightarrow>
    get_page io a = Inr (read_at (io_file io) ((unat a + 1) * 4096) 4096)"
  by (simp add: get_page_def calc_offset_ok)

lemma write_page_ok:
  assumes "addr_ok a"
  obtains io' where "write_page io a leaf = (Inr (), io')" "next_addr io' = next_addr io"
    "io_file io' = write_at (io_file io @ replicate ((unat a + 1) * 4096 - length (io_file io)) 0)
       ((unat a + 1) * 4096) leaf"
  by (rule that[of "snd (write_page io a leaf)"])
    (use assms in \<open>simp_all add: write_page_def calc_offset_ok Let_def\<close>)

lemma page_offsets_apart:
  "a \<noteq> b \<Longrightarrow> (unat (a :: u64) + 1) * 4096 + 4096 \<le> (unat b + 1) * 4096 \<or>
    (unat b + 1) * 4096 + 4096 \<le> (unat a + 1) * 4096"
proof -
  assume "a \<noteq> b"
  then have "unat a \<noteq> unat b" by (simp add: word_unat_eq_iff)
  then have "unat a + 1 \<le> unat b \<or> unat b + 1 \<le> unat a" by linarith
  then show ?thesis by (auto simp: algebra_simps)
qed

lemma read_write_at_end:
  assumes "off \<le> length p" and "n = length bs"
  shows "read_at (write_at p off bs) off n = bs"
  using assms by (simp add: read_at_def write_at_def)

lemma read_write_at_other:
  assumes "off \<le> length p" and "i + n \<le> length p" and "i + n \<le> off \<or> off + length bs \<le> i"
  shows "read_at (write_at p off bs) i n = read_at p i n"
proof (cases "off + length bs \<le> length p")
  case True
  with assms show ?thesis by (simp add: read_write_disjoint)
next
  case False
  with assms have "i + n \<le> off" by linarith
  with assms show ?thesis by (simp add: read_at_def write_at_def drop_take min_absorb1)
qed

lemma length_write_at_ge: "off \<le> length p \<Longrightarrow> length (write_at p off bs) = max (length p) (off + length bs)"
  by (simp add: write_at_def)

lemma read_at_padded: "i + n \<le> length p \<Longrightarrow> read_at (p @ q) i n = read_at p i n"
  by (simp add: read_at_def)

lemma get_page_after_write:
  assumes "addr_ok a" and "length leaf = 4096" and "write_page io a leaf = (r, io')"
  shows "get_page io' a = Inr leaf"
    and "a \<noteq> b \<Longrightarrow> get_page io b = Inr d \<Longrightarrow> get_page io' b = Inr d"
proof -
  let ?off = "(unat a + 1) * 4096"
  let ?f = "io_file io @ replicate (?off - length (io_file io)) 0"
  have f: "io_file io' = write_at ?f ?off leaf"
    by (rule write_page_ok[OF assms(1), of io leaf]) (use assms(3) in auto)
  have le: "?off \<le> length ?f" by simp
  have len: "length (io_file io') = max (length ?f) (?off + 4096)"
    unfolding f length_write_at_ge[OF le] by (simp add: assms(2))
  have "read_at (io_file io') ?off 4096 = leaf"
    unfolding f by (rule read_write_at_end[OF le]) (simp add: assms(2))
  with get_page_ok[OF assms(1), of io'] len show "get_page io' a = Inr leaf" by simp
  show "get_page io' b = Inr d" if ne: "a \<noteq> b" and d: "get_page io b = Inr d"
  proof -
    let ?o = "(unat b + 1) * 4096"
    note D = get_page_InrD[OF d]
    have in_f: "?o + 4096 \<le> length ?f" using D(2) by simp
    have "read_at (io_file io') ?o 4096 = read_at ?f ?o 4096"
      unfolding f using page_offsets_apart[OF ne] in_f assms(2)
      by (intro read_write_at_other[OF le]) auto
    also have "\<dots> = d" using D(2,3) by (simp add: read_at_padded)
    finally show ?thesis using get_page_ok[OF D(1), of io'] len in_f by simp
  qed
qed

lemma fresh_addr_unreadable:
  assumes "length (io_file io) div 4096 - 1 \<le> unat a"
  shows "\<exists>p. get_page io a = Inl (Panic p)"
proof (cases "get_page io a")
  case (Inl e)
  then show ?thesis by (auto simp: get_page_def calc_offset_def split: sum.splits if_splits)
next
  case (Inr d)
  from get_page_InrD(2)[OF this] have "(unat a + 2) * 4096 \<le> length (io_file io)" by simp
  then have "(unat a + 2) * 4096 div 4096 \<le> length (io_file io) div 4096" by (rule div_le_mono)
  with assms show ?thesis by simp
qed

section \<open>The page store\<close>

text \<open>
  What the callers rely on: a written page reads back, a page that could be read keeps its
  contents when another one is written, and writing does not make a page unreadable.  A
  sequence of writes then leaves at each address the last page written there.
\<close>

fun run_writes :: "('s \<Rightarrow> 'a \<Rightarrow> 'p \<Rightarrow> unit result \<times> 's) \<Rightarrow> 's \<Rightarrow> ('a \<times> 'p) list \<Rightarrow> 's" where
  "run_writes put s [] = s"
| "run_writes put s ((a, p) # ws) = run_writes put (snd (put s a p)) ws"

locale page_store =
  fixes read :: "'s \<Rightarrow> 'a \<Rightarrow> 'p result" and put :: "'s \<Rightarrow> 'a \<Rightarrow> 'p \<Rightarrow> unit result \<times> 's"
    and ok :: "'a \<Rightarrow> 'p \<Rightarrow> bool"
  assumes put_ok: "ok a p \<Longrightarrow> fst (put s a p) = Inr ()"
    and read_same: "ok a p \<Longrightarrow> read (snd (put s a p)) a = Inr p"
    and read_other: "ok a p \<Longrightarrow> a \<noteq> b \<Longrightarrow> read s b = Inr q \<Longrightarrow> read (snd (put s a p)) b = Inr q"
begin

lemma read_keeps:
  "\<forall>(b, p) \<in> set ws. ok b p \<Longrightarrow> read s a = Inr q \<Longrightarrow>
    read (run_writes put s ws) a = Inr (case map_of (rev ws) a of None \<Rightarrow> q | Some p \<Rightarrow> p)"
proof (induction ws arbitrary: s q)
  case (Cons w ws)
  obtain b p where w: "w = (b, p)" by (cases w)
  with Cons.prems(1) have ok: "ok b p" and oks: "\<forall>(b, p) \<in> set ws. ok b p" by auto
  have "read (snd (put s b p)) a = Inr (if a = b then p else q)"
    using read_same[OF ok, of s] read_other[OF ok, of a s q] Cons.prems(2) by auto
  from Cons.IH[OF oks this] w show ?case by (auto simp: map_add_def split: option.splits)
qed simp

lemma read_last_write:
  assumes "\<forall>(b, p) \<in> set ws. ok b p" and "map_of (rev ws) a = Some p"
  shows "read (run_writes put s ws) a = Inr p"
  using assms
proof (induction ws arbitrary: s)
  case (Cons w ws)
  obtain b q where w: "w = (b, q)" by (cases w)
  with Cons.prems have ok: "ok b q" and oks: "\<forall>(b, p) \<in> set ws. ok b p" by auto
  show ?case
  proof (cases "map_of (rev ws) a")
    case None
    with Cons.prems(2) w have "a = b" "p = q" by (auto simp: map_add_def split: if_splits)
    with read_keeps[OF oks read_same[OF ok, of s]] None w show ?thesis by simp
  next
    case (Some p')
    with Cons.prems(2) w have "p' = p" by (simp add: map_add_def)
    with Cons.IH[OF oks, of "snd (put s b q)"] Some w show ?thesis by simp
  qed
qed simp

end

interpretation data_file: page_store get_page write_page "\<lambda>a p. addr_ok a \<and> length p = 4096"
proof unfold_locales
  fix io :: IoEngine and a b :: u64 and p q :: bytes
  assume ok: "addr_ok a \<and> length p = 4096"
  obtain io' where io': "write_page io a p = (Inr (), io')"
    by (rule write_page_ok[of a io p]) (use ok in auto)
  from io' show "fst (write_page io a p) = Inr ()" by simp
  from get_page_after_write[OF _ _ io'] ok io' show "get_page (snd (write_page io a p)) a = Inr p" by simp
  assume "a \<noteq> b" "get_page io b = Inr q"
  with get_page_after_write(2)[OF _ _ io', of b q] ok io'
  show "get_page (snd (write_page io a p)) b = Inr q" by simp
qed

section \<open>Properties\<close>

text \<open>The data file behaves as an array of pages: after any sequence of page writes, a
  page that was written reads back as last written, and a page that could be read before and
  was not written still reads the same.\<close>

theorem data_file_last_write:
  assumes "\<forall>(b, p) \<in> set ws. addr_ok b \<and> length p = 4096"
  shows "(map_of (rev ws) a = Some p \<longrightarrow> get_page (run_writes write_page io ws) a = Inr p) \<and>
    (map_of (rev ws) a = None \<longrightarrow> get_page io a = Inr q \<longrightarrow>
      get_page (run_writes write_page io ws) a = Inr q)"
  using data_file.read_last_write[of ws a p io] data_file.read_keeps[of ws io a q] assms by auto

theorem data_file_last_write_witness:
  "get_page (run_writes write_page (IoEngine_open []) [(3, DiskLeaf_zeroed)]) 3 = Inr (replicate 4096 0)"
  using data_file_last_write[of "[(3, DiskLeaf_zeroed)]" 3 DiskLeaf_zeroed "IoEngine_open []"]
  by (simp add: addr_ok_def DiskLeaf_zeroed_def)

text \<open>The address that \<open>get_new_addr\<close> hands out next lies behind the end of the file it
  was computed from: the page cannot be read, and \<open>get_page\<close> panics, until it is written.\<close>

theorem new_addr_not_readable:
  assumes "length file < 2 ^ 64"
  shows "\<exists>p. get_page (snd (get_new_addr (IoEngine_open file))) (fst (get_new_addr (IoEngine_open file))) =
    Inl (Panic p)"
proof -
  let ?io = "IoEngine_open file"
  have "length (io_file ?io) < 2 ^ 64" using assms by (simp add: IoEngine_open_def Let_def)
  then have "length (io_file ?io) div 4096 - 1 < 2 ^ LENGTH(64)"
    by (simp add: order.strict_trans1[OF diff_le_self] order.strict_trans1[OF div_le_dividend])
  then have "unat (next_addr ?io) = length (io_file ?io) div 4096 - 1"
    by (simp add: IoEngine_open_def Let_def take_bit_nat_eq_self unat_of_nat)
  with fresh_addr_unreadable[of "?io\<lparr>next_addr := next_addr ?io + 1\<rparr>" "next_addr ?io"]
  show ?thesis by (simp add: get_new_addr_def)
qed

theorem new_addr_not_readable_witness:
  "\<exists>p. get_page (snd (get_new_addr (IoEngine_open []))) (fst (get_new_addr (IoEngine_open []))) = Inl (Panic p)"
  using new_addr_not_readable[of "[]"] by simp

end
