(* ===== verification/Buffer.thy ===== *)
theory Buffer
  imports Node Map_Table
begin

text \<open>
  buffer.rs: the mini-page cache, a ring of 64-bit words.  Pages are carved from the tail,
  pages that were given back are kept in one free list per size, linked through the second
  word of the page, and eviction (in \<open>Cache_Evict\<close>) moves the head.

  The memory is a byte list, so that a page is a window of it and the operations of
  \<open>Node\<close> apply.  The operations are those of one thread: a compare-and-exchange finds the
  value that was loaded.  Sizes and indices count words and stay below the buffer size, so a
  \<open>usize\<close> is a \<open>nat\<close>, apart from the free-list heads, whose all-ones value means empty.
\<close>

section \<open>The buffer\<close>

record MiniPageBuffer =
  backing :: bytes
  buff_size :: nat
  free_lists :: "u64 list"
  buf_head :: nat
  buf_tail :: nat

definition is_power_of_two :: "nat \<Rightarrow> bool" where
  "is_power_of_two n \<longleftrightarrow> n \<noteq> 0 \<and> n AND (n - 1) = 0"

definition MiniPageBuffer_new :: "nat \<Rightarrow> MiniPageBuffer result" where
  "MiniPageBuffer_new cache_size_lg =
    (if \<not> (3 \<le> cache_size_lg \<and> cache_size_lg < 64) then Inl (Panic PanicAssert)
     else
       let total_bytes = push_bit cache_size_lg 1 in
       if total_bytes mod 8 \<noteq> 0 then Inl (Panic PanicAssert)
       else
         let buff_size = total_bytes div 8 in
         if \<not> is_power_of_two buff_size then Inl (Panic PanicAssert)
         else Inr \<lparr>backing = replicate (8 * buff_size) 0, buff_size = buff_size,
           free_lists = replicate 7 (- 1), buf_head = 0, buf_tail = 0\<rparr>)"

definition buf_wrap :: "MiniPageBuffer \<Rightarrow> nat \<Rightarrow> nat" where
  "buf_wrap b index = index AND (buff_size b - 1)"

section \<open>Pages in the buffer\<close>

text \<open>
  A pointer to the \<open>NodeMeta\<close> at a word index gives access to the memory from there on; the
  largest page has 4096 bytes, so this is the window a caller works on.
\<close>

definition get_meta_ptr :: "nat \<Rightarrow> nat" where
  "get_meta_ptr index = 8 * index"

definition get_meta_ref :: "MiniPageBuffer \<Rightarrow> nat \<Rightarrow> bytes" where
  "get_meta_ref b index = read_at (backing b) (get_meta_ptr index) 4096"

definition put_meta :: "MiniPageBuffer \<Rightarrow> nat \<Rightarrow> bytes \<Rightarrow> MiniPageBuffer" where
  "put_meta b index p = b\<lparr>backing := write_at (backing b) (get_meta_ptr index) p\<rparr>"

section \<open>Allocation\<close>

definition pop_freelist :: "MiniPageBuffer \<Rightarrow> NodeSize \<Rightarrow> nat option \<times> MiniPageBuffer" where
  "pop_freelist b sz =
    (let head_index = free_lists b ! NodeSize_index sz in
     if head_index = - 1 then (None, b)
     else
       let next = read_u64 (backing b) (8 * (unat head_index + 1))
       in (Some (unat head_index), b\<lparr>free_lists := (free_lists b)[NodeSize_index sz := next]\<rparr>))"

text \<open>
  The loop of \<open>alloc\<close>, with the tries that are left; only the branch that moves the tail to the
  start of the ring goes round again.
\<close>

fun alloc_loop :: "nat \<Rightarrow> nat \<Rightarrow> nat \<Rightarrow> MiniPageBuffer \<Rightarrow> nat option \<times> MiniPageBuffer" where
  "alloc_loop 0 req_size t b = (None, b)"
| "alloc_loop (Suc tries) req_size t b =
    (let head = buf_head b in
     if head \<le> t then
       let free_space_words = buff_size b - t in
       if req_size \<le> free_space_words then (Some t, b\<lparr>buf_tail := t + req_size\<rparr>)
       else if req_size < head then alloc_loop tries req_size 0 (b\<lparr>buf_tail := 0\<rparr>)
       else (None, b)
     else
       let free_space_words = head - t in
       if req_size \<le> free_space_words then (Some t, b\<lparr>buf_tail := t + req_size\<rparr>)
       else (None, b))"

definition alloc :: "MiniPageBuffer \<Rightarrow> NodeSize \<Rightarrow> nat option \<times> MiniPageBuffer" where
  "alloc b sz =
    (case pop_freelist b sz of
       (Some page, b) \<Rightarrow> (Some page, b)
     | (None, b) \<Rightarrow> alloc_loop SPIN_RETRIES (NodeSize_size_in_words sz) (buf_tail b) b)"

section \<open>Deallocation\<close>

definition dealloc :: "MiniPageBuffer \<Rightarrow> nat \<Rightarrow> unit result \<times> MiniPageBuffer" where
  "dealloc b node =
    (let p = get_meta_ref b node; meta = node_header p in
     case NodeMeta_size meta of
       None \<Rightarrow> (Inl UndefinedBehaviour, b)
     | Some node_size \<Rightarrow>
         let meta = NodeMeta_set_live meta False;
             meta = NodeMeta_clear_eviction meta;
             meta = NodeMeta_clear_hot meta;
             meta = NodeMeta_set_record_count meta 0;
             b = put_meta b node (set_node_header p meta);
             head = free_lists b ! NodeSize_index node_size;
             b = b\<lparr>backing := write_u64 (backing b) (8 * (node + 1)) head\<rparr>
         in (Inr (), b\<lparr>free_lists := (free_lists b)[NodeSize_index node_size := word_of_nat node]\<rparr>))"

section \<open>The ring\<close>

text \<open>
  The words the head and the tail enclose.  Equal pointers mean an empty ring, as the code
  reads them.
\<close>

definition ring_ok :: "MiniPageBuffer \<Rightarrow> bool" where
  "ring_ok b \<longleftrightarrow> buf_head b \<le> buff_size b \<and> buf_tail b \<le> buff_size b \<and>
    length (backing b) = 8 * buff_size b \<and> length (free_lists b) = 7"

definition ring_live :: "MiniPageBuffer \<Rightarrow> nat set" where
  "ring_live b =
    (if buf_head b \<le> buf_tail b then {buf_head b..<buf_tail b}
     else {buf_head b..<buff_size b} \<union> {0..<buf_tail b})"

lemma SPIN_RETRIES_val: "SPIN_RETRIES = 14"
  by (simp add: SPIN_RETRIES_def)

lemma size_in_words_pos: "0 < NodeSize_size_in_words sz"
  by (simp add: NodeSize_size_in_words_def Let_def)

lemma alloc_loop_eq:
  assumes "0 < req"
  shows "alloc_loop (Suc (Suc n)) req t b =
    (if buf_head b \<le> t then
       if req \<le> buff_size b - t then (Some t, b\<lparr>buf_tail := t + req\<rparr>)
       else if req < buf_head b then (Some 0, b\<lparr>buf_tail := req\<rparr>) else (None, b)
     else if req \<le> buf_head b - t then (Some t, b\<lparr>buf_tail := t + req\<rparr>) else (None, b))"
  using assms by (auto simp: Let_def)

lemma alloc_no_freelist:
  assumes "free_lists b ! NodeSize_index sz = - 1"
  shows "alloc b sz =
    (let t = buf_tail b; req = NodeSize_size_in_words sz in
     if buf_head b \<le> t then
       if req \<le> buff_size b - t then (Some t, b\<lparr>buf_tail := t + req\<rparr>)
       else if req < buf_head b then (Some 0, b\<lparr>buf_tail := req\<rparr>) else (None, b)
     else if req \<le> buf_head b - t then (Some t, b\<lparr>buf_tail := t + req\<rparr>) else (None, b))"
proof -
  have "SPIN_RETRIES = Suc (Suc 12)" by (simp add: SPIN_RETRIES_val)
  then show ?thesis
    using assms alloc_loop_eq[OF size_in_words_pos, of 12]
    by (simp add: alloc_def pop_freelist_def Let_def)
qed

lemma and_exp_minus_one: "(i :: nat) AND (2 ^ k - 1) = i mod 2 ^ k"
  by (metis mask_eq_exp_minus_1 take_bit_eq_mask take_bit_eq_mod)

lemma MiniPageBuffer_new_ok:
  assumes "3 \<le> lg" and "lg < 64"
  shows "\<exists>b. MiniPageBuffer_new lg = Inr b \<and> ring_ok b \<and> ring_live b = {} \<and> buff_size b = 2 ^ (lg - 3) \<and>
    free_lists b = replicate 7 (- 1) \<and> buf_head b = 0 \<and> buf_tail b = 0"
proof -
  obtain k where k: "lg = k + 3" using assms(1) by (metis add.commute le_Suc_ex)
  have "(2 :: nat) ^ k AND (2 ^ k - 1) = 0" by (simp only: and_exp_minus_one mod_self)
  then have "is_power_of_two (2 ^ k)" by (simp add: is_power_of_two_def)
  moreover have "push_bit lg 1 = (8 :: nat) * 2 ^ k" by (simp add: k push_bit_eq_mult power_add)
  ultimately show ?thesis using assms
    by (simp add: MiniPageBuffer_new_def Let_def ring_ok_def ring_live_def k)
qed

lemma buf_wrap_mod: "buff_size b = 2 ^ k \<Longrightarrow> buf_wrap b i = i mod buff_size b"
  by (simp only: buf_wrap_def and_exp_minus_one)

lemma of_le_bytes_zeros: "of_le_bytes (replicate n 0) = (0 :: 'a::len word)"
  by (induction n) simp_all

lemma read_u64_zeros: "read_u64 (replicate n 0) i = 0"
  by (simp add: read_u64_def read_at_def u64_from_le_bytes_def of_le_bytes_zeros)

section \<open>Free lists\<close>

lemma dealloc_pop:
  assumes ok: "ring_ok b" and node: "node + 2 \<le> buff_size b" "node < 2 ^ 64 - 1"
    and sz: "NodeMeta_size (node_header (get_meta_ref b node)) = Some sz"
    and d: "dealloc b node = (r, b')"
  shows "r = Inr ()" "ring_ok b'" "alloc b' sz = (Some node, b'\<lparr>free_lists := free_lists b\<rparr>)"
proof -
  let ?p = "get_meta_ref b node" and ?i = "NodeSize_index sz" and ?w = "word_of_nat node :: u64"
  have i: "?i < length (free_lists b)" using ok by (cases sz) (simp_all add: ring_ok_def)
  have len: "8 * node + 16 \<le> length (backing b)" using ok node(1) by (simp add: ring_ok_def)
  obtain m where b': "r = Inr ()"
    "b' = b\<lparr>backing := write_u64 (write_at (backing b) (8 * node) (set_node_header ?p m)) (8 * (node + 1))
         (free_lists b ! ?i), free_lists := (free_lists b)[?i := ?w]\<rparr>"
    using d sz by (auto simp: dealloc_def Let_def put_meta_def get_meta_ptr_def)
  have p: "length ?p = min 4096 (length (backing b) - 8 * node)" "16 \<le> length ?p"
    using len by (auto simp: get_meta_ref_def get_meta_ptr_def)
  then have q: "length (set_node_header ?p m) = length ?p" by (simp add: set_node_header_def)
  let ?q = "write_at (backing b) (8 * node) (set_node_header ?p m)"
  have lq: "length ?q = length (backing b)" using p q len by simp
  from b' show "r = Inr ()" by simp
  show "ring_ok b'" using ok lq len by (simp add: b'(2) ring_ok_def)
  have w: "unat ?w = node" using node(2) by (simp add: unat_of_nat_u64)
  have "unat (- 1 :: u64) = 2 ^ 64 - 1"
    by (simp add: unsigned_minus_1_eq_mask mask_eq_exp_minus_1)
  with w node(2) have "?w \<noteq> - 1" by (metis less_irrefl)
  moreover have "read_u64 (backing b') (8 * (node + 1)) = free_lists b ! ?i"
    using lq len by (simp add: b'(2) read_u64_def write_u64_def read_write_same)
  ultimately show "alloc b' sz = (Some node, b'\<lparr>free_lists := free_lists b\<rparr>)"
    using i w by (simp add: alloc_def pop_freelist_def b'(2) Let_def)
qed


section \<open>Properties\<close>

text \<open>C23: A page carved from the ring lies inside the buffer and outside the words that are in
  use, the head does not move, and the words in use grow by the new page, except when the new
  tail meets the head: then the ring reads as empty.\<close>

theorem alloc_carves_free_space:
  assumes "ring_ok b" and "free_lists b ! NodeSize_index sz = - 1" and "alloc b sz = (Some i, b')"
  shows "i + NodeSize_size_in_words sz \<le> buff_size b \<and>
    {i..<i + NodeSize_size_in_words sz} \<inter> ring_live b = {} \<and>
    ring_ok b' \<and> buf_head b' = buf_head b \<and> buf_tail b' = i + NodeSize_size_in_words sz \<and>
    (buf_tail b' \<noteq> buf_head b' \<longrightarrow> ring_live b \<union> {i..<i + NodeSize_size_in_words sz} \<subseteq> ring_live b')"
    (is "?in \<and> ?free \<and> ?ok \<and> ?head \<and> ?tail \<and> ?live")
proof -
  let ?r = "NodeSize_size_in_words sz"
  note a = assms(3)[unfolded alloc_no_freelist[OF assms(2)] Let_def]
  consider (append) "buf_head b \<le> buf_tail b" "?r \<le> buff_size b - buf_tail b" "i = buf_tail b"
    | (wrap) "buf_head b \<le> buf_tail b" "?r < buf_head b" "i = 0"
    | (below) "buf_tail b < buf_head b" "?r \<le> buf_head b - buf_tail b" "i = buf_tail b"
    using a by (auto split: if_splits)
  note cases = this
  have b': "b' = b\<lparr>buf_tail := i + ?r\<rparr>" using a by (auto split: if_splits)
  from cases assms(1) have ?in by cases (auto simp: ring_ok_def)
  moreover from cases assms(1) have ?free by cases (auto simp: ring_live_def)
  moreover from cases assms(1) b' have "?ok \<and> ?head \<and> ?tail" by cases (auto simp: ring_ok_def)
  moreover from cases assms(1) have ?live by cases (auto simp: b' ring_live_def ring_ok_def)
  ultimately show ?thesis by blast
qed

theorem alloc_carves_free_space_witness:
  "\<exists>b b'. MiniPageBuffer_new 13 = Inr b \<and> alloc b LeafPage = (Some 0, b') \<and> ring_live b' = {0..<512}"
proof -
  obtain b where b: "MiniPageBuffer_new 13 = Inr b" "ring_ok b" "buff_size b = 2 ^ (13 - 3)"
    "free_lists b = replicate 7 (- 1)" "buf_head b = 0" "buf_tail b = 0"
    using MiniPageBuffer_new_ok[of 13] by auto
  have fl: "free_lists b ! NodeSize_index LeafPage = - 1" by (simp add: b)
  have a: "alloc b LeafPage = (Some 0, b\<lparr>buf_tail := 512\<rparr>)"
    unfolding alloc_no_freelist[OF fl] using b by (simp add: NodeSize_size_in_words_def)
  from alloc_carves_free_space[OF b(2) fl a] have "ring_ok (b\<lparr>buf_tail := 512\<rparr>)" by blast
  with a b show ?thesis by (intro exI[of _ b] exI[of _ "b\<lparr>buf_tail := 512\<rparr>"]) (simp add: ring_live_def)
qed

text \<open>C38: A full ring hands out a page that is in use.  When an allocation fills the gap below
  the head exactly, the tail equals the head; the next allocation takes the ring for empty and
  returns the page at the head, which is still in use.\<close>

theorem full_ring_allocates_twice:
  assumes "ring_ok b" and "free_lists b ! NodeSize_index sz = - 1"
    and "buf_tail b + NodeSize_size_in_words sz = buf_head b"
    and "buf_head b + NodeSize_size_in_words sz \<le> buff_size b"
  shows "\<exists>b' b''. alloc b sz = (Some (buf_tail b), b') \<and> alloc b' sz = (Some (buf_head b), b'') \<and>
    {buf_head b..<buf_head b + NodeSize_size_in_words sz} \<subseteq> ring_live b"
proof -
  let ?b = "b\<lparr>buf_tail := buf_head b\<rparr>"
  have lt: "buf_tail b < buf_head b" using assms(3) size_in_words_pos[of sz] by linarith
  then have "alloc b sz = (Some (buf_tail b), ?b)"
    unfolding alloc_no_freelist[OF assms(2)] using assms(3) by (simp add: Let_def)
  moreover have "alloc ?b sz = (Some (buf_head b), ?b\<lparr>buf_tail := buf_head b + NodeSize_size_in_words sz\<rparr>)"
    by (subst alloc_no_freelist) (use assms(2,4) in \<open>auto simp: Let_def\<close>)
  moreover have "{buf_head b..<buf_head b + NodeSize_size_in_words sz} \<subseteq> ring_live b"
    using lt assms(4) by (auto simp: ring_live_def)
  ultimately show ?thesis by blast
qed

text \<open>A ring of four leaf pages whose first two pages were evicted and one of them reused.\<close>

definition half_evicted :: MiniPageBuffer where
  "half_evicted = \<lparr>backing = replicate 16384 0, buff_size = 2048, free_lists = replicate 7 (- 1),
    buf_head = 1024, buf_tail = 512\<rparr>"

theorem full_ring_allocates_twice_witness:
  "\<exists>b' b''. alloc half_evicted LeafPage = (Some 512, b') \<and> alloc b' LeafPage = (Some 1024, b'') \<and>
    {1024..<1536} \<subseteq> ring_live half_evicted"
  using full_ring_allocates_twice[of half_evicted LeafPage]
  by (simp add: half_evicted_def ring_ok_def NodeSize_size_in_words_def)

text \<open>A page that is given back is the next one handed out for its size, and taking it
  restores the free lists.\<close>

theorem dealloc_alloc_roundtrip:
  assumes "ring_ok b" and "node + 2 \<le> buff_size b" and "node < 2 ^ 64 - 1"
    and "NodeMeta_size (node_header (get_meta_ref b node)) = Some sz"
  shows "\<exists>b'. dealloc b node = (Inr (), b') \<and> ring_ok b' \<and>
    alloc b' sz = (Some node, b'\<lparr>free_lists := free_lists b\<rparr>)"
proof -
  obtain r b' where d: "dealloc b node = (r, b')" by fastforce
  from dealloc_pop[OF assms d] d show ?thesis by blast
qed

theorem dealloc_alloc_roundtrip_witness:
  "\<exists>b'. dealloc half_evicted 1024 = (Inr (), b') \<and> alloc b' N64 = (Some 1024, b'\<lparr>free_lists := replicate 7 (- 1)\<rparr>)"
proof -
  have "node_header (get_meta_ref half_evicted 1024) = \<lparr>nm0 = 0, nm1 = 0\<rparr>"
    by (simp add: half_evicted_def get_meta_ref_def get_meta_ptr_def node_header_def read_u64_zeros
        read_at_def)
  then have "NodeMeta_size (node_header (get_meta_ref half_evicted 1024)) = Some N64"
    by (simp add: NodeMeta_size_def NodeSize_transmute_def)
  from dealloc_alloc_roundtrip[OF _ _ _ this] show ?thesis by (auto simp: half_evicted_def ring_ok_def)
qed

end
