(* ===== verification/Lock_Manager.thy ===== *)
theory Lock_Manager
  imports Map_Table Io_Engine "HOL-Library.AList"
begin

text \<open>
  lock_manager.rs: the page guards a transaction holds.  The hash map from page identifiers to
  boxed slots is an association list; a handle, which is a pointer to a slot, is the identifier
  of its page, and the flag of the slot says whether a handle exists.  The operations on the
  page table are the sequential ones of \<open>Map_Table\<close>.
\<close>

section \<open>Guards and slots\<close>

text \<open>A guard of the page table: its page and the entry it keeps.\<close>

datatype GuardWrapper = Write u64 page_entry | Read u64 page_entry

record PageGuard =
  guard_inner :: GuardWrapper
  guard_leaf :: "bytes option"

record LockSlot =
  slot_guard :: PageGuard
  borrowed :: bool

record LockManager =
  locks :: "(u64 \<times> LockSlot) list"

definition LockSlot_new :: "PageGuard \<Rightarrow> LockSlot" where
  "LockSlot_new guard = \<lparr>slot_guard = guard, borrowed = False\<rparr>"

definition LockManager_new :: LockManager where
  "LockManager_new = \<lparr>locks = []\<rparr>"

fun is_write :: "GuardWrapper \<Rightarrow> bool" where
  "is_write (Write _ _) = True"
| "is_write (Read _ _) = False"

fun guard_page_id :: "GuardWrapper \<Rightarrow> u64" where
  "guard_page_id (Write page _) = page"
| "guard_page_id (Read page _) = page"

fun guard_node :: "GuardWrapper \<Rightarrow> NodeRef" where
  "guard_node (Write _ node) = PageEntry_get_ref node"
| "guard_node (Read _ node) = PageEntry_get_ref node"

section \<open>Guards of one thread\<close>

text \<open>The loop of \<open>PageReadGuard::upgrade\<close> without interference.\<close>

fun upgrade_loop :: "nat \<Rightarrow> page_entry \<Rightarrow> page_entry \<Rightarrow> u64 \<Rightarrow> page_entry result \<times> u64" where
  "upgrade_loop tries node entry w =
    (case upgrade_iter tries node entry w of
       (Upgrading n node e, w') \<Rightarrow>
         if n < tries then upgrade_loop n node e w' else (Inl (QSErr PageLockFail), w')
     | (WriteGuard node, w') \<Rightarrow> (Inr node, w')
     | (_, w') \<Rightarrow> (Inl (QSErr PageLockFail), w'))"

declare upgrade_loop.simps [simp del]

definition upgrade :: "MapTable \<Rightarrow> u64 \<Rightarrow> page_entry \<Rightarrow> page_entry result \<times> MapTable" where
  "upgrade mt page node =
    (let w = get_entry mt (unat page); (r, w') = upgrade_loop SPIN_RETRIES node w w
     in (r, set_entry mt (unat page) w'))"

definition downgrade :: "MapTable \<Rightarrow> u64 \<Rightarrow> page_entry \<Rightarrow> MapTable" where
  "downgrade mt page node =
    set_entry mt (unat page) (snd (downgrade_store node (get_entry mt (unat page))))"

fun drop_guard :: "MapTable \<Rightarrow> GuardWrapper \<Rightarrow> MapTable" where
  "drop_guard mt (Write page _) =
    (let w = get_entry mt (unat page) in set_entry mt (unat page) (snd (drop_write_iter False w w)))"
| "drop_guard mt (Read page _) =
    (let w = get_entry mt (unat page) in set_entry mt (unat page) (snd (drop_read_iter False w w)))"

section \<open>Page guards\<close>

definition guard_load_leaf :: "PageGuard \<Rightarrow> IoEngine \<Rightarrow> u64 \<Rightarrow> bytes result \<times> PageGuard" where
  "guard_load_leaf g io addr =
    (case guard_leaf g of
       Some l \<Rightarrow> (Inr l, g)
     | None \<Rightarrow>
         case get_page io addr of
           Inl e \<Rightarrow> (Inl e, g)
         | Inr new_leaf \<Rightarrow> (Inr new_leaf, g\<lparr>guard_leaf := Some new_leaf\<rparr>))"

definition ensure_write :: "MapTable \<Rightarrow> PageGuard \<Rightarrow> unit result \<times> PageGuard \<times> MapTable" where
  "ensure_write mt g =
    (case guard_inner g of
       Write _ _ \<Rightarrow> (Inr (), g, mt)
     | Read page node \<Rightarrow>
         case upgrade mt page node of
           (Inr node, mt) \<Rightarrow> (Inr (), g\<lparr>guard_inner := Write page node\<rparr>, mt)
         | (Inl e, mt) \<Rightarrow> (Inl e, g, mt))"

text \<open>\<open>temp_upgrade\<close> and the drop of its result, which reverts an upgrade.\<close>

datatype TmpPageWrite = WriteOriginal | ReadOriginal

definition temp_upgrade :: "MapTable \<Rightarrow> GuardWrapper \<Rightarrow> TmpPageWrite result \<times> GuardWrapper \<times> MapTable" where
  "temp_upgrade mt g =
    (case g of
       Write _ _ \<Rightarrow> (Inr WriteOriginal, g, mt)
     | Read page node \<Rightarrow>
         case upgrade mt page node of
           (Inr node, mt) \<Rightarrow> (Inr ReadOriginal, Write page node, mt)
         | (Inl e, mt) \<Rightarrow> (Inl e, g, mt))"

fun TmpPageWrite_drop :: "MapTable \<Rightarrow> TmpPageWrite \<Rightarrow> GuardWrapper \<Rightarrow> GuardWrapper \<times> MapTable" where
  "TmpPageWrite_drop mt ReadOriginal (Write page node) = (Read page node, downgrade mt page node)"
| "TmpPageWrite_drop mt _ g = (g, mt)"

section \<open>The lock manager\<close>

definition get_slot :: "LockManager \<Rightarrow> u64 \<Rightarrow> LockSlot option" where
  "get_slot lm page = map_of (locks lm) page"

definition set_slot :: "LockManager \<Rightarrow> u64 \<Rightarrow> LockSlot \<Rightarrow> LockManager" where
  "set_slot lm page s = lm\<lparr>locks := AList.update page s (locks lm)\<rparr>"

text \<open>Taking a handle of a slot and dropping it; both assert the flag in the debug profile.\<close>

definition PageHandle_acquire :: "LockManager \<Rightarrow> u64 \<Rightarrow> u64 result \<times> LockManager" where
  "PageHandle_acquire lm page =
    (case get_slot lm page of
       None \<Rightarrow> (Inl (Panic PanicExpect), lm)
     | Some s \<Rightarrow>
         if borrowed s then (Inl (Panic PanicAssert), lm)
         else (Inr page, set_slot lm page (s\<lparr>borrowed := True\<rparr>)))"

definition PageHandle_drop :: "LockManager \<Rightarrow> u64 \<Rightarrow> unit result \<times> LockManager" where
  "PageHandle_drop lm page =
    (case get_slot lm page of
       None \<Rightarrow> (Inl UndefinedBehaviour, lm)
     | Some s \<Rightarrow>
         if \<not> borrowed s then (Inl (Panic PanicAssert), lm)
         else (Inr (), set_slot lm page (s\<lparr>borrowed := False\<rparr>)))"

text \<open>An insertion into the hash map drops the slot it replaces, which releases its guard.\<close>

definition insert_slot :: "LockManager \<Rightarrow> MapTable \<Rightarrow> u64 \<Rightarrow> GuardWrapper \<Rightarrow> LockManager \<times> MapTable" where
  "insert_slot lm mt page g =
    (let mt = (case get_slot lm page of None \<Rightarrow> mt | Some s \<Rightarrow> drop_guard mt (guard_inner (slot_guard s)))
     in (set_slot lm page (LockSlot_new \<lparr>guard_inner = g, guard_leaf = None\<rparr>), mt))"

definition insert_write_lock ::
    "LockManager \<Rightarrow> MapTable \<Rightarrow> u64 \<Rightarrow> page_entry \<Rightarrow> u64 result \<times> LockManager \<times> MapTable" where
  "insert_write_lock lm mt page node =
    (let (lm, mt) = insert_slot lm mt page (Write page node);
         (r, lm) = PageHandle_acquire lm page
     in (r, lm, mt))"

definition get_or_acquire_read_lock ::
    "LockManager \<Rightarrow> MapTable \<Rightarrow> u64 \<Rightarrow> PageGuard result \<times> LockManager \<times> MapTable" where
  "get_or_acquire_read_lock lm mt page =
    (case get_slot lm page of
       Some s \<Rightarrow> (Inr (slot_guard s), lm, mt)
     | None \<Rightarrow>
         case read_page_entry mt (unat page) of
           (Inl e, mt) \<Rightarrow> (Inl e, lm, mt)
         | (Inr node, mt) \<Rightarrow>
             let (lm, mt) = insert_slot lm mt page (Read page node)
             in (Inr \<lparr>guard_inner = Read page node, guard_leaf = None\<rparr>, lm, mt))"

definition get_upgrade_or_acquire_write_lock ::
    "LockManager \<Rightarrow> MapTable \<Rightarrow> u64 \<Rightarrow> u64 result \<times> LockManager \<times> MapTable" where
  "get_upgrade_or_acquire_write_lock lm mt page =
    (let (r, lm, mt) =
       (case get_slot lm page of
          Some s \<Rightarrow> (Inr (slot_guard s), lm, mt)
        | None \<Rightarrow>
            case write_page_entry mt (unat page) of
              (Inl e, mt) \<Rightarrow> (Inl e, lm, mt)
            | (Inr node, mt) \<Rightarrow>
                let (lm, mt) = insert_slot lm mt page (Write page node)
                in (Inr \<lparr>guard_inner = Write page node, guard_leaf = None\<rparr>, lm, mt))
     in
       case r of
         Inl e \<Rightarrow> (Inl e, lm, mt)
       | Inr g \<Rightarrow>
           let (r, g, mt) = ensure_write mt g;
               s = (case get_slot lm page of Some s \<Rightarrow> s | None \<Rightarrow> LockSlot_new g);
               lm = set_slot lm page (s\<lparr>slot_guard := g\<rparr>)
           in
             case r of
               Inl e \<Rightarrow> (Inl e, lm, mt)
             | Inr _ \<Rightarrow> (let (r, lm) = PageHandle_acquire lm page in (r, lm, mt)))"

text \<open>The end of a transaction drops the map with all its guards.\<close>

definition LockManager_drop :: "LockManager \<Rightarrow> MapTable \<Rightarrow> MapTable" where
  "LockManager_drop lm mt = fold (\<lambda>(_, s) mt. drop_guard mt (guard_inner (slot_guard s))) (locks lm) mt"

text \<open>\<open>WriteGuardWrapper::get_write_guard\<close>: the page and the entry behind a handle.\<close>

definition get_write_guard :: "LockManager \<Rightarrow> u64 \<Rightarrow> (u64 \<times> page_entry) result" where
  "get_write_guard lm h =
    (case get_slot lm h of
       None \<Rightarrow> Inl UndefinedBehaviour
     | Some s \<Rightarrow>
         case guard_inner (slot_guard s) of
           Write page node \<Rightarrow> Inr (page, node)
         | Read _ _ \<Rightarrow> Inl (Panic PanicUnreachable))"

text \<open>\<open>set_mini_page\<close> through a handle: the entry of the table and the one of the guard.\<close>

definition handle_set_mini_page :: "LockManager \<Rightarrow> MapTable \<Rightarrow> u64 \<Rightarrow> nat \<Rightarrow> unit result \<times> LockManager \<times> MapTable" where
  "handle_set_mini_page lm mt h mini_page =
    (case get_slot lm h of
       None \<Rightarrow> (Inl UndefinedBehaviour, lm, mt)
     | Some s \<Rightarrow>
         case guard_inner (slot_guard s) of
           Write page _ \<Rightarrow>
             let entry = PageEntry_new_write_locked mini_page;
                 s = s\<lparr>slot_guard := (slot_guard s)\<lparr>guard_inner := Write page entry\<rparr>\<rparr>
             in (Inr (), set_slot lm h s, set_entry mt (unat page) entry)
         | Read _ _ \<Rightarrow> (Inl (Panic PanicUnreachable), lm, mt))"

definition handle_load_leaf :: "LockManager \<Rightarrow> IoEngine \<Rightarrow> u64 \<Rightarrow> u64 \<Rightarrow> bytes result \<times> LockManager" where
  "handle_load_leaf lm io h addr =
    (case get_slot lm h of
       None \<Rightarrow> (Inl UndefinedBehaviour, lm)
     | Some s \<Rightarrow>
         let (r, g) = guard_load_leaf (slot_guard s) io addr
         in (r, set_slot lm h (s\<lparr>slot_guard := g\<rparr>)))"

section \<open>Locks of one thread\<close>

lemma get_slot_set_slot [simp]: "get_slot (set_slot lm p s) q = (if p = q then Some s else get_slot lm q)"
  by (simp add: get_slot_def set_slot_def update_conv')

lemma set_slot_set_slot [simp]: "set_slot (set_slot lm p s) p s' = set_slot lm p s'"
  by (simp add: set_slot_def update_last)

lemma get_entry_set_entry:
  "p < MapTable_capacity mt \<Longrightarrow> get_entry (set_entry mt p w) q = (if p = q then w else get_entry mt q)"
  by (auto simp: get_entry_def set_entry_def MapTable_capacity_def)

lemma MapTable_set_entry [simp]:
  "MapTable_capacity (set_entry mt p w) = MapTable_capacity mt"
  "set_entry (set_entry mt p w) p v = set_entry mt p v"
  by (simp_all add: MapTable_capacity_def set_entry_def)

lemma set_entry_same: "p < MapTable_capacity mt \<Longrightarrow> set_entry mt p (get_entry mt p) = mt"
  by (simp add: get_entry_def set_entry_def)

definition write_locked :: "page_entry \<Rightarrow> page_entry" where
  "write_locked w = PageEntry_set_pending_write (PageEntry_set_state w WRITE_LOCK_STATE) False"

lemma write_page_entry_free:
  assumes "PageEntry_state (get_entry mt p) = 0"
  shows "write_page_entry mt p = (Inr (get_entry mt p), set_entry mt p (write_locked (get_entry mt p)))"
proof -
  have "write_loop SPIN_RETRIES w w = (Inr w, write_locked w)" if "PageEntry_state w = 0" for w
    using write_loop_unlocked[of w 13] that by (simp add: SPIN_RETRIES_eq write_locked_def)
  from this[OF assms] show ?thesis by (simp add: write_page_entry_def Let_def)
qed

lemma acquire_write_fresh:
  assumes "get_slot lm page = None" and "PageEntry_state (get_entry mt (unat page)) = 0"
  shows "get_upgrade_or_acquire_write_lock lm mt page =
    (Inr page,
     set_slot lm page
       \<lparr>slot_guard = \<lparr>guard_inner = Write page (get_entry mt (unat page)), guard_leaf = None\<rparr>, borrowed = True\<rparr>,
     set_entry mt (unat page) (write_locked (get_entry mt (unat page))))"
  using assms
  by (simp add: get_upgrade_or_acquire_write_lock_def write_page_entry_free insert_slot_def Let_def
      ensure_write_def PageHandle_acquire_def LockSlot_new_def)

lemma acquire_write_held:
  assumes "get_slot lm page = Some s" and "guard_inner (slot_guard s) = Write page node"
  shows "get_upgrade_or_acquire_write_lock lm mt page =
    (if borrowed s then (Inl (Panic PanicAssert), set_slot lm page s, mt)
     else (Inr page, set_slot lm page (s\<lparr>borrowed := True\<rparr>), mt))"
  using assms
  by (simp add: get_upgrade_or_acquire_write_lock_def ensure_write_def PageHandle_acquire_def Let_def)

lemma read_page_entry_free:
  assumes "PageEntry_state (get_entry mt p) = 0" and "\<not> PageEntry_pending_write (get_entry mt p)"
  shows "read_page_entry mt p = (Inr (get_entry mt p), set_entry mt p (PageEntry_set_state (get_entry mt p) 1))"
proof -
  have "PageEntry_state (get_entry mt p) < WRITE_LOCK_STATE"
    using assms(1) by (simp add: word_less_nat_alt write_lock_state(2))
  from read_loop_unlocked[OF assms(2) this, of 13] assms(1) show ?thesis
    by (simp add: read_page_entry_def SPIN_RETRIES_eq Let_def)
qed

lemma upgrade_only_reader:
  assumes "PageEntry_state (get_entry mt (unat page)) = 1"
  shows "upgrade mt page node =
    (Inr node, set_entry mt (unat page) (PageEntry_set_state (get_entry mt (unat page)) WRITE_LOCK_STATE))"
proof -
  have "upgrade_loop (Suc n) node w w = (Inr node, PageEntry_set_state w WRITE_LOCK_STATE)"
    if "PageEntry_state w = 1" for n w
    using that by (subst upgrade_loop.simps) (simp add: upgrade_iter_def compare_exchange_def Let_def)
  from this[OF assms, of 13] show ?thesis by (simp add: upgrade_def SPIN_RETRIES_eq Let_def)
qed

lemma set_state_set_state:
  assumes "unat s < 2 ^ 14"
  shows "PageEntry_set_state (PageEntry_set_state w s) s' = PageEntry_set_state w s'"
proof (rule bit_word_eqI)
  fix i assume "i < LENGTH(64)"
  then show "bit (PageEntry_set_state (PageEntry_set_state w s) s') i = bit (PageEntry_set_state w s') i"
    using bit_small[OF assms, of i] by (auto simp: bit_set_state)
qed

lemma set_state_same: "PageEntry_state w = 0 \<Longrightarrow> PageEntry_set_state w 0 = w"
proof (rule bit_word_eqI)
  fix i assume "PageEntry_state w = 0" and i: "i < LENGTH(64)"
  then have "\<not> bit w i" if "i < 14" using that bit_state[of w i] by simp
  with i show "bit (PageEntry_set_state w 0) i = bit w i" by (auto simp: bit_set_state)
qed

section \<open>Properties\<close>

text \<open>The locks of a transaction: on a free page a read lock is granted, the same
  transaction upgrades it to a write lock, and the end of the transaction restores the page
  table.\<close>

theorem tx_lock_cycle:
  assumes "unat page < MapTable_capacity mt" and "PageEntry_state (get_entry mt (unat page)) = 0"
    and "\<not> PageEntry_pending_write (get_entry mt (unat page))"
  shows "\<exists>g lm1 mt1 lm2 mt2.
    get_or_acquire_read_lock LockManager_new mt page = (Inr g, lm1, mt1) \<and>
    PageEntry_state (get_entry mt1 (unat page)) = 1 \<and>
    get_upgrade_or_acquire_write_lock lm1 mt1 page = (Inr page, lm2, mt2) \<and>
    PageEntry_state (get_entry mt2 (unat page)) = WRITE_LOCK_STATE \<and>
    get_write_guard lm2 page = Inr (page, get_entry mt (unat page)) \<and>
    LockManager_drop lm2 mt2 = mt"
proof -
  let ?p = "unat page" and ?w = "get_entry mt (unat page)"
  let ?g = "\<lparr>guard_inner = Read page ?w, guard_leaf = None\<rparr>"
  define lm1 where "lm1 = set_slot LockManager_new page (LockSlot_new ?g)"
  define mt1 where "mt1 = set_entry mt ?p (PageEntry_set_state ?w 1)"
  have s1: "get_entry mt1 ?p = PageEntry_set_state ?w 1"
    using assms(1) by (simp add: mt1_def get_entry_set_entry)
  have st1: "PageEntry_state (get_entry mt1 ?p) = 1" by (simp add: s1)
  have r: "get_or_acquire_read_lock LockManager_new mt page = (Inr ?g, lm1, mt1)"
    using assms(2,3)
    by (simp add: get_or_acquire_read_lock_def read_page_entry_free insert_slot_def Let_def lm1_def mt1_def
        get_slot_def LockManager_new_def)
  define mt2 where "mt2 = set_entry mt ?p (PageEntry_set_state ?w WRITE_LOCK_STATE)"
  have up: "upgrade mt1 page ?w = (Inr ?w, mt2)"
    using upgrade_only_reader[OF st1, of ?w] by (simp add: s1 mt2_def set_state_set_state) (simp add: mt1_def)
  define lm2 where "lm2 = set_slot lm1 page
    \<lparr>slot_guard = \<lparr>guard_inner = Write page ?w, guard_leaf = None\<rparr>, borrowed = True\<rparr>"
  have w: "get_upgrade_or_acquire_write_lock lm1 mt1 page = (Inr page, lm2, mt2)"
    by (simp add: get_upgrade_or_acquire_write_lock_def lm1_def lm2_def LockSlot_new_def ensure_write_def up
        PageHandle_acquire_def Let_def)
  have e2: "get_entry mt2 ?p = PageEntry_set_state ?w WRITE_LOCK_STATE"
    using assms(1) by (simp add: mt2_def get_entry_set_entry)
  have "LockManager_drop lm2 mt2 = set_entry mt2 ?p (PageEntry_set_state (get_entry mt2 ?p) 0)"
    by (simp add: LockManager_drop_def lm2_def lm1_def set_slot_def LockManager_new_def
        drop_write_iter_def compare_exchange_def Let_def)
  also have "\<dots> = set_entry mt ?p ?w"
    unfolding e2 using assms(2) by (simp add: mt2_def set_state_set_state set_state_same write_lock_state(2))
  also have "\<dots> = mt" by (rule set_entry_same[OF assms(1)])
  finally have d: "LockManager_drop lm2 mt2 = mt" .
  have "PageEntry_state (get_entry mt2 ?p) = WRITE_LOCK_STATE" by (simp add: e2 write_lock_state(2))
  moreover have "get_write_guard lm2 page = Inr (page, ?w)" by (simp add: get_write_guard_def lm2_def)
  ultimately show ?thesis using r st1 w d by blast
qed

theorem tx_lock_cycle_witness:
  "\<exists>g lm1 mt1 lm2 mt2.
    get_or_acquire_read_lock LockManager_new (snd (init_leaf_entry (MapTable_new 2) 5)) 0 = (Inr g, lm1, mt1) \<and>
    get_upgrade_or_acquire_write_lock lm1 mt1 0 = (Inr 0, lm2, mt2) \<and>
    LockManager_drop lm2 mt2 = snd (init_leaf_entry (MapTable_new 2) 5)"
proof -
  let ?mt = "snd (init_leaf_entry (MapTable_new 2) 5)"
  have "get_entry ?mt 0 = PageEntry_leaf 5" "MapTable_capacity ?mt = 2"
    by (simp_all add: init_leaf_entry_def MapTable_new_def MapTable_capacity_def get_entry_def set_entry_def)
  with tx_lock_cycle[of 0 ?mt] show ?thesis by auto
qed

end
