(* ===== verification/Page_Op.thy ===== *)
theory Page_Op
  imports Node_Ops Buffer Lock_Manager
begin

text \<open>
  page_op.rs: the operations on whole leaf pages.  Splitting and merging copy the records of
  the pages into a plan and rebuild the pages from it; flushing merges the records of a
  mini-page into its page on disk; lookups and puts go through the guard of a page.
\<close>

section \<open>Split\<close>

record LeafEntryOwned =
  owned_key :: bytes
  owned_value :: bytes

record LeafSplitPlan =
  plan_prefix :: bytes
  pivot_key :: bytes
  left_entries :: "LeafEntryOwned list"
  right_entries :: "LeafEntryOwned list"
  lower_fence :: bytes
  upper_fence :: bytes

record LeafSplitOutcome =
  out_pivot_key :: bytes
  left_count :: nat
  right_count :: nat

definition LeafEntryOwned_from_entry :: "bytes \<Rightarrow> leaf_entry \<Rightarrow> LeafEntryOwned" where
  "LeafEntryOwned_from_entry pre entry =
    \<lparr>owned_key = pre @ key_suffix entry, owned_value = entry_value entry\<rparr>"

definition owned_pair :: "LeafEntryOwned \<Rightarrow> bytes \<times> bytes" where
  "owned_pair e = (owned_key e, owned_value e)"

definition LeafSplitPlan_from_node :: "bytes \<Rightarrow> LeafSplitPlan result" where
  "LeafSplitPlan_from_node p =
    (case get_node_prefix p of
       Inl e \<Rightarrow> Inl e
     | Inr pre \<Rightarrow>
         let live_entries = filter (\<lambda>entry. \<not> KVMeta_fence (entry_meta entry)) (entries p) in
         if live_entries = [] then Inl (Panic PanicAssert)
         else
           let move_start = length live_entries div 2;
               pivot_entry = live_entries ! move_start;
               pivot = pre @ key_suffix pivot_entry;
               left = map (LeafEntryOwned_from_entry pre) (take move_start live_entries);
               right = map (LeafEntryOwned_from_entry pre) (drop move_start live_entries)
           in
             case fence_bounds p of
               Inl e \<Rightarrow> Inl e
             | Inr (lower, upper) \<Rightarrow>
                 Inr \<lparr>plan_prefix = pre, pivot_key = pivot, left_entries = left, right_entries = right,
                   lower_fence = lower, upper_fence = upper\<rparr>)"

text \<open>A page reset to two fences and filled with entries, as both plans rebuild a page.\<close>

definition rebuild :: "bytes \<Rightarrow> bytes \<Rightarrow> bytes \<Rightarrow> LeafEntryOwned list \<Rightarrow> unit result \<times> bytes" where
  "rebuild p lower upper es =
    (case reset_user_entries_with_fences p lower upper of
       (Inl e, p) \<Rightarrow> (Inl e, p)
     | (Inr _, p) \<Rightarrow> replay_entries p (map owned_pair es))"

definition LeafSplitPlan_apply ::
    "LeafSplitPlan \<Rightarrow> bytes \<Rightarrow> bytes \<Rightarrow> LeafSplitOutcome result \<times> bytes \<times> bytes" where
  "LeafSplitPlan_apply plan left right =
    (case rebuild left (lower_fence plan) (pivot_key plan) (left_entries plan) of
       (Inl e, left) \<Rightarrow> (Inl e, left, right)
     | (Inr _, left) \<Rightarrow>
         case rebuild right (pivot_key plan) (upper_fence plan) (right_entries plan) of
           (Inl e, right) \<Rightarrow> (Inl e, left, right)
         | (Inr _, right) \<Rightarrow>
             (Inr \<lparr>out_pivot_key = pivot_key plan, left_count = length (left_entries plan),
                right_count = length (right_entries plan)\<rparr>, left, right))"

section \<open>Merge\<close>

record LeafMergePlan =
  merge_entries :: "LeafEntryOwned list"
  survivor_lower :: bytes
  survivor_upper :: bytes
  removed_lower :: bytes
  removed_upper :: bytes

definition owned_entries :: "bytes \<Rightarrow> LeafEntryOwned list result" where
  "owned_entries p =
    (case get_node_prefix p of
       Inl e \<Rightarrow> Inl e
     | Inr pre \<Rightarrow>
         Inr (map (LeafEntryOwned_from_entry pre)
           (filter (\<lambda>entry. \<not> KVMeta_fence (entry_meta entry)) (entries p))))"

definition LeafMergePlan_from_nodes :: "bytes \<Rightarrow> bytes \<Rightarrow> LeafMergePlan result" where
  "LeafMergePlan_from_nodes left right =
    (case (owned_entries left, owned_entries right, fence_bounds left, fence_bounds right) of
       (Inr ls, Inr rs, Inr (left_lower, _), Inr (right_lower, right_upper)) \<Rightarrow>
         Inr \<lparr>merge_entries = ls @ rs, survivor_lower = left_lower, survivor_upper = right_upper,
           removed_lower = right_lower, removed_upper = right_upper\<rparr>
     | (Inl e, _) \<Rightarrow> Inl e
     | (_, Inl e, _) \<Rightarrow> Inl e
     | (_, _, Inl e, _) \<Rightarrow> Inl e
     | (_, _, _, Inl e) \<Rightarrow> Inl e)"

definition LeafMergePlan_apply :: "LeafMergePlan \<Rightarrow> bytes \<Rightarrow> bytes \<Rightarrow> nat result \<times> bytes \<times> bytes" where
  "LeafMergePlan_apply plan survivor removed =
    (case rebuild survivor (survivor_lower plan) (survivor_upper plan) (merge_entries plan) of
       (Inl e, survivor) \<Rightarrow> (Inl e, survivor, removed)
     | (Inr _, survivor) \<Rightarrow>
         case reset_user_entries_with_fences removed (removed_lower plan) (removed_upper plan) of
           (Inl e, removed) \<Rightarrow> (Inl e, survivor, removed)
         | (Inr _, removed) \<Rightarrow> (Inr (length (merge_entries plan)), survivor, removed))"

section \<open>Flush\<close>

text \<open>\<open>disk_leaf.get_or_insert_with\<close>: the page on disk, read when it is first needed.\<close>

definition disk_leaf_or_load :: "IoEngine \<Rightarrow> u64 \<Rightarrow> bytes option \<Rightarrow> bytes result" where
  "disk_leaf_or_load io leaf_addr disk_leaf =
    (case disk_leaf of Some d \<Rightarrow> Inr d | None \<Rightarrow> get_page io leaf_addr)"

text \<open>
  The loop over the records: the page on disk, if it was needed, and the indices of the
  tombstones.  An error of the put ends in the panic of \<open>expect\<close>.
\<close>

fun flush_loop ::
    "bytes \<Rightarrow> IoEngine \<Rightarrow> u64 \<Rightarrow> nat list \<Rightarrow> bytes option \<Rightarrow> nat list \<Rightarrow> (bytes option \<times> nat list) result" where
  "flush_loop p io leaf_addr [] disk_leaf tombstones = Inr (disk_leaf, tombstones)"
| "flush_loop p io leaf_addr (i # is) disk_leaf tombstones =
    (let kv = get_kv_meta p i in
     if KVMeta_fence kv then flush_loop p io leaf_addr is disk_leaf tombstones
     else if KVMeta_typ kv = KVTombstone then
       (case disk_leaf_or_load io leaf_addr disk_leaf of
          Inl e \<Rightarrow> Inl e
        | Inr entry \<Rightarrow>
            case get_node_prefix p of
              Inl e \<Rightarrow> Inl e
            | Inr pre \<Rightarrow>
                case remove_key_physical entry (pre @ get_stored_key_from_meta p kv) of
                  (Inl e, _) \<Rightarrow> Inl e
                | (Inr _, entry) \<Rightarrow> flush_loop p io leaf_addr is (Some entry) (tombstones @ [i]))
     else if KVRecordType_is_dirty (KVMeta_typ kv) then
       (case disk_leaf_or_load io leaf_addr disk_leaf of
          Inl e \<Rightarrow> Inl e
        | Inr entry \<Rightarrow>
            case try_put_with_suffix entry (get_stored_key_from_meta p kv) (get_val_from_meta p kv) of
              (Inl InsufficientSpace, _) \<Rightarrow> Inl (Panic PanicExpect)
            | (Inl e, _) \<Rightarrow> Inl e
            | (Inr _, entry) \<Rightarrow> flush_loop p io leaf_addr is (Some entry) tombstones)
     else flush_loop p io leaf_addr is disk_leaf tombstones)"

fun remove_entries :: "bytes \<Rightarrow> nat list \<Rightarrow> unit result \<times> bytes" where
  "remove_entries p [] = (Inr (), p)"
| "remove_entries p (i # is) =
    (case remove_entry_at p i of (Inl e, p) \<Rightarrow> (Inl e, p) | (Inr _, p) \<Rightarrow> remove_entries p is)"

definition flush_dirty_entries :: "bytes \<Rightarrow> IoEngine \<Rightarrow> unit result \<times> bytes \<times> IoEngine" where
  "flush_dirty_entries p io =
    (let leaf_addr = NodeMeta_leaf (node_header p) in
     case flush_loop p io leaf_addr [0..<record_count p] None [] of
       Inl e \<Rightarrow> (Inl e, p, io)
     | Inr (disk_leaf, tombstones) \<Rightarrow>
         case (case disk_leaf of None \<Rightarrow> (Inr (), io) | Some dirty_leaf \<Rightarrow> write_page io leaf_addr dirty_leaf) of
           (Inl e, io) \<Rightarrow> (Inl e, p, io)
         | (Inr _, io) \<Rightarrow> (case remove_entries p (rev tombstones) of (r, p) \<Rightarrow> (r, p, io)))"

section \<open>Operations through a guard\<close>

definition ensure_page :: "IoEngine \<Rightarrow> bytes option \<Rightarrow> u64 \<Rightarrow> bytes result \<times> bytes option" where
  "ensure_page io leaf addr =
    (case leaf of
       Some l \<Rightarrow> (Inr l, leaf)
     | None \<Rightarrow>
         case get_page io addr of
           Inl e \<Rightarrow> (Inl e, leaf)
         | Inr new_leaf \<Rightarrow> (Inr new_leaf, Some new_leaf))"

text \<open>A lookup on the page on disk, which stays in the guard.\<close>

definition get_on_disk :: "PageGuard \<Rightarrow> IoEngine \<Rightarrow> u64 \<Rightarrow> bytes \<Rightarrow> bytes option result \<times> PageGuard" where
  "get_on_disk g io addr key =
    (case ensure_page io (guard_leaf g) addr of
       (Inl e, l) \<Rightarrow> (Inl e, g\<lparr>guard_leaf := l\<rparr>)
     | (Inr leaf, l) \<Rightarrow> (node_get leaf key, g\<lparr>guard_leaf := l\<rparr>))"

definition PageGuard_get ::
    "MiniPageBuffer \<Rightarrow> IoEngine \<Rightarrow> PageGuard \<Rightarrow> bytes \<Rightarrow> bytes option result \<times> PageGuard" where
  "PageGuard_get cache io g key =
    (case guard_node (guard_inner g) of
       Leaf addr \<Rightarrow> get_on_disk g io addr key
     | MiniPage idx \<Rightarrow>
         let node_meta = get_meta_ref cache idx in
         case get_node_prefix node_meta of
           Inl e \<Rightarrow> (Inl e, g)
         | Inr pre \<Rightarrow>
             if length key < length pre then (Inl (Panic PanicBounds), g)
             else
               case leaf_binary_search node_meta (drop (length pre) key) of
                 Inr i \<Rightarrow>
                   let kv = get_kv_meta node_meta i
                   in (Inr (if KVRecordType_exists (KVMeta_typ kv) then Some (get_val_from_meta node_meta kv) else None), g)
               | Inl _ \<Rightarrow> get_on_disk g io (NodeMeta_leaf (node_header node_meta)) key)"

datatype TryPutResult = Success | NeedsPromotion u64 | NeedsSplit

definition mark_page_hot :: "bytes \<Rightarrow> bytes" where
  "mark_page_hot p = set_node_header p (NodeMeta_mark_hot (node_header p))"

definition guard_try_put ::
    "LockManager \<Rightarrow> u64 \<Rightarrow> MiniPageBuffer \<Rightarrow> bytes \<Rightarrow> bytes \<Rightarrow> TryPutResult result \<times> MiniPageBuffer" where
  "guard_try_put lm h cache key val =
    (case get_write_guard lm h of
       Inl e \<Rightarrow> (Inl e, cache)
     | Inr (_, node) \<Rightarrow>
         case PageEntry_get_ref node of
           Leaf addr \<Rightarrow> (Inr (NeedsPromotion addr), cache)
         | MiniPage idx \<Rightarrow>
             case try_put (get_meta_ref cache idx) key val of
               (Inr _, p) \<Rightarrow> (Inr Success, put_meta cache idx (mark_page_hot p))
             | (Inl InsufficientSpace, p) \<Rightarrow> (Inr NeedsSplit, put_meta cache idx p)
             | (Inl e, p) \<Rightarrow> (Inl e, put_meta cache idx p))"

definition merge_to_disk ::
    "LockManager \<Rightarrow> u64 \<Rightarrow> MiniPageBuffer \<Rightarrow> IoEngine \<Rightarrow> unit result \<times> MiniPageBuffer \<times> IoEngine" where
  "merge_to_disk lm h buffer io =
    (case get_write_guard lm h of
       Inl e \<Rightarrow> (Inl e, buffer, io)
     | Inr (_, node) \<Rightarrow>
         case PageEntry_get_ref node of
           Leaf _ \<Rightarrow> (Inl (Panic PanicUnreachable), buffer, io)
         | MiniPage i \<Rightarrow>
             case flush_dirty_entries (get_meta_ref buffer i) io of
               (r, p, io) \<Rightarrow> (r, put_meta buffer i p, io))"

section \<open>The records of a page\<close>

lemma upt_ends: "2 \<le> n \<Longrightarrow> [0..<n] = 0 # [1..<n - 1] @ [n - 1]"
  using upt_split3[of 0 0 n] upt_split3[of 1 "n - 1" n] by simp

lemma filter_not_fence:
  assumes "leaf_wf p"
  shows "filter (\<lambda>i. \<not> KVMeta_fence (get_kv_meta p i)) [0..<record_count p] = user_range p"
proof -
  let ?n = "record_count p"
  have "[0..<?n] = 0 # [1..<?n - 1] @ [?n - 1]" by (rule upt_ends) (rule leaf_wfD(2)[OF assms])
  moreover have "filter (\<lambda>i. \<not> KVMeta_fence (get_kv_meta p i)) [1..<?n - 1] = [1..<?n - 1]"
    using leaf_wfD(9)[OF assms] by (intro filter_True) auto
  ultimately show ?thesis
    using leaf_wfD(7,8)[OF assms] by (simp only: user_range_def filter.simps filter_append if_False append_Nil2 simp_thms)
qed

lemma record_type_exists [simp]: "KVRecordType_exists t"
  by (cases t) (simp_all add: KVRecordType_exists_def)

lemma live_entries_eq:
  assumes "leaf_wf p"
  shows "filter (\<lambda>e. \<not> KVMeta_fence (entry_meta e)) (entries p) =
    map (\<lambda>i. \<lparr>entry_meta = get_kv_meta p i, key_suffix = stored_key p i, entry_value = stored_val p i\<rparr>)
      (user_range p)"
proof -
  have "entries p = map (\<lambda>i. \<lparr>entry_meta = get_kv_meta p i, key_suffix = stored_key p i, entry_value = stored_val p i\<rparr>)
      [0..<record_count p]"
    by (simp add: entries_def stored_key_def stored_val_def)
  then show ?thesis
    using filter_not_fence[OF assms] by (simp add: filter_map o_def)
qed

lemma owned_pairs_full:
  assumes "leaf_wf p"
  shows "map (owned_pair \<circ> LeafEntryOwned_from_entry (node_prefix p))
      (filter (\<lambda>e. \<not> KVMeta_fence (entry_meta e)) (entries p)) = full_records p"
  by (simp add: live_entries_eq[OF assms] full_records_def user_records_def o_def
      LeafEntryOwned_from_entry_def owned_pair_def)

lemma owned_entries_eq:
  assumes "leaf_wf p"
  obtains es where "owned_entries p = Inr es" "map owned_pair es = full_records p"
  using owned_pairs_full[OF assms] get_node_prefix_eq[OF assms] by (simp add: owned_entries_def)

section \<open>Keys between the fences\<close>

lemma between_common_prefix:
  assumes "lo \<le> k" "k \<le> hi"
  shows "prefix (take (common_prefix_len lo hi) lo) (k :: bytes)"
  using assms
proof (induction lo hi arbitrary: k rule: common_prefix_len.induct)
  case (1 a as b bs)
  show ?case
  proof (cases "a = b")
    case True
    with "1.prems" obtain ks where "k = a # ks" "as \<le> ks" "ks \<le> bs"
      by (cases k) (auto simp: Cons_le_Cons)
    with "1.IH"[OF True] True show ?thesis by simp
  qed simp
qed simp_all

text \<open>The full keys of a page lie between its fences, as a search through the tree assumes.\<close>

definition leaf_bounded :: "bytes \<Rightarrow> bool" where
  "leaf_bounded p \<longleftrightarrow>
    (case fence_bounds p of
       Inl _ \<Rightarrow> False
     | Inr (lo, hi) \<Rightarrow> \<forall>k \<in> set (map fst (full_records p)). lo \<le> k \<and> k < hi)"

lemma node_prefix_fences: "leaf_wf p \<Longrightarrow> fence_bounds p = Inr (lo, hi) \<Longrightarrow> node_prefix p = take (common_prefix_len lo hi) lo"
  by (auto simp: fence_bounds_eq node_prefix_def Let_def)

lemma full_records_sorted:
  assumes "leaf_wf p" shows "key_sorted (full_records p)"
proof -
  have "map fst (full_records p) = map (\<lambda>i. node_prefix p @ stored_key p i) (user_range p)"
    by (simp add: full_records_def user_records_def)
  with leaf_wfD(11)[OF assms] show ?thesis by (simp add: sorted_wrt_map)
qed

section \<open>Room for several records\<close>

text \<open>The bytes that a list of records needs at most, metadata included.\<close>

definition records_size :: "(bytes \<times> bytes) list \<Rightarrow> nat" where
  "records_size es = sum_list (map (\<lambda>(k, v). 8 + length k + length v) es)"

definition leaf_space :: "bytes \<Rightarrow> nat \<Rightarrow> bool" where
  "leaf_space p n \<longleftrightarrow>
    (case find_min_offset p of Inl _ \<Rightarrow> False | Inr mo \<Rightarrow> kv_slot (record_count p) + n \<le> mo)"

lemma leaf_room_space: "leaf_room p n = leaf_space p (8 + n)"
  by (simp add: leaf_room_def leaf_space_def kv_slot_def algebra_simps split: sum.splits)

lemma leaf_space_mono: "leaf_space p n \<Longrightarrow> m \<le> n \<Longrightarrow> leaf_space p m"
  by (auto simp: leaf_space_def split: sum.splits)

lemma find_min_offset_eqI:
  assumes "i < record_count p" "KVMeta_offset (get_kv_meta p i) = mo"
    and "\<And>j. j < record_count p \<Longrightarrow> mo \<le> KVMeta_offset (get_kv_meta p j)"
  shows "find_min_offset p = Inr mo"
proof -
  have "0 < record_count p" using assms(1) by simp
  then obtain m where m: "find_min_offset p = Inr m"
    "\<And>i. i < record_count p \<Longrightarrow> m \<le> KVMeta_offset (get_kv_meta p i)"
    "\<exists>i < record_count p. m = KVMeta_offset (get_kv_meta p i)"
    by (rule find_min_offset_spec) blast
  with assms have "m \<le> mo" "mo \<le> m" by auto
  with m(1) show ?thesis by simp
qed

lemma put_new_space:
  assumes wf: "leaf_wf p" and idx: "1 \<le> idx" "idx < record_count p"
    and room: "leaf_space p (8 + length k + length v + n)" and put: "put_new p idx k v = (r, q)"
  shows "leaf_space q n"
proof -
  have lr: "leaf_room p (length k + length v)"
    unfolding leaf_room_space by (rule leaf_space_mono[OF room]) simp
  obtain q' mo where q: "put_new p idx k v = (Inr (), q')" "find_min_offset p = Inr mo"
    "kv_slot (record_count p + 1) + length k + length v \<le> mo" "record_count q' = record_count p + 1"
    "\<forall>j. j \<le> record_count p \<longrightarrow> get_kv_meta q' j =
       (if j < idx then get_kv_meta p j
        else if j = idx then KVMeta_new (length k) (length v) (mo - (length k + length v)) KVInsert False True (get_lookahead k)
        else get_kv_meta p (j - 1))"
    by (rule put_new_spec[OF wf idx lr]) blast
  have "mo \<le> length p"
    using find_min_offset_le[OF q(2), of 0] leaf_wfD(2)[OF wf] leaf_wfD(5)[OF wf, of 0]
    by (simp add: kv_end_def)
  then have mo: "mo < 2 ^ 16" "length k < 2 ^ 14" "length v < 2 ^ 14"
    using leaf_wfD(1)[OF wf] q(3) by auto
  have off: "KVMeta_offset (get_kv_meta q' idx) = mo - (length k + length v)"
    using q(5) idx mo by simp
  have "find_min_offset q' = Inr (mo - (length k + length v))"
  proof (rule find_min_offset_eqI[OF _ off])
    show "idx < record_count q'" using idx q(4) by simp
    fix j assume "j < record_count q'"
    then have j: "j \<le> record_count p" using q(4) by simp
    then show "mo - (length k + length v) \<le> KVMeta_offset (get_kv_meta q' j)"
      using q(5) off find_min_offset_le[OF q(2), of j] find_min_offset_le[OF q(2), of "j - 1"] idx
      by (cases "j = idx") (auto intro: order_trans[OF diff_le_self])
  qed
  moreover have "kv_slot (record_count p) + (8 + length k + length v + n) \<le> mo"
    using room q(2) by (simp add: leaf_space_def)
  ultimately have "leaf_space q' n"
    unfolding leaf_space_def q(4) by (simp add: kv_slot_def)
  with q(1) put show ?thesis by simp
qed

lemma leaf_put_fresh:
  assumes wf: "leaf_wf p" and key: "prefix (node_prefix p) key" and fresh: "map_of (full_records p) key = None"
    and space: "leaf_space p (8 + length key + length v + n)"
  shows "put_fits p key v" and "try_put p key v = (r, q) \<Longrightarrow> leaf_space q n"
proof -
  obtain k where k: "key = node_prefix p @ k" using key by (auto simp: prefix_def)
  have absent: "map_of (user_records p) k = None"
    using fresh by (simp add: full_records_def k map_of_prefix)
  have sp: "leaf_space p (8 + length k + length v + n)" by (rule leaf_space_mono[OF space]) (simp add: k)
  then have "leaf_space p (8 + (length k + length v))" by (rule leaf_space_mono) simp
  then show "put_fits p key v"
    by (simp add: put_fits_def suffix_fits_def k absent leaf_room_space)
  assume put: "try_put p key v = (r, q)"
  have "\<not> record_count p < 2" using leaf_wfD(2)[OF wf] by simp
  with put have put': "try_put_with_suffix p k v = (r, q)"
    by (simp add: try_put_def get_node_prefix_eq[OF wf] k)
  from wf show "leaf_space q n"
  proof (cases rule: leaf_binary_search_cases[where k = k])
    case (found m)
    with leaf_search_map(1)[OF wf found(1)] absent show ?thesis by simp
  next
    case (absent l)
    with put' have "put_new p l k v = (r, q)" by (simp add: try_put_with_suffix_def)
    from put_new_space[OF wf absent(2,3) sp this] show ?thesis .
  qed
qed

lemma records_size_Cons [simp]: "records_size ((k, v) # es) = 8 + length k + length v + records_size es"
  by (simp add: records_size_def)

lemma records_size_Nil [simp]: "records_size [] = 0"
  by (simp add: records_size_def)

lemma admitted_fresh:
  assumes "leaf_wf p" and "distinct (map fst es)"
    and "\<forall>k \<in> set (map fst es). prefix (node_prefix p) k \<and> map_of (full_records p) k = None"
    and "leaf_space p (records_size es)"
  shows "all_admitted (\<lambda>p k v. prefix (node_prefix p) k \<and> put_fits p k v) try_put p es"
  using assms
proof (induction es arbitrary: p)
  case (Cons e es)
  obtain k v where e: "e = (k, v)" by (cases e)
  obtain r q where q: "try_put p k v = (r, q)" by fastforce
  have k: "prefix (node_prefix p) k" "map_of (full_records p) k = None" using Cons.prems(3) e by auto
  have sp: "leaf_space p (8 + length k + length v + records_size es)" using Cons.prems(4) e by simp
  note F = leaf_put_fresh[OF Cons.prems(1) k sp]
  note S = try_put_spec[OF Cons.prems(1) k(1) F(1) q]
  have "all_admitted (\<lambda>p k v. prefix (node_prefix p) k \<and> put_fits p k v) try_put q es"
  proof (rule Cons.IH[OF S(2)])
    show "distinct (map fst es)" using Cons.prems(2) by simp
    show "\<forall>k \<in> set (map fst es). prefix (node_prefix q) k \<and> map_of (full_records q) k = None"
      using Cons.prems(2,3) e by (auto simp: S(3,5) map_of_upsert)
    show "leaf_space q (records_size es)" by (rule F(2)[OF q])
  qed
  with k F(1) q e show ?case by simp
qed simp

lemma fold_upsert_sorted:
  "key_sorted (acc @ es) \<Longrightarrow> fold (\<lambda>(k, v). upsert k v) es acc = acc @ (es :: ('k::linorder \<times> 'v) list)"
proof (induction es arbitrary: acc)
  case (Cons e es)
  obtain k v where e: "e = (k, v)" by (cases e)
  have "upsert k v (acc @ []) = acc @ [(k, v)]"
    using Cons.prems e by (intro upsert_absent) (auto simp: sorted_wrt_append)
  with Cons.IH[of "acc @ [e]"] Cons.prems e show ?case by simp
qed simp

lemma install_fences_space:
  assumes "NodeMeta_size (node_header p) = Some sz" and len: "length p = NodeSize_size_in_bytes sz"
    and fit: "32 + length lower + length upper + n \<le> length p"
    and q: "install_fences p lower upper = (r, q)"
  shows "leaf_space q n"
proof -
  define lo where "lo = length p - length upper - length lower"
  define uo where "uo = length p - length upper"
  have fit': "32 + length lower + length upper \<le> length p" using fit by simp
  obtain spec: "length q = length p" "node_header q = NodeMeta_set_record_count (node_header p) 2"
      "get_kv_meta q 0 = KVMeta_set_offset (KVMeta_new (length lower) 0 0 KVCache True True 0) (word_of_nat lo)"
      "get_kv_meta q 1 = KVMeta_set_offset (KVMeta_new (length upper) 0 0 KVCache True True 0) (word_of_nat uo)"
    using install_fences_spec[OF assms(1) len fit'] q unfolding lo_def uo_def by auto
  have l: "length p \<le> 4096" using NodeSize_bytes_bounds[of sz] len by simp
  have cnt: "record_count q = 2" by (simp add: record_count_def spec(2))
  have b: "lo < 65536" "uo < 65536" using l by (auto simp: lo_def uo_def)
  have offs: "KVMeta_offset (get_kv_meta q 0) = lo" "KVMeta_offset (get_kv_meta q 1) = uo"
    unfolding spec(3,4) using b by (simp_all add: unat_of_nat)
  have "find_min_offset q = Inr lo"
  proof (rule find_min_offset_eqI[of 0])
    fix j assume "j < record_count q"
    then have "j = 0 \<or> j = 1" using cnt by auto
    then show "lo \<le> KVMeta_offset (get_kv_meta q j)" using offs by (auto simp: lo_def uo_def)
  qed (simp_all add: cnt offs)
  then show ?thesis using fit by (simp add: leaf_space_def cnt kv_slot_def lo_def size_of_NodeMeta_def)
qed

lemma leaf_space_overwrite:
  assumes wf: "leaf_wf p" and w: "map_of (user_records p) k = Some w" "length w = length v"
    and sp: "leaf_space p n"
  shows "leaf_space (snd (try_put_with_suffix p k v)) n"
  using wf
proof (cases rule: leaf_binary_search_cases[where k = k])
  case (found m)
  have m: "m < record_count p" "KVMeta_val_size (get_kv_meta p m) = length v"
    using found(3) w leaf_search_map(1)[OF wf found(1)] length_stored_val[OF wf, of m] by auto
  obtain r q where q: "put_val_from_meta p (get_kv_meta p m) v = (r, q)" by fastforce
  note P = put_val_spec[OF wf m q]
  have "map (\<lambda>i. KVMeta_offset (get_kv_meta q i)) [0..<record_count q] =
      map (\<lambda>i. KVMeta_offset (get_kv_meta p i)) [0..<record_count p]"
    by (simp add: P(4,5))
  then have "find_min_offset q = find_min_offset p" by (simp add: find_min_offset_def)
  then have "leaf_space q n" using sp by (simp only: leaf_space_def P(4))
  with q found(1) m(2) show ?thesis by (simp add: try_put_with_suffix_def put_existing_def)
next
  case (absent l)
  with leaf_search_map(2)[OF wf absent(1)] w show ?thesis by simp
qed

lemma leaf_space_insert:
  assumes wf: "leaf_wf p" and new: "map_of (user_records p) k = None"
    and sp: "leaf_space p (8 + length k + length v + n)"
  shows "suffix_fits p k v" and "leaf_space (snd (try_put_with_suffix p k v)) n"
proof -
  have "leaf_space p (8 + (length k + length v))" by (rule leaf_space_mono[OF sp]) simp
  then show "suffix_fits p k v" by (simp add: suffix_fits_def new leaf_room_space)
  from wf show "leaf_space (snd (try_put_with_suffix p k v)) n"
  proof (cases rule: leaf_binary_search_cases[where k = k])
    case (found m)
    with leaf_search_map(1)[OF wf found(1)] new show ?thesis by simp
  next
    case (absent l)
    obtain r q where "put_new p l k v = (r, q)" by fastforce
    with put_new_space[OF wf absent(2,3) sp this] absent(1) show ?thesis
      by (simp add: try_put_with_suffix_def)
  qed
qed

section \<open>Rebuilding a page\<close>

lemma run_puts_keeps:
  assumes "leaf_wf p" and "all_admitted (\<lambda>p k v. prefix (node_prefix p) k \<and> put_fits p k v) try_put p es"
  shows "fence_bounds (snd (run_puts try_put p es)) = fence_bounds p \<and>
      length (snd (run_puts try_put p es)) = length p \<and> page_ident (snd (run_puts try_put p es)) = page_ident p"
  using assms
proof (induction es arbitrary: p)
  case (Cons e es)
  obtain k v where e: "e = (k, v)" by (cases e)
  obtain r q where q: "try_put p k v = (r, q)" by fastforce
  have "prefix (node_prefix p) k" "put_fits p k v" using Cons.prems(2) e by auto
  note S = try_put_spec[OF Cons.prems(1) this q]
  have "all_admitted (\<lambda>p k v. prefix (node_prefix p) k \<and> put_fits p k v) try_put q es"
    using Cons.prems(2) e q by simp
  from Cons.IH[OF S(2) this] S e q show ?case by simp
qed simp

lemma rebuild_spec:
  assumes sz: "NodeMeta_size (node_header p) = Some sz" and len: "length p = NodeSize_size_in_bytes sz"
    and sorted: "key_sorted (map owned_pair es)"
    and between: "\<forall>k \<in> set (map owned_key es). lower \<le> k \<and> k < upper"
    and fit: "32 + length lower + length upper + records_size (map owned_pair es) \<le> length p"
  obtains q where "rebuild p lower upper es = (Inr (), q)" "leaf_wf q" "full_records q = map owned_pair es"
    "fence_bounds q = Inr (lower, upper)" "length q = length p" "leaf_bounded q"
    "page_ident q = page_ident p"
proof -
  obtain r p' where p': "install_fences p lower upper = (r, p')" by fastforce
  have "32 + length lower + length upper \<le> length p" using fit by simp
  note F = install_fences_wf[OF sz len this p']
  let ?es = "map owned_pair es"
  have pre: "node_prefix p' = take (common_prefix_len lower upper) lower"
    by (rule node_prefix_fences[OF F(2,4)])
  have full: "full_records p' = []" by (simp add: full_records_def F(3))
  have adm: "all_admitted (\<lambda>p k v. prefix (node_prefix p) k \<and> put_fits p k v) try_put p' ?es"
  proof (rule admitted_fresh[OF F(2)])
    show "distinct (map fst ?es)" using sorted by (simp only: strict_sorted_iff)
    show "\<forall>k \<in> set (map fst ?es). prefix (node_prefix p') k \<and> map_of (full_records p') k = None"
      using between by (auto simp: full pre owned_pair_def intro: between_common_prefix less_imp_le)
    show "leaf_space p' (records_size ?es)" by (rule install_fences_space[OF sz len fit p'])
  qed
  from leaf_page.run_recs[OF F(2) adm]
  obtain q where q: "run_puts try_put p' ?es = (Inr (), q)" "leaf_wf q"
    "full_records q = fold (\<lambda>(k, v). upsert k v) ?es (full_records p')" by blast
  have "rebuild p lower upper es = (Inr (), q)"
    using p' q(1) F(1) by (simp add: rebuild_def reset_user_entries_with_fences_def replay_entries_run)
  moreover have es: "full_records q = ?es"
    using q(3) sorted fold_upsert_sorted[of "[]" ?es] by (simp add: full)
  moreover have fb: "fence_bounds q = Inr (lower, upper)" and "length q = length p" "page_ident q = page_ident p'"
    using run_puts_keeps[OF F(2) adm] q(1) F(4,5) by simp_all
  moreover have "leaf_bounded q" using between by (simp add: leaf_bounded_def fb es owned_pair_def)
  moreover have "page_ident p' = page_ident p" by (simp add: page_ident_def F(6))
  ultimately show thesis using that q(2) by simp
qed

section \<open>Plans\<close>

lemma split_plan_spec:
  assumes wf: "leaf_wf p" and ne: "full_records p \<noteq> []" and fb: "fence_bounds p = Inr (lo, hi)"
  defines "m \<equiv> length (full_records p) div 2"
  obtains plan where "LeafSplitPlan_from_node p = Inr plan"
    "map owned_pair (left_entries plan) = take m (full_records p)"
    "map owned_pair (right_entries plan) = drop m (full_records p)"
    "pivot_key plan = fst (full_records p ! m)" "lower_fence plan = lo" "upper_fence plan = hi"
proof -
  let ?live = "filter (\<lambda>e. \<not> KVMeta_fence (entry_meta e)) (entries p)"
  let ?own = "LeafEntryOwned_from_entry (node_prefix p)"
  have own: "map (owned_pair \<circ> ?own) ?live = full_records p" by (rule owned_pairs_full[OF wf])
  then have len: "length ?live = length (full_records p)" by (metis length_map)
  then have ne': "?live \<noteq> []" and m: "m < length ?live" using ne by (auto simp: m_def)
  have "full_records p ! m = owned_pair (?own (?live ! m))"
    using own m by (metis comp_apply nth_map)
  then have pivot: "node_prefix p @ key_suffix (?live ! m) = fst (full_records p ! m)"
    by (simp add: owned_pair_def LeafEntryOwned_from_entry_def)
  show thesis
  proof (rule that)
    show "LeafSplitPlan_from_node p = Inr \<lparr>plan_prefix = node_prefix p,
        pivot_key = node_prefix p @ key_suffix (?live ! m), left_entries = map ?own (take m ?live),
        right_entries = map ?own (drop m ?live), lower_fence = lo, upper_fence = hi\<rparr>"
      using ne' fb len by (simp add: LeafSplitPlan_from_node_def get_node_prefix_eq[OF wf] Let_def m_def)
  qed (use own pivot in \<open>simp_all add: take_map drop_map flip: own map_map\<close>)
qed

lemma set_full_bounded:
  assumes "leaf_bounded p" "fence_bounds p = Inr (lo, hi)" "k \<in> set (map fst (full_records p))"
  shows "lo \<le> k" "k < hi"
  using assms by (auto simp: leaf_bounded_def)

lemma owned_keys: "map owned_key es = map fst (map owned_pair es)"
  by (simp add: owned_pair_def)

lemma key_sorted_split:
  assumes "key_sorted kvs" "m < length kvs"
  shows "key_sorted (take m kvs)" "key_sorted (drop m kvs)"
    "k \<in> set (map fst (take m kvs)) \<Longrightarrow> k < fst (kvs ! m)"
    "k \<in> set (map fst (drop m kvs)) \<Longrightarrow> fst (kvs ! m) \<le> (k :: 'k::linorder)"
proof -
  have d: "drop m kvs = kvs ! m # drop (Suc m) kvs" using assms(2) by (simp add: Cons_nth_drop_Suc)
  have "sorted_wrt (<) (map fst (take m kvs @ drop m kvs))" using assms(1) by simp
  then have s: "key_sorted (take m kvs)" "key_sorted (drop m kvs)"
    "\<forall>x \<in> set (map fst (take m kvs)). \<forall>y \<in> set (map fst (drop m kvs)). x < y"
    unfolding map_append sorted_wrt_append by blast+
  then show "key_sorted (take m kvs)" "key_sorted (drop m kvs)" by blast+
  show "k < fst (kvs ! m)" if "k \<in> set (map fst (take m kvs))" using s(3) that unfolding d by auto
  show "fst (kvs ! m) \<le> k" if "k \<in> set (map fst (drop m kvs))" using s(2) that unfolding d by auto
qed

section \<open>Properties of split and merge\<close>

text \<open>C17: A split divides a leaf at its middle record.  For a well-formed page with at least one
  record, whose keys lie between its fences, and two target pages that can hold the halves, the
  plan succeeds: the left page holds the records below the pivot, the right page those from the
  pivot on, no record is lost, the fences meet in the pivot, and both pages are well-formed with
  their keys between their fences.\<close>

theorem leaf_split_partitions:
  assumes "leaf_wf p" and "leaf_bounded p" and "full_records p \<noteq> []" and "fence_bounds p = Inr (lo, hi)"
    and "NodeMeta_size (node_header left) = Some sz" and "length left = NodeSize_size_in_bytes sz"
    and "NodeMeta_size (node_header right) = Some sz'" and "length right = NodeSize_size_in_bytes sz'"
    and "32 + length lo + length (fst (full_records p ! (length (full_records p) div 2))) +
      records_size (take (length (full_records p) div 2) (full_records p)) \<le> length left"
    and "32 + length hi + length (fst (full_records p ! (length (full_records p) div 2))) +
      records_size (drop (length (full_records p) div 2) (full_records p)) \<le> length right"
  shows "\<exists>plan out left' right'. LeafSplitPlan_from_node p = Inr plan \<and>
    LeafSplitPlan_apply plan left right = (Inr out, left', right') \<and>
    leaf_wf left' \<and> leaf_wf right' \<and> leaf_bounded left' \<and> leaf_bounded right' \<and>
    full_records left' @ full_records right' = full_records p \<and>
    left_count out = length (full_records left') \<and> right_count out = length (full_records right') \<and>
    fence_bounds left' = Inr (lo, out_pivot_key out) \<and> fence_bounds right' = Inr (out_pivot_key out, hi)"
proof -
  define fr where "fr = full_records p"
  define m where "m = length fr div 2"
  define pv where "pv = fst (fr ! m)"
  have m: "m < length fr" using assms(3) by (simp add: m_def fr_def)
  obtain plan where plan: "LeafSplitPlan_from_node p = Inr plan"
    "map owned_pair (left_entries plan) = take m fr" "map owned_pair (right_entries plan) = drop m fr"
    "pivot_key plan = pv" "lower_fence plan = lo" "upper_fence plan = hi"
    using split_plan_spec[OF assms(1,3,4)] unfolding fr_def m_def pv_def by blast
  note S = key_sorted_split[OF full_records_sorted[OF assms(1), folded fr_def] m, folded pv_def]
  have B: "lo \<le> k" "k < hi" if "k \<in> set (map fst fr)" for k
    using set_full_bounded[OF assms(2,4)] that unfolding fr_def by blast+
  have "set (map fst (take m fr)) \<subseteq> set (map fst fr)" "set (map fst (drop m fr)) \<subseteq> set (map fst fr)"
    using set_take_subset[of m fr] set_drop_subset[of m fr] by auto
  with S(3,4) B have lb: "\<forall>k \<in> set (map fst (take m fr)). lo \<le> k \<and> k < pv"
    and rb: "\<forall>k \<in> set (map fst (drop m fr)). pv \<le> k \<and> k < hi" by blast+
  obtain left' where l: "rebuild left lo pv (left_entries plan) = (Inr (), left')" "leaf_wf left'"
    "full_records left' = map owned_pair (left_entries plan)" "fence_bounds left' = Inr (lo, pv)" "leaf_bounded left'"
    by (rule rebuild_spec[OF assms(5,6), of "left_entries plan" lo pv])
      (use S(1) assms(9) lb in \<open>simp_all only: owned_keys plan(2) fr_def m_def pv_def ac_simps\<close>)
  obtain right' where r: "rebuild right pv hi (right_entries plan) = (Inr (), right')" "leaf_wf right'"
    "full_records right' = map owned_pair (right_entries plan)" "fence_bounds right' = Inr (pv, hi)" "leaf_bounded right'"
    by (rule rebuild_spec[OF assms(7,8), of "right_entries plan" pv hi])
      (use S(2) assms(10) rb in \<open>simp_all only: owned_keys plan(3) fr_def m_def pv_def ac_simps\<close>)
  have "full_records left' @ full_records right' = fr" by (simp add: l(3) r(3) plan(2,3))
  moreover have "LeafSplitPlan_apply plan left right = (Inr \<lparr>out_pivot_key = pv,
      left_count = length (left_entries plan), right_count = length (right_entries plan)\<rparr>, left', right')"
    using l(1) r(1) by (simp add: LeafSplitPlan_apply_def plan(4-6))
  moreover have "length (left_entries plan) = length (full_records left')"
    "length (right_entries plan) = length (full_records right')"
    by (simp_all add: l(3) r(3))
  ultimately show ?thesis using plan(1) l(2,4,5) r(2,4,5) fr_def by auto
qed

text \<open>C18: A merge moves the records of two neighbouring leaves into the left one.  When the upper
  fence of the left page is the lower fence of the right page, the survivor holds the records of
  both in key order between the outer fences, and the removed page is left with its fences and no
  records.\<close>

theorem leaf_merge_concatenates:
  assumes "leaf_wf left" and "leaf_bounded left" and "fence_bounds left = Inr (lo, mid)"
    and "leaf_wf right" and "leaf_bounded right" and "fence_bounds right = Inr (mid, hi)"
    and "lo \<le> mid" and "mid \<le> hi"
    and "NodeMeta_size (node_header left) = Some sz" and "length left = NodeSize_size_in_bytes sz"
    and "NodeMeta_size (node_header right) = Some sz'" and "length right = NodeSize_size_in_bytes sz'"
    and "32 + length lo + length hi + records_size (full_records left @ full_records right) \<le> length left"
    and "32 + length mid + length hi \<le> length right"
  shows "\<exists>plan survivor removed. LeafMergePlan_from_nodes left right = Inr plan \<and>
    LeafMergePlan_apply plan left right =
      (Inr (length (full_records left) + length (full_records right)), survivor, removed) \<and>
    leaf_wf survivor \<and> leaf_bounded survivor \<and> fence_bounds survivor = Inr (lo, hi) \<and>
    full_records survivor = full_records left @ full_records right \<and>
    leaf_wf removed \<and> full_records removed = [] \<and> fence_bounds removed = Inr (mid, hi)"
proof -
  let ?fl = "full_records left" and ?fr = "full_records right"
  obtain ls where ls: "owned_entries left = Inr ls" "map owned_pair ls = ?fl"
    by (rule owned_entries_eq[OF assms(1)])
  obtain rs where rs: "owned_entries right = Inr rs" "map owned_pair rs = ?fr"
    by (rule owned_entries_eq[OF assms(4)])
  have L: "lo \<le> k" "k < mid" if "k \<in> set (map fst ?fl)" for k
    using set_full_bounded[OF assms(2,3)] that by blast+
  have R: "mid \<le> k" "k < hi" if "k \<in> set (map fst ?fr)" for k
    using set_full_bounded[OF assms(5,6)] that by blast+
  have sorted: "key_sorted (?fl @ ?fr)"
    unfolding map_append sorted_wrt_append
    using full_records_sorted[OF assms(1)] full_records_sorted[OF assms(4)] L(2) R(1)
    by (meson less_le_trans)
  have between: "\<forall>k \<in> set (map fst (?fl @ ?fr)). lo \<le> k \<and> k < hi"
    unfolding map_append set_append using L R assms(7,8) by (meson UnE less_le_trans order_trans)
  obtain s where s: "rebuild left lo hi (ls @ rs) = (Inr (), s)" "leaf_wf s"
    "full_records s = map owned_pair (ls @ rs)" "fence_bounds s = Inr (lo, hi)" "leaf_bounded s"
    by (rule rebuild_spec[OF assms(9,10), of "ls @ rs" lo hi])
      (use sorted between assms(13) in \<open>simp_all only: owned_keys map_append ls(2) rs(2)\<close>)
  obtain r q where q: "install_fences right mid hi = (r, q)" by fastforce
  note Q = install_fences_wf[OF assms(11,12,14) q]
  have "LeafMergePlan_from_nodes left right = Inr \<lparr>merge_entries = ls @ rs, survivor_lower = lo,
      survivor_upper = hi, removed_lower = mid, removed_upper = hi\<rparr>"
    by (simp add: LeafMergePlan_from_nodes_def ls(1) rs(1) assms(3,6))
  moreover have "length (ls @ rs) = length ?fl + length ?fr"
    using ls(2) rs(2) by (metis length_append length_map)
  moreover have "full_records q = []" by (simp add: full_records_def Q(3))
  ultimately show ?thesis using s q Q(1,2,4) ls(2) rs(2)
    by (simp add: LeafMergePlan_apply_def reset_user_entries_with_fences_def)
qed

lemma three_records_facts:
  "full_records three_records = [([1], []), ([2], [22]), ([3], [])]"
  "fence_bounds three_records = Inr ([0], [255])" "NodeMeta_size (node_header three_records) = Some N64"
  "length three_records = 64"
  by code_simp+

lemma three_records_bounded: "leaf_bounded three_records"
  by (simp add: leaf_bounded_def three_records_facts)

theorem leaf_split_partitions_witness:
  "\<exists>plan out left' right'. LeafSplitPlan_from_node three_records = Inr plan \<and>
    LeafSplitPlan_apply plan three_records three_records = (Inr out, left', right') \<and>
    full_records left' @ full_records right' = [([1], []), ([2], [22]), ([3], [])] \<and>
    fence_bounds left' = Inr ([0], out_pivot_key out)"
  using leaf_split_partitions[OF three_records_wf three_records_bounded, of "[0]" "[255]" three_records N64 three_records N64]
  by (simp add: three_records_facts records_size_def) blast

lemma small_page_header: "NodeMeta_size (node_header small_page) = Some N64" "length small_page = 64"
  by code_simp+

theorem leaf_merge_concatenates_witness:
  "\<exists>left right plan survivor removed. full_records left = [([1], [])] \<and> full_records right = [([6], [])] \<and>
    LeafMergePlan_from_nodes left right = Inr plan \<and>
    LeafMergePlan_apply plan left right = (Inr (Suc (Suc 0)), survivor, removed) \<and>
    full_records survivor = [([1], []), ([6], [])]"
proof -
  obtain l where l: "leaf_wf l" "full_records l = map owned_pair [\<lparr>owned_key = [1], owned_value = []\<rparr>]"
    "fence_bounds l = Inr ([0], [5])" "length l = length small_page" "leaf_bounded l" "page_ident l = page_ident small_page"
    by (rule rebuild_spec[OF small_page_header(1), of "[\<lparr>owned_key = [1], owned_value = []\<rparr>]" "[0]" "[5]"])
      (simp_all add: small_page_header owned_pair_def)
  obtain r where r: "leaf_wf r" "full_records r = map owned_pair [\<lparr>owned_key = [6], owned_value = []\<rparr>]"
    "fence_bounds r = Inr ([5], [255])" "length r = length small_page" "leaf_bounded r" "page_ident r = page_ident small_page"
    by (rule rebuild_spec[OF small_page_header(1), of "[\<lparr>owned_key = [6], owned_value = []\<rparr>]" "[5]" "[255]"])
      (simp_all add: small_page_header owned_pair_def)
  have "NodeMeta_size (node_header l) = Some N64" "NodeMeta_size (node_header r) = Some N64"
    using page_identD(1)[OF l(6)] page_identD(1)[OF r(6)] small_page_header(1) by simp_all
  from leaf_merge_concatenates[OF l(1,5,3) r(1,5,3) _ _ this(1) _ this(2)] l(2,4) r(2,4)
  show ?thesis by (simp add: small_page_header owned_pair_def) blast
qed

section \<open>Flush\<close>

lemma record_type_dirty [simp]: "KVRecordType_is_dirty t \<or> t = KVTombstone"
  by (cases t) (simp_all add: KVRecordType_is_dirty_def)

lemma run_suffix_puts:
  assumes "leaf_wf d" and "all_admitted suffix_fits try_put_with_suffix d es"
  shows "\<exists>d'. run_puts try_put_with_suffix d es = (Inr (), d') \<and> leaf_wf d' \<and>
    user_records d' = fold (\<lambda>(k, v). upsert k v) es (user_records d) \<and>
    node_prefix d' = node_prefix d \<and> fence_bounds d' = fence_bounds d \<and> length d' = length d \<and> page_ident d' = page_ident d"
  using assms
proof (induction es arbitrary: d)
  case (Cons e es)
  obtain k v where e: "e = (k, v)" by (cases e)
  obtain r q where q: "try_put_with_suffix d k v = (r, q)" by fastforce
  have "suffix_fits d k v" "all_admitted suffix_fits try_put_with_suffix q es" using Cons.prems(2) e q by auto
  note S = try_put_with_suffix_spec[OF Cons.prems(1) this(1) q] and A = this(2)
  from Cons.IH[OF S(2) A] S e q show ?case by auto
qed simp

text \<open>The loop over user records without tombstones runs the puts on the page on disk.\<close>

lemma flush_loop_puts:
  assumes "\<forall>i \<in> set is. \<not> KVMeta_fence (get_kv_meta p i) \<and> KVMeta_typ (get_kv_meta p i) \<noteq> KVTombstone"
    and "disk_leaf_or_load io a dl = Inr d"
    and "run_puts try_put_with_suffix d (map (\<lambda>i. (stored_key p i, stored_val p i)) is) = (Inr (), d')"
  shows "flush_loop p io a is dl ts = Inr (if is = [] then dl else Some d', ts)"
  using assms
proof (induction "is" arbitrary: dl d)
  case (Cons i "is")
  have dirty: "KVRecordType_is_dirty (KVMeta_typ (get_kv_meta p i))"
    using Cons.prems(1) record_type_dirty[of "KVMeta_typ (get_kv_meta p i)"] by auto
  obtain r q where q: "try_put_with_suffix d (stored_key p i) (stored_val p i) = (r, q)" by fastforce
  then have r: "r = Inr ()" and run: "run_puts try_put_with_suffix q (map (\<lambda>i. (stored_key p i, stored_val p i)) is) = (Inr (), d')"
    using Cons.prems(3) by (auto split: sum.splits)
  have "flush_loop p io a is (Some q) ts = Inr (if is = [] then Some q else Some d', ts)"
    by (rule Cons.IH[OF _ _ run]) (use Cons.prems(1) in \<open>simp_all add: disk_leaf_or_load_def\<close>)
  moreover have "q = d'" if "is = []" using run that by simp
  ultimately show ?case
    using Cons.prems(1,2) dirty q r by (auto simp: Let_def stored_key_def stored_val_def)
qed simp

lemma flush_loop_filter:
  "flush_loop p io a is dl ts = flush_loop p io a (filter (\<lambda>i. \<not> KVMeta_fence (get_kv_meta p i)) is) dl ts"
  by (induction "is" arbitrary: dl ts)
    (simp_all add: Let_def cong: sum.case_cong prod.case_cong fault.case_cong)

lemma flush_loop_spec:
  assumes wf: "leaf_wf p" and nt: "\<forall>i \<in> set (user_range p). KVMeta_typ (get_kv_meta p i) \<noteq> KVTombstone"
    and d: "get_page io a = Inr d"
    and run: "run_puts try_put_with_suffix d (user_records p) = (Inr (), d')"
  shows "flush_loop p io a [0..<record_count p] None [] = Inr (if user_records p = [] then None else Some d', [])"
proof -
  have "flush_loop p io a [0..<record_count p] None [] = flush_loop p io a (user_range p) None []"
    by (subst flush_loop_filter) (simp only: filter_not_fence[OF wf])
  also have "\<dots> = Inr (if user_range p = [] then None else Some d', [])"
  proof (rule flush_loop_puts)
    show "\<forall>i \<in> set (user_range p). \<not> KVMeta_fence (get_kv_meta p i) \<and> KVMeta_typ (get_kv_meta p i) \<noteq> KVTombstone"
      using nt leaf_wfD(9)[OF wf] by (auto simp: set_user_range)
    show "run_puts try_put_with_suffix d (map (\<lambda>i. (stored_key p i, stored_val p i)) (user_range p)) = (Inr (), d')"
      using run by (simp add: user_records_def)
  qed (simp add: disk_leaf_or_load_def d)
  finally show ?thesis by (simp add: user_records_def)
qed

lemma map_prefix_fold_upsert:
  "map (\<lambda>(k, v). (ps @ k, v)) (fold (\<lambda>(k, v). upsert k v) es kvs) = (
    fold (\<lambda>(k, v). upsert k v) (map (\<lambda>(k, v). (ps @ k, v)) es) (map (\<lambda>(k, v). (ps @ k, v)) kvs) :: (bytes \<times> bytes) list)"
proof (induction es arbitrary: kvs)
  case (Cons e es)
  obtain k v where "e = (k, v)" by (cases e)
  with Cons show ?case by (simp add: upsert_map_prefix)
qed simp

lemma format_leaf_space:
  assumes len: "length p = NodeSize_size_in_bytes sz" and q: "format_leaf p page_id sz disk_addr = (r, q)"
    and n: "34 + n \<le> NodeSize_size_in_bytes sz"
  shows "leaf_space q n"
proof -
  let ?p = "set_node_header p (NodeMeta_reset_header (node_header p) page_id sz disk_addr)"
  have l: "64 \<le> length p" by (simp add: len NodeSize_bytes_bounds)
  then have h: "node_header ?p = NodeMeta_reset_header (node_header p) page_id sz disk_addr" by simp
  have "install_fences ?p [0x00] [0xFF] = (r, q)"
    using q l by (simp add: format_leaf_def ensure_fence_keys_def record_count_def)
  from install_fences_space[OF _ _ _ this, of sz n] show ?thesis
    using l n len by (simp add: h)
qed

lemma flush_spec:
  assumes "leaf_wf p" and "\<forall>i \<in> set (user_range p). KVMeta_typ (get_kv_meta p i) \<noteq> KVTombstone"
    and "get_page io (NodeMeta_leaf (node_header p)) = Inr d" and "leaf_wf d"
    and "all_admitted suffix_fits try_put_with_suffix d (user_records p)"
  shows "\<exists>d' io'. flush_dirty_entries p io = (Inr (), p, io') \<and>
    get_page io' (NodeMeta_leaf (node_header p)) = Inr d' \<and> leaf_wf d' \<and>
    user_records d' = fold (\<lambda>(k, v). upsert k v) (user_records p) (user_records d) \<and>
    full_records d' = fold (\<lambda>(k, v). upsert k v)
      (map (\<lambda>(k, v). (node_prefix d @ k, v)) (user_records p)) (full_records d) \<and>
    (\<forall>b e. b \<noteq> NodeMeta_leaf (node_header p) \<longrightarrow> get_page io b = Inr e \<longrightarrow> get_page io' b = Inr e)"
proof -
  let ?a = "NodeMeta_leaf (node_header p)"
  obtain d' where d': "run_puts try_put_with_suffix d (user_records p) = (Inr (), d')" "leaf_wf d'"
    "user_records d' = fold (\<lambda>(k, v). upsert k v) (user_records p) (user_records d)"
    "node_prefix d' = node_prefix d" "length d' = length d"
    using run_suffix_puts[OF assms(4,5)] by blast
  have full: "full_records d' = fold (\<lambda>(k, v). upsert k v)
      (map (\<lambda>(k, v). (node_prefix d @ k, v)) (user_records p)) (full_records d)"
    by (simp add: full_records_def d'(3,4) map_prefix_fold_upsert)
  note loop = flush_loop_spec[OF assms(1,2,3) d'(1)]
  show ?thesis
  proof (cases "user_records p = []")
    case True
    then have "flush_dirty_entries p io = (Inr (), p, io)" "d' = d"
      using loop d'(1) by (simp_all add: flush_dirty_entries_def)
    with d'(2,3) full assms(3) show ?thesis by auto
  next
    case False
    note D = get_page_InrD[OF assms(3)]
    obtain io' where w: "write_page io ?a d' = (Inr (), io')" by (rule write_page_ok[OF D(1)]) blast
    then have fl: "flush_dirty_entries p io = (Inr (), p, io')"
      using loop False by (simp add: flush_dirty_entries_def)
    have "length d' = 4096" using d'(5) D(4) by simp
    note W = get_page_after_write[OF D(1) this w]
    show ?thesis
      by (intro exI[of _ d'] exI[of _ io'] conjI) (use fl d'(2,3) full W in auto)
  qed
qed

section \<open>Properties of the flush\<close>

text \<open>C19: A flush merges the records of a mini-page without tombstones into its page on disk: when
  every record is new to the page on disk and has room there, or replaces a value of its length,
  the flush succeeds, leaves the mini-page and all other pages as they are, and inserts or replaces
  the stored keys.  Stored keys are suffixes and stand on disk behind the prefix of the page on disk.
  If the two pages have the same prefix, the records on disk become the ones of the page on disk
  updated by the ones of the mini-page.\<close>

theorem flush_merges_suffixes:
  assumes "leaf_wf p" and "\<forall>i \<in> set (user_range p). KVMeta_typ (get_kv_meta p i) \<noteq> KVTombstone"
    and "get_page io (NodeMeta_leaf (node_header p)) = Inr d" and "leaf_wf d"
    and "all_admitted suffix_fits try_put_with_suffix d (user_records p)"
  shows "\<exists>d' io'. flush_dirty_entries p io = (Inr (), p, io') \<and>
    get_page io' (NodeMeta_leaf (node_header p)) = Inr d' \<and> leaf_wf d' \<and>
    user_records d' = fold (\<lambda>(k, v). upsert k v) (user_records p) (user_records d) \<and>
    full_records d' = fold (\<lambda>(k, v). upsert k v)
      (map (\<lambda>(k, v). (node_prefix d @ k, v)) (user_records p)) (full_records d) \<and>
    (node_prefix d = node_prefix p \<longrightarrow>
      full_records d' = fold (\<lambda>(k, v). upsert k v) (full_records p) (full_records d)) \<and>
    (\<forall>b e. b \<noteq> NodeMeta_leaf (node_header p) \<longrightarrow> get_page io b = Inr e \<longrightarrow> get_page io' b = Inr e)"
  using flush_spec[OF assms] by (auto simp: full_records_def[of p])

text \<open>A disk with a freshly formatted leaf behind three unused pages, and a mini-page of it.\<close>

definition fresh_leaf :: bytes where
  "fresh_leaf = snd (format_leaf (replicate 4096 0) 7 LeafPage 3)"

definition fresh_disk :: IoEngine where
  "fresh_disk = \<lparr>io_file = replicate 16384 0 @ fresh_leaf, next_addr = 4\<rparr>"

lemma fresh_leaf_facts:
  "leaf_wf fresh_leaf" "user_records fresh_leaf = []" "fence_bounds fresh_leaf = Inr ([0], [255])"
  "length fresh_leaf = 4096" "node_prefix fresh_leaf = []" "full_records fresh_leaf = []"
  "leaf_space fresh_leaf 4000"
proof -
  have f: "format_leaf (replicate 4096 0) 7 LeafPage 3 = (fst (format_leaf (replicate 4096 0) 7 LeafPage 3), fresh_leaf)"
    by (simp add: fresh_leaf_def)
  have len: "length (replicate 4096 0 :: bytes) = NodeSize_size_in_bytes LeafPage" by simp
  note F = format_leaf_wf[OF len f]
  show "leaf_wf fresh_leaf" "user_records fresh_leaf = []" "fence_bounds fresh_leaf = Inr ([0], [255])"
    by (rule F)+
  show "length fresh_leaf = 4096" using F(5) by simp
  show "node_prefix fresh_leaf = []" using node_prefix_fences[OF F(2,4)] by simp
  show "full_records fresh_leaf = []" by (simp add: full_records_def F(3))
  show "leaf_space fresh_leaf 4000" by (rule format_leaf_space[OF len f]) simp
qed

lemma fresh_disk_page: "get_page fresh_disk 3 = Inr fresh_leaf"
  by (simp add: get_page_def calc_offset_def fresh_disk_def fresh_leaf_facts read_at_def)

lemma small_page_leaf: "NodeMeta_leaf (node_header small_page) = 3"
  by code_simp

text \<open>A disk whose leaf has one record, with a key that \<open>three_records\<close> has too.\<close>

definition used_leaf :: bytes where
  "used_leaf = snd (try_put_with_suffix fresh_leaf [2] [7])"

definition used_disk :: IoEngine where
  "used_disk = \<lparr>io_file = replicate 16384 0 @ used_leaf, next_addr = 4\<rparr>"

lemma used_leaf_facts:
  "leaf_wf used_leaf" "user_records used_leaf = [([2], [7])]" "length used_leaf = 4096"
  "node_prefix used_leaf = []" "leaf_space used_leaf 100"
proof -
  have new: "map_of (user_records fresh_leaf) [2] = None" by (simp add: fresh_leaf_facts)
  have sp: "leaf_space fresh_leaf (8 + length [2::u8] + length [7::u8] + 100)"
    by (rule leaf_space_mono[OF fresh_leaf_facts(7)]) simp
  note I = leaf_space_insert[OF fresh_leaf_facts(1) new sp]
  have "try_put_with_suffix fresh_leaf [2] [7] = (fst (try_put_with_suffix fresh_leaf [2] [7]), used_leaf)"
    by (simp add: used_leaf_def)
  note S = try_put_with_suffix_spec[OF fresh_leaf_facts(1) I(1) this]
  show "leaf_wf used_leaf" "user_records used_leaf = [([2], [7])]" "length used_leaf = 4096"
    "node_prefix used_leaf = []"
    using S by (simp_all add: fresh_leaf_facts)
  show "leaf_space used_leaf 100" using I(2) by (simp add: used_leaf_def)
qed

lemma used_disk_page: "get_page used_disk 3 = Inr used_leaf"
  by (simp add: get_page_def calc_offset_def used_disk_def used_leaf_facts read_at_def)

lemma three_records_user:
  "user_records three_records = [([1], []), ([2], [22]), ([3], [])]" "node_prefix three_records = []"
  "NodeMeta_leaf (node_header three_records) = 3"
  "\<forall>i \<in> set (user_range three_records). KVMeta_typ (get_kv_meta three_records i) \<noteq> KVTombstone"
  by code_simp+

lemma three_records_admitted:
  "all_admitted suffix_fits try_put_with_suffix used_leaf (user_records three_records)"
proof -
  define q1 where "q1 = snd (try_put_with_suffix used_leaf [1] [])"
  define q2 where "q2 = snd (try_put_with_suffix q1 [2] [22])"
  have new1: "map_of (user_records used_leaf) [1] = None" by (simp add: used_leaf_facts)
  have sp: "leaf_space used_leaf (8 + length [1::u8] + length ([]::bytes) + 20)"
    by (rule leaf_space_mono[OF used_leaf_facts(5)]) simp
  note I1 = leaf_space_insert[OF used_leaf_facts(1) new1 sp, folded q1_def]
  have "try_put_with_suffix used_leaf [1] [] = (fst (try_put_with_suffix used_leaf [1] []), q1)" by (simp add: q1_def)
  note S1 = try_put_with_suffix_spec[OF used_leaf_facts(1) I1(1) this]
  have u1: "user_records q1 = [([1], []), ([2], [7])]" by (simp add: S1(3) used_leaf_facts)
  have f2: "suffix_fits q1 [2] [22]" by (simp add: suffix_fits_def u1)
  have "try_put_with_suffix q1 [2] [22] = (fst (try_put_with_suffix q1 [2] [22]), q2)" by (simp add: q2_def)
  note S2 = try_put_with_suffix_spec[OF S1(2) f2 this]
  have u2: "user_records q2 = [([1], []), ([2], [22])]" by (simp add: S2(3) u1)
  have "leaf_space q2 20"
    unfolding q2_def by (rule leaf_space_overwrite[OF S1(2) _ _ I1(2), of _ "[7]"]) (simp_all add: u1)
  then have "leaf_space q2 (8 + length [3::u8] + length ([]::bytes) + 11)" by simp
  note I3 = leaf_space_insert[OF S2(2) _ this]
  show ?thesis
    using I1(1) f2 I3(1) by (simp add: three_records_user q1_def [symmetric] q2_def [symmetric] u2)
qed

lemma used_leaf_full: "full_records used_leaf = [([2], [7])]"
  by (simp add: full_records_def used_leaf_facts)

theorem flush_merges_suffixes_witness:
  "\<exists>d' io'. flush_dirty_entries three_records used_disk = (Inr (), three_records, io') \<and>
    full_records used_leaf = [([2], [7])] \<and> get_page used_disk 3 = Inr used_leaf \<and>
    get_page io' 3 = Inr d' \<and> full_records d' = [([1], []), ([2], [22]), ([3], [])]"
proof -
  have "get_page used_disk (NodeMeta_leaf (node_header three_records)) = Inr used_leaf"
    by (simp add: three_records_user used_disk_page)
  from flush_merges_suffixes[OF three_records_wf three_records_user(4) this used_leaf_facts(1) three_records_admitted]
  show ?thesis
    by (simp add: three_records_user used_disk_page used_leaf_facts used_leaf_full three_records_facts) blast
qed

text \<open>A flush can write wrong keys.  When the fences of the mini-page share a prefix that the
  page on disk does not have, as after a split that changed the fences in the cache only, the key
  \<open>[1, 5]\<close> of the mini-page becomes the key \<open>[5]\<close> on disk.\<close>

theorem flush_drops_prefix:
  "\<exists>p d io'. leaf_wf p \<and> leaf_bounded p \<and> full_records p = [([1, 5], [])] \<and> full_records fresh_leaf = [] \<and>
    flush_dirty_entries p fresh_disk = (Inr (), p, io') \<and> get_page io' 3 = Inr d \<and> full_records d = [([5], [])]"
proof -
  obtain p where p: "rebuild small_page [1, 0] [1, 9] [\<lparr>owned_key = [1, 5], owned_value = []\<rparr>] = (Inr (), p)"
    "leaf_wf p" "full_records p = map owned_pair [\<lparr>owned_key = [1, 5], owned_value = []\<rparr>]"
    "fence_bounds p = Inr ([1, 0], [1, 9])" "leaf_bounded p" "page_ident p = page_ident small_page"
    by (rule rebuild_spec[OF small_page_header(1), of "[\<lparr>owned_key = [1, 5], owned_value = []\<rparr>]" "[1, 0]" "[1, 9]"])
      (simp_all add: small_page_header owned_pair_def)
  have full: "full_records p = [([1, 5], [])]" by (simp add: p(3) owned_pair_def)
  have "node_prefix p = [1]" using node_prefix_fences[OF p(2,4)] by simp
  with full have user: "user_records p = [([5], [])]" by (auto simp: full_records_def)
  have cnt: "record_count p = 3"
    using arg_cong[OF user, of length] leaf_wfD(2)[OF p(2)] by (simp add: user_records_def user_range_def)
  have ur: "user_range p = [1]" by (simp add: user_range_def cnt upt_rec)
  have "map_prod id (\<lambda>q. KVMeta_typ (get_kv_meta q 1))
      (rebuild small_page [1, 0] [1, 9] [\<lparr>owned_key = [1, 5], owned_value = []\<rparr>]) = (Inr (), KVInsert)"
    by code_simp
  then have nt: "\<forall>i \<in> set (user_range p). KVMeta_typ (get_kv_meta p i) \<noteq> KVTombstone"
    by (simp add: p(1) ur)
  have "leaf_space fresh_leaf 9" by (rule leaf_space_mono[OF fresh_leaf_facts(7)]) simp
  then have adm: "all_admitted suffix_fits try_put_with_suffix fresh_leaf (user_records p)"
    by (simp add: user suffix_fits_def fresh_leaf_facts leaf_room_space)
  have a: "NodeMeta_leaf (node_header p) = 3"
    using page_identD(2)[OF p(6)] small_page_leaf by simp
  have "get_page fresh_disk (NodeMeta_leaf (node_header p)) = Inr fresh_leaf" by (simp add: a fresh_disk_page)
  from flush_spec[OF p(2) nt this fresh_leaf_facts(1) adm]
  obtain d io' where "flush_dirty_entries p fresh_disk = (Inr (), p, io')" "get_page io' 3 = Inr d"
    "full_records d = [([5], [])]"
    by (auto simp: a user fresh_leaf_facts)
  with p(2,5) full fresh_leaf_facts(6) show ?thesis by blast
qed

section \<open>Changes of the header\<close>

lemma set_header_records:
  assumes wf: "leaf_wf p" and rc: "NodeMeta_record_count m = NodeMeta_record_count (node_header p)"
  defines "q \<equiv> set_node_header p m"
  shows "record_count q = record_count p" "length q = length p" "node_header q = m"
    "i < record_count p \<Longrightarrow> get_kv_meta q i = get_kv_meta p i"
    "i < record_count p \<Longrightarrow> stored_key q i = stored_key p i"
    "i < record_count p \<Longrightarrow> stored_val q i = stored_val p i"
proof -
  let ?n = "record_count p"
  have len: "16 \<le> length p" "kv_slot ?n \<le> length p"
    using leaf_wfD(3)[OF wf] kv_slot_ge[of ?n] by simp_all
  then show "record_count q = record_count p" "length q = length p" "node_header q = m"
    using rc by (simp_all add: q_def record_count_def)
  have meta: "get_kv_meta q i = get_kv_meta p i" if "i < ?n" for i
    using kv_slot_mono[of i ?n] len that by (simp add: q_def)
  then show "i < ?n \<Longrightarrow> get_kv_meta q i = get_kv_meta p i" .
  have rd: "read_at q j k = read_at p j k"
    if "i < ?n" "KVMeta_offset (get_kv_meta p i) \<le> j" "j + k \<le> kv_end (get_kv_meta p i)" for i j k
    using leaf_wfD(4,5)[OF wf that(1)] kv_slot_ge[of ?n] that(2,3) len
    unfolding q_def by (intro read_at_set_node_header) auto
  show "i < ?n \<Longrightarrow> stored_key q i = stored_key p i" "i < ?n \<Longrightarrow> stored_val q i = stored_val p i"
    by (simp_all add: stored_key_def stored_val_def get_stored_key_from_meta_def get_val_from_meta_def
        meta rd[of i] kv_end_def kv_len_def)
qed

lemma set_header_leaf:
  assumes wf: "leaf_wf p" and rc: "NodeMeta_record_count m = NodeMeta_record_count (node_header p)"
  defines "q \<equiv> set_node_header p m"
  shows "leaf_wf q" "user_range q = user_range p" "user_records q = user_records p"
    "fence_bounds q = fence_bounds p" "node_prefix q = node_prefix p" "full_records q = full_records p"
    "find_min_offset q = find_min_offset p"
proof -
  note H = set_header_records[OF wf rc, folded q_def]
  have n: "0 < record_count p" "record_count p - 1 < record_count p" using leaf_wfD(2)[OF wf] by auto
  show wf': "leaf_wf q" by (rule leaf_wf_cong[OF wf H(2,1)]) (simp_all add: H(4,5))
  show ur: "user_range q = user_range p" by (simp add: user_range_def H(1))
  then show us: "user_records q = user_records p"
    using H(5,6) by (auto simp: user_records_def set_user_range)
  show "fence_bounds q = fence_bounds p"
    unfolding fence_bounds_eq[OF wf] fence_bounds_eq[OF wf'] H(1) using H(5) n by simp
  show np: "node_prefix q = node_prefix p" using H(5) n by (simp add: node_prefix_def H(1))
  with us show "full_records q = full_records p" by (simp add: full_records_def)
  have "map (\<lambda>i. KVMeta_offset (get_kv_meta q i)) [0..<record_count q] =
      map (\<lambda>i. KVMeta_offset (get_kv_meta p i)) [0..<record_count p]"
    using H(4) by (simp add: H(1))
  then show "find_min_offset q = find_min_offset p" by (simp only: find_min_offset_def)
qed

end
