(* ===== verification/Debug_Events.thy ===== *)
theory Debug_Events
  imports Prelude
begin

text \<open>
  debug.rs: the global counters and event lists that tests read.  The counters are 64-bit words
  that wrap around.  A list is behind a mutex; when a thread panicked while it held the mutex the
  list is poisoned, recording skips it, and reading and resetting go on with it.
\<close>

section \<open>State\<close>

record SplitEvent =
  ev_left_page :: u64
  ev_right_page :: u64
  ev_pivot_key :: bytes
  ev_left_count :: nat
  ev_right_count :: nat

record MergeEvent =
  ev_survivor_page :: u64
  ev_removed_page :: u64
  ev_merged_count :: nat

record 'a mutex =
  poisoned :: bool
  protected :: 'a

record Debug =
  SPLIT_REQUESTS :: u64
  MERGE_REQUESTS :: u64
  EVICTION_REQUESTS :: u64
  SPLIT_EVENTS :: "SplitEvent list mutex"
  MERGE_EVENTS :: "MergeEvent list mutex"
  SECOND_CHANCE_PASSES :: u64

definition Debug_init :: Debug where
  "Debug_init = \<lparr>SPLIT_REQUESTS = 0, MERGE_REQUESTS = 0, EVICTION_REQUESTS = 0,
    SPLIT_EVENTS = \<lparr>poisoned = False, protected = []\<rparr>, MERGE_EVENTS = \<lparr>poisoned = False, protected = []\<rparr>,
    SECOND_CHANCE_PASSES = 0\<rparr>"

section \<open>Operations\<close>

text \<open>A push under \<open>if let Ok(mut guard) = lock()\<close>.\<close>

definition push_event :: "'a \<Rightarrow> 'a list mutex \<Rightarrow> 'a list mutex" where
  "push_event e m = (if poisoned m then m else m\<lparr>protected := protected m @ [e]\<rparr>)"

definition record_split_event :: "u64 \<Rightarrow> u64 \<Rightarrow> bytes \<Rightarrow> nat \<Rightarrow> nat \<Rightarrow> Debug \<Rightarrow> Debug" where
  "record_split_event left_page right_page pivot_key left_count right_count s =
    s\<lparr>SPLIT_REQUESTS := SPLIT_REQUESTS s + 1,
      SPLIT_EVENTS := push_event \<lparr>ev_left_page = left_page, ev_right_page = right_page, ev_pivot_key = pivot_key,
        ev_left_count = left_count, ev_right_count = right_count\<rparr> (SPLIT_EVENTS s)\<rparr>"

definition record_eviction :: "Debug \<Rightarrow> Debug" where
  "record_eviction s = s\<lparr>EVICTION_REQUESTS := EVICTION_REQUESTS s + 1\<rparr>"

definition record_second_chance :: "Debug \<Rightarrow> Debug" where
  "record_second_chance s = s\<lparr>SECOND_CHANCE_PASSES := SECOND_CHANCE_PASSES s + 1\<rparr>"

definition record_merge_event :: "u64 \<Rightarrow> u64 \<Rightarrow> nat \<Rightarrow> Debug \<Rightarrow> Debug" where
  "record_merge_event survivor_page removed_page merged_count s =
    s\<lparr>MERGE_REQUESTS := MERGE_REQUESTS s + 1,
      MERGE_EVENTS := push_event \<lparr>ev_survivor_page = survivor_page, ev_removed_page = removed_page,
        ev_merged_count = merged_count\<rparr> (MERGE_EVENTS s)\<rparr>"

definition reset_debug_counters :: "Debug \<Rightarrow> Debug" where
  "reset_debug_counters s =
    s\<lparr>SPLIT_REQUESTS := 0, MERGE_REQUESTS := 0, EVICTION_REQUESTS := 0, SECOND_CHANCE_PASSES := 0,
      SPLIT_EVENTS := (SPLIT_EVENTS s)\<lparr>protected := []\<rparr>, MERGE_EVENTS := (MERGE_EVENTS s)\<lparr>protected := []\<rparr>\<rparr>"

definition split_requests :: "Debug \<Rightarrow> u64" where "split_requests s = SPLIT_REQUESTS s"
definition split_events :: "Debug \<Rightarrow> SplitEvent list" where "split_events s = protected (SPLIT_EVENTS s)"
definition evictions :: "Debug \<Rightarrow> u64" where "evictions s = EVICTION_REQUESTS s"
definition second_chance_passes :: "Debug \<Rightarrow> u64" where "second_chance_passes s = SECOND_CHANCE_PASSES s"
definition merge_requests :: "Debug \<Rightarrow> u64" where "merge_requests s = MERGE_REQUESTS s"
definition merge_events :: "Debug \<Rightarrow> MergeEvent list" where "merge_events s = protected (MERGE_EVENTS s)"

text \<open>rand.rs, with the number drawn below 100 as argument.\<close>

definition rand_for_cache :: "nat \<Rightarrow> bool" where "rand_for_cache val \<longleftrightarrow> val < 20"

section \<open>Runs\<close>

text \<open>The operations as steps, in any order.\<close>

inductive debug_step :: "Debug \<Rightarrow> Debug \<Rightarrow> bool" where
  split: "debug_step s (record_split_event l r k lc rc s)"
| merge: "debug_step s (record_merge_event l r c s)"
| evict: "debug_step s (record_eviction s)"
| second: "debug_step s (record_second_chance s)"
| reset: "debug_step s (reset_debug_counters s)"

inductive_cases debug_stepE: "debug_step s s'"

definition debug_inv :: "Debug \<Rightarrow> bool" where
  "debug_inv s \<longleftrightarrow> \<not> poisoned (SPLIT_EVENTS s) \<and> \<not> poisoned (MERGE_EVENTS s) \<and>
    SPLIT_REQUESTS s = word_of_nat (length (protected (SPLIT_EVENTS s))) \<and>
    MERGE_REQUESTS s = word_of_nat (length (protected (MERGE_EVENTS s)))"

interpretation debug_counters: step_invariant debug_step debug_inv
proof
  show "debug_inv s'" if "debug_inv s" and "debug_step s s'" for s s'
    using that(2,1)
    by cases (auto simp: debug_inv_def record_split_event_def record_merge_event_def record_eviction_def
        record_second_chance_def reset_debug_counters_def push_event_def)
qed

text \<open>The counters agree with the lists: after any sequence of recordings and resets the number of
  split requests is the number of recorded splits, modulo the width of the counter, and so for
  merges.\<close>

theorem debug_counts_events:
  assumes "debug_step\<^sup>*\<^sup>* Debug_init s"
  shows "split_requests s = word_of_nat (length (split_events s)) \<and>
    merge_requests s = word_of_nat (length (merge_events s))"
proof -
  have "debug_inv Debug_init" by (simp add: debug_inv_def Debug_init_def)
  from debug_counters.reach_inv[OF assms this] show ?thesis
    by (simp add: debug_inv_def split_requests_def split_events_def merge_requests_def merge_events_def)
qed

theorem debug_counts_events_witness:
  "split_requests (record_split_event 1 2 [5] 3 4 Debug_init) = word_of_nat
    (length (split_events (record_split_event 1 2 [5] 3 4 Debug_init)))"
  using debug_counts_events[OF r_into_rtranclp[where r = debug_step, OF debug_step.split[of Debug_init 1 2 "[5]" 3 4]]] by blast

end
