(* ===== verification/Cache_Evict.thy ===== *)
theory Cache_Evict
  imports Page_Op Wal Debug_Events
begin

text \<open>
  buffer.rs, \<open>evict\<close>: the scan for a page that can be written back.  It starts at the head of the
  ring and steps from page to page by the sizes in the headers, gives hot pages a second chance,
  and for the first cold page writes its records to disk, drops them from the log and makes the
  page table point to the disk again.

  The loop need not end, since a step that follows the page table to another index does not count
  as scanned, so it is a \<open>partial_function\<close> with None for not returning; the last section shows that
  it returns when the page table is consistent with the ring.
\<close>

section \<open>Eviction\<close>

record CacheEnv =
  ev_cache :: MiniPageBuffer
  ev_map :: MapTable
  ev_io :: IoEngine
  ev_wal :: WalState
  ev_debug :: Debug

text \<open>
  What the loop does with the write guard of the candidate, up to the return: the flush, the
  checkpoint, the entry of the table and the header; the guard is dropped last.
\<close>

definition evict_page :: "nat \<Rightarrow> nat \<Rightarrow> u64 \<Rightarrow> bytes \<Rightarrow> CacheEnv \<Rightarrow> unit result \<times> CacheEnv" where
  "evict_page eviction_cand next_head page_id p env =
    (case flush_dirty_entries p (ev_io env) of
       (Inl e, p, io) \<Rightarrow> (Inl e, env\<lparr>ev_io := io, ev_cache := put_meta (ev_cache env) eviction_cand p\<rparr>)
     | (Inr _, p, io) \<Rightarrow>
         let disk_addr = NodeMeta_leaf (node_header p) in
         case checkpoint_page (ev_wal env) page_id of
           (Inl e, wal) \<Rightarrow>
             (Inl e, env\<lparr>ev_io := io, ev_wal := wal, ev_cache := put_meta (ev_cache env) eviction_cand p\<rparr>)
         | (Inr _, wal) \<Rightarrow>
             let entry = PageEntry_leaf disk_addr;
                 mt = set_entry (ev_map env) (unat page_id) entry;
                 meta = NodeMeta_set_live (node_header p) False;
                 meta = NodeMeta_clear_eviction meta;
                 meta = NodeMeta_set_record_count meta 0;
                 cache = put_meta (ev_cache env) eviction_cand (set_node_header p meta);
                 cache = cache\<lparr>buf_head := next_head\<rparr>;
                 mt = drop_guard mt (Write page_id entry)
             in (Inr (), env\<lparr>ev_cache := cache, ev_map := mt, ev_io := io, ev_wal := wal,
                  ev_debug := record_eviction (ev_debug env)\<rparr>))"

partial_function (option) evict_loop :: "nat \<Rightarrow> nat \<Rightarrow> CacheEnv \<Rightarrow> (unit result \<times> CacheEnv) option" where
  "evict_loop eviction_cand scanned env =
    (if \<not> scanned < buff_size (ev_cache env) then Some (Inl (QSErr CacheExhausted), env)
     else
       let p = get_meta_ref (ev_cache env) eviction_cand; meta = node_header p in
       case NodeMeta_size meta of
         None \<Rightarrow> Some (Inl UndefinedBehaviour, env)
       | Some sz \<Rightarrow>
           let chunk_words = NodeSize_size_in_words sz;
               next = buf_wrap (ev_cache env) (eviction_cand + chunk_words)
           in
             if \<not> NodeMeta_is_live meta then evict_loop next (scanned + chunk_words) env
             else if NodeMeta_is_hot meta then
               evict_loop next (scanned + chunk_words)
                 (env\<lparr>ev_cache := put_meta (ev_cache env) eviction_cand
                    (set_node_header p (NodeMeta_clear_hot meta)), ev_debug := record_second_chance (ev_debug env)\<rparr>)
             else
               let page_id = NodeMeta_page_id meta in
               if MapTable_capacity (ev_map env) \<le> unat page_id then Some (Inl UndefinedBehaviour, env)
               else
                 case write_page_entry (ev_map env) (unat page_id) of
                   (Inl _, mt) \<Rightarrow> evict_loop next (scanned + chunk_words) (env\<lparr>ev_map := mt\<rparr>)
                 | (Inr node, mt) \<Rightarrow>
                     let unlocked = env\<lparr>ev_map := drop_guard mt (Write page_id node)\<rparr> in
                     case PageEntry_get_ref node of
                       Leaf _ \<Rightarrow> evict_loop next (scanned + chunk_words) unlocked
                     | MiniPage index \<Rightarrow>
                         if index \<noteq> eviction_cand then evict_loop index scanned unlocked
                         else
                           case NodeMeta_mark_for_eviction meta of
                             Inl _ \<Rightarrow> evict_loop next (scanned + chunk_words) unlocked
                           | Inr meta \<Rightarrow>
                               Some (evict_page eviction_cand next page_id (set_node_header p meta)
                                 (env\<lparr>ev_map := mt\<rparr>)))"

definition evict :: "CacheEnv \<Rightarrow> (unit result \<times> CacheEnv) option" where
  "evict env = evict_loop (buf_head (ev_cache env)) 0 env"

section \<open>Headers and records\<close>

lemma get_put_meta:
  assumes "8 * i + 4096 \<le> length (backing b)" and "length p = 4096"
  shows "get_meta_ref (put_meta b i p) i = p" and "length (backing (put_meta b i p)) = length (backing b)"
  using assms by (simp_all add: get_meta_ref_def put_meta_def get_meta_ptr_def read_write_same)

lemma buffer_put_meta [simp]:
  "buff_size (put_meta b i p) = buff_size b" "buf_head (put_meta b i p) = buf_head b"
  "buf_tail (put_meta b i p) = buf_tail b" "free_lists (put_meta b i p) = free_lists b"
  by (simp_all add: put_meta_def)

lemma get_meta_ref_head [simp]: "get_meta_ref (b\<lparr>buf_head := h\<rparr>) i = get_meta_ref b i"
  by (simp add: get_meta_ref_def)

lemma length_get_meta_ref: "8 * i + 4096 \<le> length (backing b) \<Longrightarrow> length (get_meta_ref b i) = 4096"
  by (simp add: get_meta_ref_def get_meta_ptr_def)

section \<open>A scan over dead pages\<close>

lemma evict_loop_dead:
  assumes "buff_size (ev_cache env) = 2 ^ k" and "9 \<le> k"
    and dead: "\<And>j. 512 * j < buff_size (ev_cache env) \<Longrightarrow>
      NodeMeta_size (node_header (get_meta_ref (ev_cache env) (512 * j))) = Some LeafPage \<and>
      \<not> NodeMeta_is_live (node_header (get_meta_ref (ev_cache env) (512 * j)))"
    and "512 * j < buff_size (ev_cache env)"
  shows "evict_loop (512 * j) scanned env = Some (Inl (QSErr CacheExhausted), env)"
  using assms(4)
proof (induction "buff_size (ev_cache env) - scanned" arbitrary: j scanned rule: less_induct)
  case less
  let ?b = "ev_cache env"
  show ?case
  proof (cases "scanned < buff_size ?b")
    case False
    then show ?thesis by (subst evict_loop.simps) simp
  next
    case True
    obtain l where l: "buff_size ?b = 512 * 2 ^ l"
      using assms(1,2) power_add[of "2 :: nat" 9 "k - 9"] by auto
    have "buf_wrap ?b (512 * j + 512) = (512 * (j + 1)) mod (512 * 2 ^ l)"
      using buf_wrap_mod[OF assms(1)] l by (simp add: algebra_simps)
    also have "\<dots> = 512 * ((j + 1) mod 2 ^ l)" by (rule mult_mod_right [symmetric])
    finally have nx: "buf_wrap ?b (512 * j + 512) = 512 * ((j + 1) mod 2 ^ l)" .
    have "512 * ((j + 1) mod 2 ^ l) < buff_size ?b" by (simp add: l)
    then have "evict_loop (512 * ((j + 1) mod 2 ^ l)) (scanned + 512) env = Some (Inl (QSErr CacheExhausted), env)"
      using True by (intro less.hyps) auto
    then show ?thesis
      using dead[OF less.prems] True
      by (subst evict_loop.simps) (simp add: Let_def NodeSize_size_in_words_def nx)
  qed
qed

section \<open>Properties\<close>

text \<open>A drained ring is never usable again.  After the last page of a full buffer of leaf pages
  has been evicted the head is back at the start and the tail still at the end: no page is live, yet
  no allocation succeeds, and eviction reports an exhausted cache and changes nothing.\<close>

theorem drained_ring_exhausted:
  assumes "buff_size (ev_cache env) = 2 ^ k" and "9 \<le> k"
    and "\<forall>j. 512 * j < buff_size (ev_cache env) \<longrightarrow>
      NodeMeta_size (node_header (get_meta_ref (ev_cache env) (512 * j))) = Some LeafPage \<and>
      \<not> NodeMeta_is_live (node_header (get_meta_ref (ev_cache env) (512 * j)))"
    and "buf_head (ev_cache env) = 0" and "buf_tail (ev_cache env) = buff_size (ev_cache env)"
    and "free_lists (ev_cache env) ! NodeSize_index sz = - 1"
  shows "alloc (ev_cache env) sz = (None, ev_cache env) \<and>
    evict env = Some (Inl (QSErr CacheExhausted), env)"
proof
  show "alloc (ev_cache env) sz = (None, ev_cache env)"
    unfolding alloc_no_freelist[OF assms(6)] using assms(4,5) size_in_words_pos[of sz] by (simp add: Let_def)
  have "evict_loop (512 * 0) 0 env = Some (Inl (QSErr CacheExhausted), env)"
    by (rule evict_loop_dead[OF assms(1,2)]) (use assms(1,3) in auto)
  then show "evict env = Some (Inl (QSErr CacheExhausted), env)" by (simp add: evict_def assms(4))
qed

text \<open>C39: Eviction meets undefined behaviour after a put.  A put that succeeds on the cached leaf
  page at the head of the ring marks it hot, which makes the size in its header invalid, and the scan
  reads that size first.\<close>

theorem evict_after_put_undefined:
  assumes "get_write_guard lm h = Inr (page, node)" and "PageEntry_get_ref node = MiniPage (buf_head cache)"
    and "ring_ok cache" and "buf_head cache + 512 \<le> buff_size cache"
    and "leaf_wf (get_meta_ref cache (buf_head cache))"
    and "NodeMeta_size (node_header (get_meta_ref cache (buf_head cache))) = Some LeafPage"
    and "prefix (node_prefix (get_meta_ref cache (buf_head cache))) key"
    and "put_fits (get_meta_ref cache (buf_head cache)) key val"
  shows "\<exists>cache'. guard_try_put lm h cache key val = (Inr Success, cache') \<and>
    evict \<lparr>ev_cache = cache', ev_map = mt, ev_io = io, ev_wal = wal, ev_debug = dbg\<rparr> =
      Some (Inl UndefinedBehaviour, \<lparr>ev_cache = cache', ev_map = mt, ev_io = io, ev_wal = wal, ev_debug = dbg\<rparr>)"
proof -
  let ?i = "buf_head cache" and ?p = "get_meta_ref cache (buf_head cache)"
  have fit: "8 * ?i + 4096 \<le> length (backing cache)" using assms(3,4) by (simp add: ring_ok_def)
  obtain r q where q: "try_put ?p key val = (r, q)" by fastforce
  note S = try_put_spec[OF assms(5,7,8) q]
  have len: "length q = 4096" using S(6) length_get_meta_ref[OF fit] by simp
  have sz: "NodeMeta_size (node_header (mark_page_hot q)) = None"
    using page_identD(1)[OF S(7)] assms(6) len by (simp add: mark_page_hot_def mark_hot_size)
  define cache' where "cache' = put_meta cache ?i (mark_page_hot q)"
  have "guard_try_put lm h cache key val = (Inr Success, cache')"
    using assms(1,2) q S(1) by (simp add: guard_try_put_def cache'_def)
  moreover have "get_meta_ref cache' (buf_head cache') = mark_page_hot q" "0 < buff_size cache'"
    using get_put_meta(1)[OF fit, of "mark_page_hot q"] len assms(4) by (simp_all add: cache'_def mark_page_hot_def)
  then have "evict \<lparr>ev_cache = cache', ev_map = mt, ev_io = io, ev_wal = wal, ev_debug = dbg\<rparr> =
      Some (Inl UndefinedBehaviour, \<lparr>ev_cache = cache', ev_map = mt, ev_io = io, ev_wal = wal, ev_debug = dbg\<rparr>)"
    unfolding evict_def by (subst evict_loop.simps) (simp add: sz Let_def)
  ultimately show ?thesis by blast
qed

lemma evict_mark_spec:
  assumes "\<not> NodeMeta_is_being_evicted m" and "NodeMeta_is_live m"
  shows "NodeMeta_mark_for_eviction m = Inr (NodeMeta_set_being_evicted m True)"
  using assms by (simp add: NodeMeta_mark_for_eviction_def)

lemma set_evicted_fields [simp]:
  "NodeMeta_leaf (NodeMeta_set_being_evicted m b) = NodeMeta_leaf m"
  "NodeMeta_page_id (NodeMeta_set_being_evicted m b) = NodeMeta_page_id m"
  by (simp_all add: header_fields field_with_other)

lemma set_live_fields [simp]:
  "NodeMeta_is_live (NodeMeta_set_live m b) = b"
  "NodeMeta_is_live (NodeMeta_clear_eviction m) = NodeMeta_is_live m"
  by (simp_all add: header_fields bit_with_field)

lemma unat_leaf_small: "unat (NodeMeta_leaf m) < 2 ^ 48"
proof -
  have "take_bit 48 (NodeMeta_leaf m) = NodeMeta_leaf m" by (simp add: leaf_field field_def)
  then have "unat (NodeMeta_leaf m) = take_bit 48 (unat (NodeMeta_leaf m))" by (metis unsigned_take_bit_eq)
  then show ?thesis by (metis take_bit_nat_less_exp)
qed

lemma evict_page_spec:
  assumes len: "8 * i + 4096 \<le> length (backing (ev_cache env))" "length p = 4096"
    and flush: "flush_dirty_entries p (ev_io env) = (Inr (), p, io')"
    and chk: "checkpoint_page (ev_wal env) pid = (Inr (), wal')" and pid: "unat pid < MapTable_capacity (ev_map env)"
  obtains env' where "evict_page i h pid p env = (Inr (), env')" "ev_io env' = io'" "ev_wal env' = wal'"
    "ev_debug env' = record_eviction (ev_debug env)" "buf_head (ev_cache env') = h" "\<not> NodeMeta_is_live (node_header (get_meta_ref (ev_cache env') i))"
    "record_count (get_meta_ref (ev_cache env') i) = 0"
    "get_entry (ev_map env') (unat pid) = PageEntry_leaf (NodeMeta_leaf (node_header p))"
    "\<And>j. j \<noteq> unat pid \<Longrightarrow> get_entry (ev_map env') j = get_entry (ev_map env) j"
proof -
  let ?m = "NodeMeta_set_record_count (NodeMeta_clear_eviction (NodeMeta_set_live (node_header p) False)) 0"
  let ?q = "set_node_header p ?m"
  define cache' where "cache' = (put_meta (ev_cache env) i ?q)\<lparr>buf_head := h\<rparr>"
  define mt' where "mt' = drop_guard (set_entry (ev_map env) (unat pid) (PageEntry_leaf (NodeMeta_leaf (node_header p))))
    (Write pid (PageEntry_leaf (NodeMeta_leaf (node_header p))))"
  have q: "length ?q = 4096" "node_header ?q = ?m" using len by simp_all
  have e: "evict_page i h pid p env =
      (Inr (), env\<lparr>ev_cache := cache', ev_map := mt', ev_io := io', ev_wal := wal', ev_debug := record_eviction (ev_debug env)\<rparr>)"
    by (simp add: evict_page_def flush chk Let_def cache'_def mt'_def)
  have "get_meta_ref cache' i = ?q" using get_put_meta(1)[OF len(1) q(1)] by (simp add: cache'_def)
  then have p: "\<not> NodeMeta_is_live (node_header (get_meta_ref cache' i))" "record_count (get_meta_ref cache' i) = 0"
    by (simp_all add: q(2) record_count_def)
  have m: "get_entry mt' j = (if j = unat pid then PageEntry_leaf (NodeMeta_leaf (node_header p)) else get_entry (ev_map env) j)" for j
    using pid by (auto simp: mt'_def get_entry_set_entry drop_write_iter_def compare_exchange_def Let_def set_state_same)
  show thesis by (rule that[OF e]) (use p m in \<open>simp_all add: cache'_def\<close>)
qed

text \<open>C22: Eviction of the page at the head.  A live, cold and unlocked leaf page whose table entry
  refers to it is written back: its records are merged into its page on disk, the log is
  checkpointed for the page, the table entry becomes the disk address and is unlocked, the other
  entries stay, the page is no longer live, the head moves on by one page and the eviction is
  counted.\<close>

theorem evict_writes_back_head:
  fixes env :: CacheEnv
  defines "p \<equiv> get_meta_ref (ev_cache env) (buf_head (ev_cache env))"
  assumes "ring_ok (ev_cache env)" and "buf_head (ev_cache env) + 512 \<le> buff_size (ev_cache env)"
    and "leaf_wf p" and "NodeMeta_size (node_header p) = Some LeafPage"
    and "NodeMeta_is_live (node_header p) \<and> \<not> NodeMeta_is_hot (node_header p) \<and> \<not> NodeMeta_is_being_evicted (node_header p)"
    and "unat (NodeMeta_page_id (node_header p)) < MapTable_capacity (ev_map env)"
    and "PageEntry_get_ref (get_entry (ev_map env) (unat (NodeMeta_page_id (node_header p)))) = MiniPage (buf_head (ev_cache env))"
    and "PageEntry_state (get_entry (ev_map env) (unat (NodeMeta_page_id (node_header p)))) = 0"
    and "\<forall>i \<in> set (user_range p). KVMeta_typ (get_kv_meta p i) \<noteq> KVTombstone"
    and "get_page (ev_io env) (NodeMeta_leaf (node_header p)) = Inr d" and "leaf_wf d"
    and "all_admitted suffix_fits try_put_with_suffix d (user_records p)"
    and "checkpoint_page (ev_wal env) (NodeMeta_page_id (node_header p)) = (Inr (), wal')"
  shows "\<exists>env' d'. evict env = Some (Inr (), env') \<and>
    get_page (ev_io env') (NodeMeta_leaf (node_header p)) = Inr d' \<and> leaf_wf d' \<and>
    user_records d' = fold (\<lambda>(k, v). upsert k v) (user_records p) (user_records d) \<and>
    get_entry (ev_map env') (unat (NodeMeta_page_id (node_header p))) = PageEntry_leaf (NodeMeta_leaf (node_header p)) \<and>
    (\<forall>j. j \<noteq> unat (NodeMeta_page_id (node_header p)) \<longrightarrow> get_entry (ev_map env') j = get_entry (ev_map env) j) \<and>
    \<not> NodeMeta_is_live (node_header (get_meta_ref (ev_cache env') (buf_head (ev_cache env)))) \<and>
    buf_head (ev_cache env') = buf_wrap (ev_cache env) (buf_head (ev_cache env) + 512) \<and> ev_wal env' = wal' \<and>
    evictions (ev_debug env') = evictions (ev_debug env) + 1"
proof -
  let ?b = "ev_cache env" and ?i = "buf_head (ev_cache env)" and ?pid = "NodeMeta_page_id (node_header p)"
  define m where "m = NodeMeta_set_being_evicted (node_header p) True"
  define q where "q = set_node_header p m"
  have rc: "NodeMeta_record_count m = NodeMeta_record_count (node_header p)" by (simp add: m_def)
  have fit: "8 * ?i + 4096 \<le> length (backing ?b)" using assms(2,3) by (simp add: ring_ok_def)
  have len: "length p = 4096" using length_get_meta_ref[OF fit] by (simp add: p_def)
  note H = set_header_records[OF assms(4) rc, folded q_def]
  note L = set_header_leaf[OF assms(4) rc, folded q_def]
  have leaf: "NodeMeta_leaf (node_header q) = NodeMeta_leaf (node_header p)" by (simp add: H(3) m_def)
  have nt: "\<forall>i \<in> set (user_range q). KVMeta_typ (get_kv_meta q i) \<noteq> KVTombstone"
    using assms(10) H(4) by (auto simp: L(2) set_user_range)
  obtain d' io' where F: "flush_dirty_entries q (ev_io env) = (Inr (), q, io')"
    "get_page io' (NodeMeta_leaf (node_header p)) = Inr d'" "leaf_wf d'"
    "user_records d' = fold (\<lambda>(k, v). upsert k v) (user_records p) (user_records d)"
    using flush_spec[OF L(1) nt, of "ev_io env" d] assms(11-13) unfolding leaf L(3) by blast
  let ?mt = "set_entry (ev_map env) (unat ?pid) (write_locked (get_entry (ev_map env) (unat ?pid)))"
  let ?env = "env\<lparr>ev_map := ?mt\<rparr>"
  have "evict env = Some (evict_page ?i (buf_wrap ?b (?i + 512)) ?pid q ?env)"
    unfolding evict_def
    by (subst evict_loop.simps)
      (use assms(3,5-9) in \<open>simp add: Let_def write_page_entry_free evict_mark_spec NodeSize_size_in_words_def
        m_def [symmetric] q_def [symmetric] flip: p_def\<close>)
  moreover obtain env' where E: "evict_page ?i (buf_wrap ?b (?i + 512)) ?pid q ?env = (Inr (), env')"
    "ev_io env' = io'" "ev_wal env' = wal'" "ev_debug env' = record_eviction (ev_debug env)" "buf_head (ev_cache env') = buf_wrap ?b (?i + 512)"
    "\<not> NodeMeta_is_live (node_header (get_meta_ref (ev_cache env') ?i))"
    "get_entry (ev_map env') (unat ?pid) = PageEntry_leaf (NodeMeta_leaf (node_header q))"
    "\<And>j. j \<noteq> unat ?pid \<Longrightarrow> get_entry (ev_map env') j = get_entry ?mt j"
    by (rule evict_page_spec[of ?i ?env q io' ?pid wal' "buf_wrap ?b (?i + 512)"])
      (use fit len H(2) F(1) assms(7,14) in simp_all)
  ultimately show ?thesis using F(2-4) assms(7)
    by (intro exI[of _ env'] exI[of _ d']) (auto simp: leaf get_entry_set_entry evictions_def record_eviction_def)
qed

section \<open>Witnesses\<close>

text \<open>A cache of one leaf page, freshly formatted as page 7 at disk address 3.\<close>

definition one_page_cache :: MiniPageBuffer where
  "one_page_cache = \<lparr>backing = fresh_leaf, buff_size = 512, free_lists = replicate 7 (- 1), buf_head = 0, buf_tail = 512\<rparr>"

definition one_page_lock :: LockManager where
  "one_page_lock = set_slot LockManager_new 7 \<lparr>slot_guard = \<lparr>guard_inner = Write 7 (PageEntry_new_write_locked 0), guard_leaf = None\<rparr>, borrowed = True\<rparr>"

definition empty_log :: WalState where
  "empty_log = WalManager_clear (WalManager_open \<lparr>fbytes = [], fpos = 0\<rparr>)"

definition one_page_env :: CacheEnv where
  "one_page_env = \<lparr>ev_cache = one_page_cache, ev_map = MapTable_new 8, ev_io = fresh_disk, ev_wal = empty_log, ev_debug = Debug_init\<rparr>"

lemma reset_leaf_page_cold: "\<not> NodeMeta_is_hot (NodeMeta_reset_header m i LeafPage a)"
  by (simp add: flag_tests bit_reset_header0)

lemma fresh_leaf_header:
  "NodeMeta_size (node_header fresh_leaf) = Some LeafPage" "NodeMeta_page_id (node_header fresh_leaf) = 7"
  "NodeMeta_leaf (node_header fresh_leaf) = 3" "NodeMeta_is_live (node_header fresh_leaf)"
  "\<not> NodeMeta_is_hot (node_header fresh_leaf)" "\<not> NodeMeta_is_being_evicted (node_header fresh_leaf)"
proof -
  let ?m = "NodeMeta_reset_header (node_header (replicate 4096 0)) 7 LeafPage 3"
  let ?p = "set_node_header (replicate 4096 0) ?m"
  have f: "install_fences ?p [0x00] [0xFF] = (fst (install_fences ?p [0x00] [0xFF]), fresh_leaf)"
    by (simp add: fresh_leaf_def format_leaf_def ensure_fence_keys_def record_count_def)
  have h: "node_header fresh_leaf = NodeMeta_set_record_count ?m 2"
    using install_fences_wf(6)[OF _ _ _ f, of LeafPage] by simp
  show "NodeMeta_size (node_header fresh_leaf) = Some LeafPage" "NodeMeta_page_id (node_header fresh_leaf) = 7"
    "NodeMeta_leaf (node_header fresh_leaf) = 3" "NodeMeta_is_live (node_header fresh_leaf)"
    "\<not> NodeMeta_is_hot (node_header fresh_leaf)" "\<not> NodeMeta_is_being_evicted (node_header fresh_leaf)"
    by (simp_all add: h reset_leaf_page_cold)
qed

lemma one_page_cache_page [simp]: "get_meta_ref one_page_cache 0 = fresh_leaf"
  by (simp add: one_page_cache_def get_meta_ref_def get_meta_ptr_def read_at_def fresh_leaf_facts)

lemma one_page_cache_fields [simp]:
  "ring_ok one_page_cache" "buff_size one_page_cache = 512" "buf_head one_page_cache = 0" "buf_tail one_page_cache = 512"
  by (simp_all add: one_page_cache_def ring_ok_def fresh_leaf_facts)

theorem drained_ring_exhausted_witness:
  "\<exists>env. alloc (ev_cache env) LeafPage = (None, ev_cache env) \<and> evict env = Some (Inl (QSErr CacheExhausted), env)"
proof -
  define q where "q = set_node_header fresh_leaf (NodeMeta_set_live (node_header fresh_leaf) False)"
  define env where "env = one_page_env\<lparr>ev_cache := one_page_cache\<lparr>backing := q\<rparr>\<rparr>"
  have len: "length q = 4096" "node_header q = NodeMeta_set_live (node_header fresh_leaf) False"
    by (simp_all add: q_def fresh_leaf_facts)
  then have "get_meta_ref (ev_cache env) 0 = q"
    by (simp add: env_def get_meta_ref_def get_meta_ptr_def read_at_def)
  moreover have "NodeMeta_size (node_header q) = NodeMeta_size (node_header fresh_leaf)"
    by (simp add: len header_fields field_with_other)
  ultimately have "NodeMeta_size (node_header (get_meta_ref (ev_cache env) 0)) = Some LeafPage"
    "\<not> NodeMeta_is_live (node_header (get_meta_ref (ev_cache env) 0))"
    by (simp_all add: fresh_leaf_header len)
  then have "\<forall>j. 512 * j < buff_size (ev_cache env) \<longrightarrow>
      NodeMeta_size (node_header (get_meta_ref (ev_cache env) (512 * j))) = Some LeafPage \<and>
      \<not> NodeMeta_is_live (node_header (get_meta_ref (ev_cache env) (512 * j)))"
    by (simp add: env_def one_page_cache_def)
  from drained_ring_exhausted[OF _ _ this, of 9 LeafPage]
  have "alloc (ev_cache env) LeafPage = (None, ev_cache env) \<and> evict env = Some (Inl (QSErr CacheExhausted), env)"
    by (simp add: env_def one_page_cache_def)
  then show ?thesis by blast
qed

theorem evict_after_put_undefined_witness:
  "\<exists>cache'. guard_try_put one_page_lock 7 one_page_cache [5] [1] = (Inr Success, cache') \<and>
    evict (one_page_env\<lparr>ev_cache := cache'\<rparr>) = Some (Inl UndefinedBehaviour, one_page_env\<lparr>ev_cache := cache'\<rparr>)"
proof -
  have "leaf_space fresh_leaf 10" by (rule leaf_space_mono[OF fresh_leaf_facts(7)]) simp
  then have "put_fits fresh_leaf [5] [1]"
    by (simp add: put_fits_def suffix_fits_def fresh_leaf_facts leaf_room_space)
  with evict_after_put_undefined[of one_page_lock 7 7 "PageEntry_new_write_locked 0" one_page_cache "[5]" "[1]"
      "MapTable_new 8" fresh_disk empty_log Debug_init]
  show ?thesis
    by (simp add: one_page_lock_def get_write_guard_def fresh_leaf_facts fresh_leaf_header one_page_env_def)
qed

theorem evict_writes_back_head_witness:
  "\<exists>env'. evict one_page_env = Some (Inr (), env') \<and> get_entry (ev_map env') 7 = PageEntry_leaf 3"
proof -
  have "checkpoint_page empty_log 7 = (Inr (), empty_log)"
    by (simp add: checkpoint_page_def empty_log_def WalManager_clear_def Let_def)
  moreover have "PageEntry_get_ref 0 = MiniPage 0" "PageEntry_state 0 = 0"
    by (simp_all add: PageEntry_get_ref_def PageEntry_state_def)
  moreover have "user_range fresh_leaf = []"
    using fresh_leaf_facts(2) by (simp add: user_records_def)
  ultimately show ?thesis
    using evict_writes_back_head[of one_page_env fresh_leaf empty_log]
    by (auto simp: one_page_env_def fresh_leaf_facts fresh_leaf_header fresh_disk_page MapTable_new_def
        MapTable_capacity_def get_entry_def)
qed

section \<open>The scan ends\<close>

text \<open>
  The places the scan can visit: \<open>S\<close> is a set of word indices of page headers, on the boundaries of
  the smallest page, closed under the step to the next page.  A page that is in use is the one the
  page table has for its id, or a copy of it: the entry of its id is a disk address or the index
  of a page of \<open>S\<close> with that id.
\<close>

definition ring_header :: "CacheEnv \<Rightarrow> nat \<Rightarrow> node_meta" where
  "ring_header env i = node_header (get_meta_ref (ev_cache env) i)"

definition scan_page :: "nat set \<Rightarrow> CacheEnv \<Rightarrow> nat \<Rightarrow> bool" where
  "scan_page S env i \<longleftrightarrow> i mod 8 = 0 \<and> i + 8 \<le> buff_size (ev_cache env) \<and>
    (\<forall>sz. NodeMeta_size (ring_header env i) = Some sz \<or> NodeMeta_size (NodeMeta_clear_hot (ring_header env i)) = Some sz \<longrightarrow>
      buf_wrap (ev_cache env) (i + NodeSize_size_in_words sz) \<in> S) \<and>
    (\<forall>j. NodeMeta_is_live (ring_header env i) \<and>
      PageEntry_get_ref (get_entry (ev_map env) (unat (NodeMeta_page_id (ring_header env i)))) = MiniPage j \<longrightarrow>
      j \<in> S \<and> NodeMeta_page_id (ring_header env j) = NodeMeta_page_id (ring_header env i))"

definition scan_pages :: "nat set \<Rightarrow> CacheEnv \<Rightarrow> bool" where
  "scan_pages S env \<longleftrightarrow> length (backing (ev_cache env)) = 8 * buff_size (ev_cache env) \<and> (\<forall>i \<in> S. scan_page S env i)"

lemma write_iter_ref:
  assumes "write_page_entry_iter False (Suc k) e w = (pc, w1)" and "PageEntry_get_ref e = PageEntry_get_ref w"
  shows "PageEntry_get_ref w1 = PageEntry_get_ref w"
    and "pc = WriteGuard e \<or> pc = Writing k e \<or> pc = Writing k w"
proof -
  have s: "unat WRITE_LOCK_STATE < 2 ^ 14" by (simp add: write_lock_state(2))
  show "PageEntry_get_ref w1 = PageEntry_get_ref w"
    using assms get_ref_set_state[OF s, of e]
    by (simp add: write_page_entry_iter_def compare_exchange_def Let_def split: if_splits) (metis get_ref_set_pending)+
  show "pc = WriteGuard e \<or> pc = Writing k e \<or> pc = Writing k w"
    using assms(1) by (simp add: write_page_entry_iter_def compare_exchange_def Let_def split: if_splits) metis+
qed

lemma write_loop_ref:
  "write_loop n e w = (r, w') \<Longrightarrow> PageEntry_get_ref e = PageEntry_get_ref w \<Longrightarrow>
    PageEntry_get_ref w' = PageEntry_get_ref w \<and> (\<forall>node. r = Inr node \<longrightarrow> PageEntry_get_ref node = PageEntry_get_ref w)"
proof (induction n arbitrary: e w)
  case 0
  then show ?case by (subst (asm) write_loop.simps) (auto simp: write_page_entry_iter_def)
next
  case (Suc k)
  obtain pc w1 where it: "write_page_entry_iter False (Suc k) e w = (pc, w1)" by fastforce
  note R = write_iter_ref[OF it Suc.prems(2)]
  consider "pc = WriteGuard e" | e' where "pc = Writing k e'" "PageEntry_get_ref e' = PageEntry_get_ref w1"
    using R Suc.prems(2) by metis
  then show ?case
  proof cases
    case 1
    then have "r = Inr e" "w' = w1" using Suc.prems(1) it by (subst (asm) write_loop.simps, simp)+
    with R(1) Suc.prems(2) show ?thesis by simp
  next
    case (2 e')
    have "write_loop k e' w1 = (r, w')" using Suc.prems(1) it 2(1) by (subst (asm) write_loop.simps) simp
    from Suc.IH[OF this 2(2)] R(1) show ?thesis by simp
  qed
qed

lemma write_page_entry_ref:
  assumes "write_page_entry mt i = (r, mt')" and "i < MapTable_capacity mt"
  shows "PageEntry_get_ref (get_entry mt' j) = PageEntry_get_ref (get_entry mt j)"
    "r = Inr node \<Longrightarrow> PageEntry_get_ref node = PageEntry_get_ref (get_entry mt i)"
    "MapTable_capacity mt' = MapTable_capacity mt"
proof -
  obtain w' where w: "write_loop SPIN_RETRIES (get_entry mt i) (get_entry mt i) = (r, w')" "mt' = set_entry mt i w'"
    using assms(1) by (auto simp: write_page_entry_def Let_def split: prod.splits)
  note R = write_loop_ref[OF w(1) refl]
  show "PageEntry_get_ref (get_entry mt' j) = PageEntry_get_ref (get_entry mt j)"
    using R assms(2) by (cases "j = i") (simp_all add: w(2) get_entry_set_entry)
  show "r = Inr node \<Longrightarrow> PageEntry_get_ref node = PageEntry_get_ref (get_entry mt i)" using R by simp
  show "MapTable_capacity mt' = MapTable_capacity mt" by (simp add: w(2) set_entry_def MapTable_capacity_def)
qed

lemma drop_write_ref:
  assumes "unat page < MapTable_capacity mt"
  shows "PageEntry_get_ref (get_entry (drop_guard mt (Write page node)) j) = PageEntry_get_ref (get_entry mt j)"
    "MapTable_capacity (drop_guard mt (Write page node)) = MapTable_capacity mt"
  using assms
  by (simp_all add: Let_def drop_write_iter_def compare_exchange_def get_entry_set_entry)


lemma clear_hot_fields:
  "NodeMeta_clear_hot (NodeMeta_clear_hot m) = NodeMeta_clear_hot m"
  "NodeMeta_is_live (NodeMeta_clear_hot m) = NodeMeta_is_live m"
  "NodeMeta_page_id (NodeMeta_clear_hot m) = NodeMeta_page_id m"
  by (simp_all add: header_fields bit_with_field with_field_twice)

lemma scan_pagesD:
  assumes "scan_pages S env"
  shows "length (backing (ev_cache env)) = 8 * buff_size (ev_cache env)"
    "i \<in> S \<Longrightarrow> i mod 8 = 0" "i \<in> S \<Longrightarrow> i + 8 \<le> buff_size (ev_cache env)"
    "i \<in> S \<Longrightarrow> NodeMeta_size (ring_header env i) = Some sz \<Longrightarrow> buf_wrap (ev_cache env) (i + NodeSize_size_in_words sz) \<in> S"
    "i \<in> S \<Longrightarrow> NodeMeta_size (NodeMeta_clear_hot (ring_header env i)) = Some sz \<Longrightarrow>
      buf_wrap (ev_cache env) (i + NodeSize_size_in_words sz) \<in> S"
    "i \<in> S \<Longrightarrow> NodeMeta_is_live (ring_header env i) \<Longrightarrow>
      PageEntry_get_ref (get_entry (ev_map env) (unat (NodeMeta_page_id (ring_header env i)))) = MiniPage j \<Longrightarrow>
      j \<in> S \<and> NodeMeta_page_id (ring_header env j) = NodeMeta_page_id (ring_header env i)"
proof -
  show "length (backing (ev_cache env)) = 8 * buff_size (ev_cache env)" using assms by (simp only: scan_pages_def)
  assume "i \<in> S"
  then have "scan_page S env i" using assms unfolding scan_pages_def by blast
  note P = this [unfolded scan_page_def]
  from P show "i mod 8 = 0" "i + 8 \<le> buff_size (ev_cache env)" by (rule conjunct1, elim conjE)
  from P show "NodeMeta_size (ring_header env i) = Some sz \<Longrightarrow> buf_wrap (ev_cache env) (i + NodeSize_size_in_words sz) \<in> S"
    "NodeMeta_size (NodeMeta_clear_hot (ring_header env i)) = Some sz \<Longrightarrow>
      buf_wrap (ev_cache env) (i + NodeSize_size_in_words sz) \<in> S"
    by blast+
  from P show "NodeMeta_is_live (ring_header env i) \<Longrightarrow>
      PageEntry_get_ref (get_entry (ev_map env) (unat (NodeMeta_page_id (ring_header env i)))) = MiniPage j \<Longrightarrow>
      j \<in> S \<and> NodeMeta_page_id (ring_header env j) = NodeMeta_page_id (ring_header env i)"
    by blast
qed

text \<open>Headers may lose their hot bit and entries of the table may be locked and unlocked.\<close>

lemma scan_pages_keep:
  assumes S: "scan_pages S env"
    and cache: "length (backing (ev_cache env')) = length (backing (ev_cache env))"
      "buff_size (ev_cache env') = buff_size (ev_cache env)"
    and hdr: "\<And>i. i \<in> S \<Longrightarrow> ring_header env' i = ring_header env i \<or> ring_header env' i = NodeMeta_clear_hot (ring_header env i)"
    and ref: "\<And>j. PageEntry_get_ref (get_entry (ev_map env') j) = PageEntry_get_ref (get_entry (ev_map env) j)"
  shows "scan_pages S env'"
proof -
  have w: "buf_wrap (ev_cache env') = buf_wrap (ev_cache env)" by (simp add: buf_wrap_def cache fun_eq_iff)
  have f: "NodeMeta_is_live (ring_header env' i) = NodeMeta_is_live (ring_header env i)"
    "NodeMeta_page_id (ring_header env' i) = NodeMeta_page_id (ring_header env i)"
    "NodeMeta_clear_hot (ring_header env' i) = NodeMeta_clear_hot (ring_header env i)" if "i \<in> S" for i
    using hdr[OF that] by (auto simp: clear_hot_fields)
  note D = scan_pagesD[OF S]
  have size: "buf_wrap (ev_cache env) (i + NodeSize_size_in_words sz) \<in> S"
    if "i \<in> S" "NodeMeta_size (ring_header env' i) = Some sz \<or> NodeMeta_size (NodeMeta_clear_hot (ring_header env' i)) = Some sz" for i sz
    using that D(4,5)[OF that(1), of sz] hdr[OF that(1)] f(3)[OF that(1)] by auto
  have refs: "j \<in> S \<and> NodeMeta_page_id (ring_header env' j) = NodeMeta_page_id (ring_header env' i)"
    if "i \<in> S" "NodeMeta_is_live (ring_header env' i)"
      "PageEntry_get_ref (get_entry (ev_map env') (unat (NodeMeta_page_id (ring_header env' i)))) = MiniPage j" for i j
    using D(6)[OF that(1), of j] that f[OF that(1)] f(2)[of j] ref by auto
  show ?thesis
    unfolding scan_pages_def scan_page_def w cache using D(1-3) size refs by blast
qed

lemma scan_pages_lock:
  assumes "scan_pages S env" and "\<And>j. PageEntry_get_ref (get_entry mt j) = PageEntry_get_ref (get_entry (ev_map env) j)"
  shows "scan_pages S (env\<lparr>ev_map := mt\<rparr>)"
  by (rule scan_pages_keep[OF assms(1)]) (simp_all add: assms(2) ring_header_def)

lemma ring_header_words:
  "ring_header env i = \<lparr>nm0 = read_u64 (backing (ev_cache env)) (8 * i), nm1 = read_u64 (backing (ev_cache env)) (8 * i + 8)\<rparr>"
  by (simp add: ring_header_def node_header_def get_meta_ref_def get_meta_ptr_def read_u64_def read_at_def
      drop_take min_def add.commute)

lemma nth_set_node_header:
  assumes "16 \<le> length p" and "16 \<le> x" and "x < length p"
  shows "set_node_header p m ! x = p ! x"
  using assms by (simp add: set_node_header_def write_u64_def nth_write_at)

lemma ring_header_put:
  assumes "length (backing (ev_cache env)) = 8 * buff_size (ev_cache env)"
    and "c mod 8 = 0" "c + 8 \<le> buff_size (ev_cache env)" and "i mod 8 = 0" "i + 8 \<le> buff_size (ev_cache env)"
  shows "ring_header (env\<lparr>ev_cache := put_meta (ev_cache env) c (set_node_header (get_meta_ref (ev_cache env) c) m)\<rparr>) i =
    (if i = c then m else ring_header env i)"
proof -
  let ?B = "backing (ev_cache env)" and ?p = "get_meta_ref (ev_cache env) c"
  let ?q = "set_node_header ?p m"
  have p: "16 \<le> length ?p" "length ?p \<le> length ?B - 8 * c" "length ?q = length ?p"
    using assms(1,3) by (simp_all add: get_meta_ref_def get_meta_ptr_def)
  have nth_p: "?p ! x = ?B ! (8 * c + x)" if "x < length ?p" for x
    using that assms(1,3) by (simp add: get_meta_ref_def get_meta_ptr_def read_at_def)
  have fit: "8 * c + length ?q \<le> length ?B" using p assms(1,3) by simp
  let ?B' = "write_at ?B (8 * c) ?q"
  have same: "?B' ! y = ?B ! y" if "y < length ?B" "y < 8 * c \<or> 8 * c + 16 \<le> y" for y
  proof -
    have "?q ! (y - 8 * c) = ?B ! y" if "8 * c + 16 \<le> y" "y < 8 * c + length ?q"
      using that nth_set_node_header[OF p(1), of "y - 8 * c" m] nth_p[of "y - 8 * c"] p(3) by simp
    with that fit show ?thesis by (auto simp: nth_write_at)
  qed
  show ?thesis
  proof (cases "i = c")
    case True
    have "read_u64 ?B' (8 * c + a) = read_u64 ?q a" if "a + 8 \<le> 16" for a
      using that p(1,3) fit by (simp add: read_u64_def read_write_within)
    from this[of 0] this[of 8] have "ring_header (env\<lparr>ev_cache := put_meta (ev_cache env) c ?q\<rparr>) c = node_header ?q"
      by (simp add: ring_header_words node_header_def put_meta_def get_meta_ptr_def)
    with True p(1) show ?thesis by simp
  next
    case False
    have far: "8 * i + 16 \<le> 8 * c \<or> 8 * c + 16 \<le> 8 * i"
    proof -
      obtain a b where "i = 8 * a" "c = 8 * b" using assms(2,4) by (metis mod_0_imp_dvd dvd_def)
      with False show ?thesis by (cases "a < b") auto
    qed
    have "read_u64 ?B' (8 * i + a) = read_u64 ?B (8 * i + a)" if "a + 8 \<le> 16" for a
    proof -
      have "read_at ?B' (8 * i + a) 8 = read_at ?B (8 * i + a) 8"
      proof (rule read_at_eqI)
        show "8 * i + a + 8 \<le> length ?B'" "8 * i + a + 8 \<le> length ?B"
          using that fit assms(1,5) by simp_all
        fix k :: nat assume "k < 8"
        then show "?B' ! (8 * i + a + k) = ?B ! (8 * i + a + k)"
          using that far assms(1,5) by (intro same) auto
      qed
      then show ?thesis by (simp add: read_u64_def)
    qed
    from this[of 0] this[of 8] show ?thesis using False
      by (simp add: ring_header_words put_meta_def get_meta_ptr_def)
  qed
qed

lemma scan_pages_hot:
  assumes S: "scan_pages S env" and c: "c \<in> S"
  shows "scan_pages S (env\<lparr>ev_cache := put_meta (ev_cache env) c
    (set_node_header (get_meta_ref (ev_cache env) c) (NodeMeta_clear_hot (ring_header env c))), ev_debug := d\<rparr>)"
    (is "scan_pages S ?env")
proof (rule scan_pages_keep[OF S])
  note D = scan_pagesD[OF S]
  have "16 \<le> length (get_meta_ref (ev_cache env) c)"
    "8 * c + length (get_meta_ref (ev_cache env) c) \<le> length (backing (ev_cache env))"
    using D(1) D(3)[OF c] by (simp_all add: get_meta_ref_def get_meta_ptr_def)
  then show "length (backing (ev_cache ?env)) = length (backing (ev_cache env))"
    by (simp add: put_meta_def get_meta_ptr_def)
  show "ring_header ?env i = ring_header env i \<or> ring_header ?env i = NodeMeta_clear_hot (ring_header env i)" if "i \<in> S" for i
    using ring_header_put[OF D(1) D(2,3)[OF c] D(2,3)[OF that]] by (simp add: ring_header_def)
qed simp_all

text \<open>A page whose entry refers to it, or to the disk, makes the scan advance or return.\<close>

lemma evict_loop_advance:
  assumes S: "scan_pages S env" "c \<in> S" and sc: "scanned < buff_size (ev_cache env)"
    and rest: "\<And>c' scanned' env'. scan_pages S env' \<Longrightarrow> c' \<in> S \<Longrightarrow> buff_size (ev_cache env') = buff_size (ev_cache env) \<Longrightarrow>
      scanned < scanned' \<Longrightarrow> \<exists>y. evict_loop c' scanned' env' = Some y"
    and jump: "\<And>j env'. scan_pages S env' \<Longrightarrow> j \<in> S \<Longrightarrow> buff_size (ev_cache env') = buff_size (ev_cache env) \<Longrightarrow> j \<noteq> c \<Longrightarrow>
      PageEntry_get_ref (get_entry (ev_map env) (unat (NodeMeta_page_id (ring_header env c)))) = MiniPage j \<Longrightarrow>
      PageEntry_get_ref (get_entry (ev_map env') (unat (NodeMeta_page_id (ring_header env' j)))) = MiniPage j \<Longrightarrow>
      \<exists>y. evict_loop j scanned env' = Some y"
  shows "\<exists>y. evict_loop c scanned env = Some y"
proof (cases "NodeMeta_size (ring_header env c)")
  case None
  then show ?thesis using sc by (subst evict_loop.simps) (simp add: Let_def ring_header_def)
next
  case (Some sz)
  let ?m = "ring_header env c" and ?nx = "buf_wrap (ev_cache env) (c + NodeSize_size_in_words sz)"
  let ?sc = "scanned + NodeSize_size_in_words sz" and ?pid = "unat (NodeMeta_page_id (ring_header env c))"
  have nx: "?nx \<in> S" "scanned < ?sc" using scan_pagesD(4)[OF S Some] size_in_words_pos[of sz] by simp_all
  note L = evict_loop.simps[of c scanned env, unfolded Let_def, folded ring_header_def]
  note step = Some sc
  consider (dead) "\<not> NodeMeta_is_live ?m" | (hot) "NodeMeta_is_live ?m" "NodeMeta_is_hot ?m"
    | (out) "NodeMeta_is_live ?m" "\<not> NodeMeta_is_hot ?m" "MapTable_capacity (ev_map env) \<le> ?pid"
    | (cold) "NodeMeta_is_live ?m" "\<not> NodeMeta_is_hot ?m" "?pid < MapTable_capacity (ev_map env)" by linarith
  then show ?thesis
  proof cases
    case dead
    then show ?thesis using rest[OF S(1) nx(1) refl nx(2)] step by (simp add: L)
  next
    case hot
    have "\<exists>y. evict_loop ?nx ?sc (env\<lparr>ev_cache := put_meta (ev_cache env) c
        (set_node_header (get_meta_ref (ev_cache env) c) (NodeMeta_clear_hot ?m)), ev_debug := record_second_chance (ev_debug env)\<rparr>) = Some y"
      by (rule rest[OF scan_pages_hot[OF S] nx(1) _ nx(2)]) simp
    then show ?thesis using step hot by (simp add: L)
  next
    case out
    then show ?thesis using step by (simp add: L)
  next
    case cold
    obtain r mt where w: "write_page_entry (ev_map env) ?pid = (r, mt)" by fastforce
    note W = write_page_entry_ref[OF w cold(3)]
    show ?thesis
    proof (cases r)
      case (Inl e)
      have "\<exists>y. evict_loop ?nx ?sc (env\<lparr>ev_map := mt\<rparr>) = Some y"
        by (rule rest[OF scan_pages_lock[OF S(1) W(1)] nx(1) _ nx(2)]) simp
      then show ?thesis using step cold w Inl by (simp add: L)
    next
      case (Inr node)
      define mt' where "mt' = drop_guard mt (Write (NodeMeta_page_id ?m) node)"
      have refs: "PageEntry_get_ref (get_entry mt' j) = PageEntry_get_ref (get_entry (ev_map env) j)" for j
        using drop_write_ref(1)[of "NodeMeta_page_id ?m" mt node j] W(1,3) cold(3) by (simp add: mt'_def del: drop_guard.simps)
      have ref: "PageEntry_get_ref node = PageEntry_get_ref (get_entry (ev_map env) ?pid)" by (rule W(2)[OF Inr])
      have S': "scan_pages S (env\<lparr>ev_map := mt'\<rparr>)" by (rule scan_pages_lock[OF S(1) refs])
      have next': "\<exists>y. evict_loop ?nx ?sc (env\<lparr>ev_map := mt'\<rparr>) = Some y"
        by (rule rest[OF S' nx(1) _ nx(2)]) simp
      note E = L [unfolded mt'_def [symmetric]]
      show ?thesis
      proof (cases "PageEntry_get_ref node")
        case (Leaf a)
        then show ?thesis using step cold w Inr next' by (simp add: L mt'_def del: drop_guard.simps)
      next
        case (MiniPage j)
        note R = scan_pagesD(6)[OF S cold(1), of j]
        show ?thesis
        proof (cases "j = c")
          case True
          then show ?thesis using step cold w Inr next' MiniPage
            by (cases "NodeMeta_mark_for_eviction ?m") (simp_all add: L mt'_def del: drop_guard.simps)
        next
          case False
          have j: "j \<in> S" "NodeMeta_page_id (ring_header env j) = NodeMeta_page_id ?m"
            using R MiniPage ref by simp_all
          have "ring_header (env\<lparr>ev_map := mt'\<rparr>) j = ring_header env j" by (simp add: ring_header_def)
          then have "\<exists>y. evict_loop j scanned (env\<lparr>ev_map := mt'\<rparr>) = Some y"
            using j MiniPage ref refs False by (intro jump[OF S']) simp_all
          then show ?thesis using step cold w Inr MiniPage False by (simp add: L mt'_def del: drop_guard.simps)
        qed
      qed
    qed
  qed
qed

lemma evict_loop_ends:
  assumes "scan_pages S env" and "c \<in> S"
  shows "\<exists>y. evict_loop c scanned env = Some y"
  using assms
proof (induction "buff_size (ev_cache env) - scanned" arbitrary: c scanned env rule: less_induct)
  case less
  show ?case
  proof (cases "scanned < buff_size (ev_cache env)")
    case False
    then show ?thesis by (subst evict_loop.simps) simp
  next
    case True
    have rest: "\<exists>y. evict_loop c' scanned' env' = Some y"
      if "scan_pages S env'" "c' \<in> S" "buff_size (ev_cache env') = buff_size (ev_cache env)" "scanned < scanned'" for c' scanned' env'
      using that True by (intro less.hyps) auto
    show ?thesis
    proof (rule evict_loop_advance[OF less.prems True rest])
      fix j env'
      assume e: "scan_pages S env'" "j \<in> S" "buff_size (ev_cache env') = buff_size (ev_cache env)"
        "PageEntry_get_ref (get_entry (ev_map env') (unat (NodeMeta_page_id (ring_header env' j)))) = MiniPage j"
      show "\<exists>y. evict_loop j scanned env' = Some y"
        by (rule evict_loop_advance[OF e(1,2)]) (use True e rest in auto)
    qed
  qed
qed


text \<open>A full ring with two pages of the same id, of which the table knows the second.\<close>

definition moved_page_env :: CacheEnv where
  "moved_page_env = one_page_env\<lparr>
     ev_cache := one_page_cache\<lparr>backing := fresh_leaf @ fresh_leaf, buff_size := 1024, buf_tail := 1024\<rparr>,
     ev_map := set_entry (MapTable_new 8) 7 (push_bit 16 512)\<rparr>"

lemma moved_page_facts:
  "ring_header moved_page_env 0 = node_header fresh_leaf" "ring_header moved_page_env 512 = node_header fresh_leaf"
  "get_entry (ev_map moved_page_env) 7 = push_bit 16 512" "buff_size (ev_cache moved_page_env) = 1024"
  "length (backing (ev_cache moved_page_env)) = 8192" "buf_head (ev_cache moved_page_env) = 0"
  by (simp_all add: moved_page_env_def ring_header_def get_meta_ref_def get_meta_ptr_def read_at_def fresh_leaf_facts
      one_page_env_def get_entry_def set_entry_def MapTable_new_def)

lemma moved_page_scan: "scan_pages {0, 512} moved_page_env"
proof -
  have sz: "NodeMeta_size (NodeMeta_clear_hot (node_header fresh_leaf)) = Some LeafPage"
    using fresh_leaf_header(1,5) by (simp add: clear_hot_size NodeSize_transmute_def)
  have wrap: "buf_wrap (ev_cache moved_page_env) 512 = 512" "buf_wrap (ev_cache moved_page_env) 1024 = 0"
    using buf_wrap_mod[of "ev_cache moved_page_env" 10] by (simp_all add: moved_page_facts)
  have ref: "PageEntry_get_ref 33554432 = MiniPage 512" using get_ref_push[of 512] by simp
  show ?thesis
    by (simp add: scan_pages_def scan_page_def moved_page_facts fresh_leaf_header sz wrap ref NodeSize_size_in_words_def)
qed

end
