(* ===== verification/BNode.thy ===== *)
theory BNode
  imports Utils
begin

text \<open>
  btree.rs, the inner nodes: a 4096-byte node with a version lock, a count, the index of the last
  free byte, the lowest child and a 4072-byte buffer in which the metadata of the entries grows
  from the front and the keys with their children grow from the back.

  The fields \<open>count\<close> and \<open>alloc_idx\<close> stay below 4072, so they are natural numbers; a subtraction
  that would go below zero is the panic or the error of the code.
\<close>

section \<open>Child pointers\<close>

datatype ChildPointer = ChildLeaf u64 | ChildInner u32

fun as_leaf :: "ChildPointer \<Rightarrow> u64 result" where
  "as_leaf (ChildLeaf page) = Inr page"
| "as_leaf (ChildInner _) = Inl (Panic PanicUnreachable)"

fun as_inner :: "ChildPointer \<Rightarrow> u32 result" where
  "as_inner (ChildInner node) = Inr node"
| "as_inner (ChildLeaf _) = Inl (Panic PanicUnreachable)"

section \<open>Nodes\<close>

definition MAX_KEY_LENGTH :: nat where "MAX_KEY_LENGTH = 64"
definition INLINE_BUFFER_LEN :: nat where "INLINE_BUFFER_LEN = 4072"
definition LEAF_CHILD_BYTES :: nat where "LEAF_CHILD_BYTES = 6"

record BPNode =
  vlock :: u64
  bp_count :: nat
  alloc_idx :: nat
  lowest :: u64
  rest :: bytes

definition BPNode_blank :: BPNode where
  "BPNode_blank = \<lparr>vlock = 0, bp_count = 0, alloc_idx = INLINE_BUFFER_LEN - 1, lowest = - 1,
    rest = replicate INLINE_BUFFER_LEN 0\<rparr>"

text \<open>The offset and the length of a key, two 16-bit integers.\<close>

definition bp_get_meta :: "BPNode \<Rightarrow> nat \<Rightarrow> nat \<times> nat" where
  "bp_get_meta n idx =
    (unat (u16_from_le_bytes (read_at (rest n) (4 * idx) 2)),
     unat (u16_from_le_bytes (read_at (rest n) (4 * idx + 2) 2)))"

definition bp_write_meta :: "BPNode \<Rightarrow> nat \<Rightarrow> nat \<Rightarrow> nat \<Rightarrow> BPNode" where
  "bp_write_meta n idx start_offset key_len =
    n\<lparr>rest := write_at (rest n) (4 * idx)
      (u16_to_le_bytes (word_of_nat start_offset) @ u16_to_le_bytes (word_of_nat key_len))\<rparr>"

definition bp_get_key :: "BPNode \<Rightarrow> nat \<Rightarrow> bytes result" where
  "bp_get_key n idx =
    (let (start, len) = bp_get_meta n idx
     in if length (rest n) < start + len then Inl (Panic PanicBounds) else Inr (read_at (rest n) start len))"

definition get_leaf_child :: "BPNode \<Rightarrow> nat \<Rightarrow> u64" where
  "get_leaf_child n idx =
    (let (start, len) = bp_get_meta n idx in extract_u48 (drop (start + len) (rest n)))"

definition get_inner_child :: "BPNode \<Rightarrow> nat \<Rightarrow> u32" where
  "get_inner_child n idx =
    (let (start, len) = bp_get_meta n idx in extract_u32 (drop (start + len) (rest n)))"

definition lowest_child_for_level :: "BPNode \<Rightarrow> nat \<Rightarrow> ChildPointer" where
  "lowest_child_for_level n level = (if level = 1 then ChildLeaf (lowest n) else ChildInner (ucast (lowest n)))"

definition get_child_for_level :: "BPNode \<Rightarrow> nat \<Rightarrow> nat \<Rightarrow> ChildPointer" where
  "get_child_for_level n idx level =
    (if level = 1 then ChildLeaf (get_leaf_child n idx) else ChildInner (get_inner_child n idx))"

definition space_left :: "BPNode \<Rightarrow> nat result" where
  "space_left n =
    (let kv_meta_size = 4 * bp_count n
     in if alloc_idx n < kv_meta_size then Inl (Panic PanicOverflow)
        else Inr (alloc_idx n - kv_meta_size + 1))"

definition can_overflow :: "BPNode \<Rightarrow> nat \<Rightarrow> bool result" where
  "can_overflow n level =
    (let child_size = (if level = 1 then LEAF_CHILD_BYTES else 4) in
     case space_left n of Inl e \<Rightarrow> Inl e | Inr s \<Rightarrow> Inr (s < 4 + MAX_KEY_LENGTH + child_size))"

definition will_underflow :: "BPNode \<Rightarrow> bool result" where
  "will_underflow n =
    (case space_left n of Inl e \<Rightarrow> Inl e | Inr s \<Rightarrow> Inr (s \<le> INLINE_BUFFER_LEN div 2))"

section \<open>Building a node\<close>

definition reset_leaf_parent :: "BPNode \<Rightarrow> u64 \<Rightarrow> BPNode" where
  "reset_leaf_parent n lowest_child =
    n\<lparr>bp_count := 0, alloc_idx := INLINE_BUFFER_LEN - 1, lowest := lowest_child\<rparr>"

definition reset_inner_parent :: "BPNode \<Rightarrow> u32 \<Rightarrow> BPNode" where
  "reset_inner_parent n lowest_child =
    n\<lparr>bp_count := 0, alloc_idx := INLINE_BUFFER_LEN - 1, lowest := ucast lowest_child\<rparr>"

text \<open>\<open>copy_from_slice\<close> into a slice of the buffer, which panics when the lengths differ.\<close>

definition copy_from_slice :: "BPNode \<Rightarrow> nat \<Rightarrow> nat \<Rightarrow> bytes \<Rightarrow> unit result \<times> BPNode" where
  "copy_from_slice n start stop src =
    (if length (rest n) < stop \<or> length src \<noteq> stop - start then (Inl (Panic PanicBounds), n)
     else (Inr (), n\<lparr>rest := write_at (rest n) start src\<rparr>))"

text \<open>The common part of the two append functions, with the bytes of the child and its width.\<close>

definition append_entry :: "BPNode \<Rightarrow> bytes \<Rightarrow> bytes \<Rightarrow> nat \<Rightarrow> unit result \<times> BPNode" where
  "append_entry n key child_bytes child_len =
    (if MAX_KEY_LENGTH < length key then (Inl (QSErr KeyTooLarge), n)
     else
       let needed = length key + child_len; meta_cost = 4 in
       case space_left n of
         Inl e \<Rightarrow> (Inl e, n)
       | Inr space \<Rightarrow>
           if space < needed + meta_cost \<or> alloc_idx n < needed then (Inl (QSErr NodeFull), n)
           else
             let n = n\<lparr>alloc_idx := alloc_idx n - needed\<rparr>;
                 key_start = alloc_idx n + 1;
                 child_start = key_start + length key
             in
               case copy_from_slice n key_start (key_start + length key) key of
                 (Inl e, n) \<Rightarrow> (Inl e, n)
               | (Inr _, n) \<Rightarrow>
                   case copy_from_slice n child_start (child_start + child_len) child_bytes of
                     (Inl e, n) \<Rightarrow> (Inl e, n)
                   | (Inr _, n) \<Rightarrow>
                       let n = bp_write_meta n (bp_count n) key_start (length key)
                       in (Inr (), n\<lparr>bp_count := bp_count n + 1\<rparr>))"

definition append_leaf_entry :: "BPNode \<Rightarrow> bytes \<Rightarrow> u64 \<Rightarrow> unit result \<times> BPNode" where
  "append_leaf_entry n key child = append_entry n key (store_u48 child) LEAF_CHILD_BYTES"

definition append_inner_entry :: "BPNode \<Rightarrow> bytes \<Rightarrow> u32 \<Rightarrow> unit result \<times> BPNode" where
  "append_inner_entry n key child = append_entry n key (store_u32 (ucast child)) 4"

definition append_entry_for_level :: "BPNode \<Rightarrow> nat \<Rightarrow> bytes \<Rightarrow> ChildPointer \<Rightarrow> unit result \<times> BPNode" where
  "append_entry_for_level n level key child =
    (if level = 1 then
       (case as_leaf child of Inl e \<Rightarrow> (Inl e, n) | Inr page \<Rightarrow> append_leaf_entry n key page)
     else
       (case as_inner child of Inl e \<Rightarrow> (Inl e, n) | Inr node \<Rightarrow> append_inner_entry n key node))"

definition reset_for_level :: "BPNode \<Rightarrow> nat \<Rightarrow> ChildPointer \<Rightarrow> unit result \<times> BPNode" where
  "reset_for_level n level lowest_child =
    (if level = 1 then
       (case as_leaf lowest_child of Inl e \<Rightarrow> (Inl e, n) | Inr page \<Rightarrow> (Inr (), reset_leaf_parent n page))
     else
       (case as_inner lowest_child of Inl e \<Rightarrow> (Inl e, n) | Inr node \<Rightarrow> (Inr (), reset_inner_parent n node)))"

fun append_all :: "BPNode \<Rightarrow> nat \<Rightarrow> (bytes \<times> ChildPointer) list \<Rightarrow> unit result \<times> BPNode" where
  "append_all n level [] = (Inr (), n)"
| "append_all n level ((key, child) # entries) =
    (case append_entry_for_level n level key child of
       (Inl e, n) \<Rightarrow> (Inl e, n)
     | (Inr _, n) \<Rightarrow> append_all n level entries)"

text \<open>The loops that copy the entries of a node into a vector.\<close>

fun collect_entries :: "BPNode \<Rightarrow> nat \<Rightarrow> nat list \<Rightarrow> (bytes \<times> ChildPointer) list result" where
  "collect_entries n level [] = Inr []"
| "collect_entries n level (idx # idxs) =
    (case bp_get_key n idx of
       Inl e \<Rightarrow> Inl e
     | Inr key \<Rightarrow>
         case collect_entries n level idxs of
           Inl e \<Rightarrow> Inl e
         | Inr es \<Rightarrow> Inr ((key, get_child_for_level n idx level) # es))"

text \<open>\<open>iter().position\<close>.\<close>

fun position :: "('a \<Rightarrow> bool) \<Rightarrow> 'a list \<Rightarrow> nat option" where
  "position P [] = None"
| "position P (x # xs) = (if P x then Some 0 else map_option Suc (position P xs))"

text \<open>Where the pivot of a split child goes: behind the entry of the child, or in front of all.\<close>

definition insert_index :: "ChildPointer \<Rightarrow> (bytes \<times> ChildPointer) list \<Rightarrow> ChildPointer \<Rightarrow> nat result" where
  "insert_index lowest_child entries left_child =
    (if left_child = lowest_child then Inr 0
     else
       case position (\<lambda>(_, child). child = left_child) entries of
         None \<Rightarrow> Inl (QSErr ParentChildMissing)
       | Some pos \<Rightarrow> Inr (pos + 1))"

definition vec_insert :: "nat \<Rightarrow> 'a \<Rightarrow> 'a list \<Rightarrow> 'a list" where
  "vec_insert i x xs = take i xs @ x # drop i xs"

definition vec_remove :: "nat \<Rightarrow> 'a list \<Rightarrow> 'a list" where
  "vec_remove i xs = take i xs @ drop (i + 1) xs"

definition insert_entry_after_child ::
    "BPNode \<Rightarrow> nat \<Rightarrow> ChildPointer \<Rightarrow> bytes \<Rightarrow> ChildPointer \<Rightarrow> unit result \<times> BPNode" where
  "insert_entry_after_child n level left_child pivot right_child =
    (let lowest_child = lowest_child_for_level n level in
     case collect_entries n level [0..<bp_count n] of
       Inl e \<Rightarrow> (Inl e, n)
     | Inr entries \<Rightarrow>
         case insert_index lowest_child entries left_child of
           Inl e \<Rightarrow> (Inl e, n)
         | Inr insert_idx \<Rightarrow>
             let entries = vec_insert insert_idx (pivot, right_child) entries in
             case reset_for_level n level lowest_child of
               (Inl e, n) \<Rightarrow> (Inl e, n)
             | (Inr _, n) \<Rightarrow> append_all n level entries)"

definition insert_leaf_entry_after_child :: "BPNode \<Rightarrow> u64 \<Rightarrow> bytes \<Rightarrow> u64 \<Rightarrow> unit result \<times> BPNode" where
  "insert_leaf_entry_after_child n left_child pivot right_child =
    insert_entry_after_child n 1 (ChildLeaf left_child) pivot (ChildLeaf right_child)"

definition remove_entry_for_merge ::
    "BPNode \<Rightarrow> nat \<Rightarrow> ChildPointer \<Rightarrow> ChildPointer \<Rightarrow> ChildPointer option result \<times> BPNode" where
  "remove_entry_for_merge n level survivor removed =
    (case collect_entries n level [0..<bp_count n] of
       Inl e \<Rightarrow> (Inl e, n)
     | Inr entries \<Rightarrow>
         let children = lowest_child_for_level n level # map snd entries;
             pivots = map fst entries
         in
           case (position (\<lambda>child. child = survivor) children, position (\<lambda>child. child = removed) children) of
             (Some survivor_idx, Some removed_idx) \<Rightarrow>
               if removed_idx \<noteq> survivor_idx + 1 then (Inl (QSErr ParentChildMissing), n)
               else
                 let children = vec_remove removed_idx children;
                     pivots = vec_remove (removed_idx - 1) pivots
                 in
                   (case reset_for_level n level (hd children) of
                      (Inl e, n) \<Rightarrow> (Inl e, n)
                    | (Inr _, n) \<Rightarrow>
                        case append_all n level (zip pivots (tl children)) of
                          (Inl e, n) \<Rightarrow> (Inl e, n)
                        | (Inr _, n) \<Rightarrow> (Inr (if pivots = [] then Some (hd children) else None), n))
           | _ \<Rightarrow> (Inl (QSErr ParentChildMissing), n))"

definition init_leaf_parent :: "BPNode \<Rightarrow> u64 \<Rightarrow> u64 \<Rightarrow> bytes \<Rightarrow> unit result \<times> BPNode" where
  "init_leaf_parent n left_child right_child pivot =
    (if MAX_KEY_LENGTH < length pivot then (Inl (QSErr KeyTooLarge), n)
     else
       let n = n\<lparr>bp_count := 0, alloc_idx := INLINE_BUFFER_LEN - 1, lowest := left_child\<rparr>;
           total = length pivot + LEAF_CHILD_BYTES
       in
         if INLINE_BUFFER_LEN < total + 4 \<or> alloc_idx n < total then (Inl (QSErr KeyTooLarge), n)
         else
           let n = n\<lparr>alloc_idx := alloc_idx n - total\<rparr>;
               key_start = alloc_idx n + 1;
               child_start = key_start + length pivot
           in
             case copy_from_slice n key_start (key_start + length pivot) pivot of
               (Inl e, n) \<Rightarrow> (Inl e, n)
             | (Inr _, n) \<Rightarrow>
                 case copy_from_slice n child_start (child_start + LEAF_CHILD_BYTES) (store_u48 right_child) of
                   (Inl e, n) \<Rightarrow> (Inl e, n)
                 | (Inr _, n) \<Rightarrow> (Inr (), (bp_write_meta n 0 key_start (length pivot))\<lparr>bp_count := 1\<rparr>))"

section \<open>Search\<close>

text \<open>The loop of \<open>binary_search\<close>, and the largest index whose key is not greater.\<close>

function bp_search_loop :: "BPNode \<Rightarrow> bytes \<Rightarrow> nat \<Rightarrow> nat \<Rightarrow> nat result" where
  "bp_search_loop n key low high =
    (if low < high then
       let mid = low + (high - low) div 2 in
       case bp_get_key n mid of
         Inl e \<Rightarrow> Inl e
       | Inr mid_key \<Rightarrow>
           if mid_key \<le> key then bp_search_loop n key (mid + 1) high
           else bp_search_loop n key low mid
     else Inr low)"
  by pat_completeness auto
termination
  by (relation "measure (\<lambda>(n, key, low, high). high - low)") auto

declare bp_search_loop.simps [simp del]

definition bp_binary_search :: "BPNode \<Rightarrow> bytes \<Rightarrow> nat result" where
  "bp_binary_search n key =
    (case bp_search_loop n key 0 (bp_count n) of Inl e \<Rightarrow> Inl e | Inr low \<Rightarrow> Inr (low - 1))"

definition search_for_leaf :: "BPNode \<Rightarrow> bytes \<Rightarrow> u64 result" where
  "search_for_leaf n key =
    (case bp_binary_search n key of
       Inl e \<Rightarrow> Inl e
     | Inr idx \<Rightarrow>
         case bp_get_key n idx of
           Inl e \<Rightarrow> Inl e
         | Inr pivot \<Rightarrow> Inr (if key < pivot then lowest n else get_leaf_child n idx))"

definition search_for_inner :: "BPNode \<Rightarrow> bytes \<Rightarrow> u32 result" where
  "search_for_inner n key =
    (case bp_binary_search n key of
       Inl e \<Rightarrow> Inl e
     | Inr idx \<Rightarrow>
         case bp_get_key n idx of
           Inl e \<Rightarrow> Inl e
         | Inr pivot \<Rightarrow> Inr (if key < pivot then ucast (lowest n) else get_inner_child n idx))"

section \<open>Well-formed parents of leaves\<close>

definition bp_free :: "BPNode \<Rightarrow> nat" where
  "bp_free n = alloc_idx n + 1 - 4 * bp_count n"

definition bp_wf :: "BPNode \<Rightarrow> bool" where
  "bp_wf n \<longleftrightarrow> length (rest n) = 4072 \<and> alloc_idx n \<le> 4071 \<and> 4 * bp_count n \<le> alloc_idx n + 1 \<and>
    (\<forall>i < bp_count n. alloc_idx n + 1 \<le> fst (bp_get_meta n i) \<and>
      fst (bp_get_meta n i) + snd (bp_get_meta n i) + 6 \<le> 4072)"

definition node_key :: "BPNode \<Rightarrow> nat \<Rightarrow> bytes" where
  "node_key n i = read_at (rest n) (fst (bp_get_meta n i)) (snd (bp_get_meta n i))"

definition leaf_entries :: "BPNode \<Rightarrow> (bytes \<times> u64) list" where
  "leaf_entries n = map (\<lambda>i. (node_key n i, get_leaf_child n i)) [0..<bp_count n]"

lemma extract_u48_read_at: "extract_u48 (drop k r) = extract_u48 (read_at r k 6)"
  by (simp add: extract_u48_def read_at_def)

lemma get_leaf_child_eq:
  "get_leaf_child n i = extract_u48 (read_at (rest n) (fst (bp_get_meta n i) + snd (bp_get_meta n i)) 6)"
  by (simp add: get_leaf_child_def split_beta extract_u48_read_at)

lemma bp_get_key_wf: "bp_wf n \<Longrightarrow> i < bp_count n \<Longrightarrow> bp_get_key n i = Inr (node_key n i)"
  by (auto simp: bp_wf_def bp_get_key_def node_key_def split_beta Let_def)

lemma space_left_free:
  "space_left n = (if alloc_idx n < 4 * bp_count n then Inl (Panic PanicOverflow) else Inr (bp_free n))"
  by (simp add: space_left_def bp_free_def Let_def Suc_diff_le)

text \<open>The buffer after an entry was added: key and child at the back, metadata at the front.\<close>

lemma append_rest:
  fixes r :: bytes
  assumes len: "length r = 4072" and cl: "length child = 6" and a: "a + length key + 6 \<le> 4071"
    and m: "4 * c + 4 \<le> a + 1"
  defines "r' \<equiv> write_at (write_at (write_at r (a + 1) key) (a + 1 + length key) child) (4 * c)
    (u16_to_le_bytes (word_of_nat (a + 1)) @ u16_to_le_bytes (word_of_nat (length key)))"
  shows "length r' = 4072" "read_at r' (a + 1) (length key) = key" "read_at r' (a + 1 + length key) 6 = child"
    "read_at r' (4 * c) 2 = u16_to_le_bytes (word_of_nat (a + 1))"
    "read_at r' (4 * c + 2) 2 = u16_to_le_bytes (word_of_nat (length key))"
    "i + k \<le> 4 * c \<Longrightarrow> read_at r' i k = read_at r i k"
    "a + 1 + length key + 6 \<le> i \<Longrightarrow> i + k \<le> 4072 \<Longrightarrow> read_at r' i k = read_at r i k"
proof -
  let ?m = "u16_to_le_bytes (word_of_nat (a + 1)) @ u16_to_le_bytes (word_of_nat (length key))"
  let ?r1 = "write_at r (a + 1) key"
  let ?r2 = "write_at ?r1 (a + 1 + length key) child"
  have l1: "length ?r1 = 4072" using len a by simp
  have l2: "length ?r2 = 4072" using l1 a cl by simp
  have lm: "length ?m = 4" by simp
  show "length r' = 4072" using l2 m a by (simp add: r'_def)
  have r2: "read_at r' i k = read_at ?r2 i k" if "4 * c + 4 \<le> i \<or> i + k \<le> 4 * c" "i + k \<le> 4072" for i k
    unfolding r'_def using that l2 lm m a by (intro read_write_disjoint) auto
  show "read_at r' (a + 1) (length key) = key"
    using r2[of "a + 1" "length key"] m a l1 len cl by (simp add: read_write_disjoint read_write_same)
  show "read_at r' (a + 1 + length key) 6 = child"
    using r2[of "a + 1 + length key" 6] m a l1 len cl by (simp add: read_write_same)
  have mm: "read_at r' (4 * c + j) k = read_at ?m j k" if "j + k \<le> 4" for j k
    unfolding r'_def using that l2 lm m a by (subst read_write_within) auto
  show "read_at r' (4 * c) 2 = u16_to_le_bytes (word_of_nat (a + 1))"
    using mm[of 0 2] by (simp add: read_at_def)
  show "read_at r' (4 * c + 2) 2 = u16_to_le_bytes (word_of_nat (length key))"
    using mm[of 2 2] by (simp add: read_at_def)
  show "read_at r' i k = read_at r i k" if "i + k \<le> 4 * c"
    using r2[of i k] that m a l1 len cl by (simp add: read_write_disjoint)
  show "read_at r' i k = read_at r i k" if "a + 1 + length key + 6 \<le> i" "i + k \<le> 4072"
    using r2[of i k] that m a l1 len cl by (simp add: read_write_disjoint)
qed

lemma u16_nat_roundtrip: "x < 65536 \<Longrightarrow> unat (u16_from_le_bytes (u16_to_le_bytes (word_of_nat x))) = x"
  by (simp add: unat_of_nat)

lemma append_leaf_entry_spec:
  assumes wf: "bp_wf n" and key: "length key \<le> 64" and fits: "length key + 10 \<le> bp_free n"
  obtains n' where "append_leaf_entry n key c = (Inr (), n')" "bp_wf n'"
    "leaf_entries n' = leaf_entries n @ [(key, take_bit 48 c)]" "bp_free n' = bp_free n - (length key + 10)"
    "lowest n' = lowest n" "vlock n' = vlock n"
proof -
  let ?c = "bp_count n" and ?a = "alloc_idx n - (length key + 6)"
  define r' where "r' = write_at (write_at (write_at (rest n) (?a + 1) key) (?a + 1 + length key) (store_u48 c)) (4 * ?c)
    (u16_to_le_bytes (word_of_nat (?a + 1)) @ u16_to_le_bytes (word_of_nat (length key)))"
  define n' where "n' = n\<lparr>alloc_idx := ?a, rest := r', bp_count := ?c + 1\<rparr>"
  have n': "rest n' = r'" "bp_count n' = Suc ?c" "alloc_idx n' = ?a" by (simp_all add: n'_def)
  have W: "length (rest n) = 4072" "alloc_idx n \<le> 4071" "4 * ?c \<le> alloc_idx n + 1"
    using wf by (simp_all add: bp_wf_def)
  have a: "?a + length key + 6 \<le> 4071" "4 * ?c + 4 \<le> ?a + 1" "?a + length key + 6 = alloc_idx n"
    using fits W by (auto simp: bp_free_def)
  note R = append_rest[OF W(1) length_store_u48[of c] a(1,2), folded r'_def]
  have "append_leaf_entry n key c = (Inr (), n')"
  proof -
    have "\<not> alloc_idx n < 4 * ?c" "\<not> bp_free n < length key + 6 + 4" "\<not> alloc_idx n < length key + 6"
      using fits W a by (auto simp: bp_free_def)
    moreover have "length (write_at (rest n) (?a + 1) key) = 4072" using W(1) a by simp
    ultimately show ?thesis using key W(1) a(1)
      by (simp add: append_leaf_entry_def append_entry_def space_left_free MAX_KEY_LENGTH_def LEAF_CHILD_BYTES_def
          copy_from_slice_def bp_write_meta_def n'_def r'_def Let_def)
  qed
  moreover have old: "bp_get_meta n' i = bp_get_meta n i" if "i < ?c" for i
    using R(6)[of "4 * i" 2] R(6)[of "4 * i + 2" 2] that by (simp add: bp_get_meta_def n'_def)
  moreover have new: "bp_get_meta n' ?c = (?a + 1, length key)"
  proof -
    have "?a + 1 < 65536" "length key < 65536" "rest n' = r'" using a(1) key by (simp_all add: n'_def)
    then show ?thesis by (simp only: bp_get_meta_def R(4,5) u16_nat_roundtrip)
  qed
  moreover have "bp_wf n'"
    unfolding bp_wf_def
  proof (intro conjI allI impI)
    fix i assume "i < bp_count n'"
    then have "i < ?c \<or> i = ?c" by (auto simp: n'_def)
    then have "alloc_idx n' + 1 \<le> fst (bp_get_meta n' i) \<and> fst (bp_get_meta n' i) + snd (bp_get_meta n' i) + 6 \<le> 4072"
      using wf old new a by (auto simp: bp_wf_def n'_def)
    then show "alloc_idx n' + 1 \<le> fst (bp_get_meta n' i)"
      "fst (bp_get_meta n' i) + snd (bp_get_meta n' i) + 6 \<le> 4072" by blast+
  qed (use R(1) a in \<open>auto simp: n'_def\<close>)
  moreover have "leaf_entries n' = leaf_entries n @ [(key, take_bit 48 c)]"
  proof -
    have "node_key n' i = node_key n i \<and> get_leaf_child n' i = get_leaf_child n i" if "i < ?c" for i
    proof -
      have b: "alloc_idx n + 1 \<le> fst (bp_get_meta n i)" "fst (bp_get_meta n i) + snd (bp_get_meta n i) + 6 \<le> 4072"
        using wf that by (auto simp: bp_wf_def)
      then show ?thesis using a(3)
        by (simp add: node_key_def get_leaf_child_eq old[OF that] n'(1) R(7))
    qed
    moreover have "node_key n' ?c = key" by (simp only: node_key_def new fst_conv snd_conv n'(1) R(2))
    moreover have "get_leaf_child n' ?c = take_bit 48 c"
      using extract_store_u48[of c "[]"] by (simp only: get_leaf_child_eq new fst_conv snd_conv n'(1) R(3) append_Nil2)
    ultimately show ?thesis by (simp add: leaf_entries_def n'(2))
  qed
  moreover have "bp_free n' = bp_free n - (length key + 10)"
    using fits a by (simp add: bp_free_def n'_def)
  ultimately show thesis using that[of n'] by (simp add: n'_def)
qed

lemma length_leaf_entries [simp]: "length (leaf_entries n) = bp_count n"
  by (simp add: leaf_entries_def)

lemma nth_leaf_entries: "i < bp_count n \<Longrightarrow> leaf_entries n ! i = (node_key n i, get_leaf_child n i)"
  by (simp add: leaf_entries_def)

section \<open>Search\<close>

lemma sorted_node_keys:
  assumes "key_sorted (leaf_entries n)" "i < j" "j < bp_count n"
  shows "node_key n i < node_key n j"
  using sorted_wrt_nth_less[OF assms(1), of i j] assms(2,3) by (simp add: nth_leaf_entries)

lemma bp_search_loop_spec:
  assumes wf: "bp_wf n" and sorted: "key_sorted (leaf_entries n)"
  shows "low \<le> high \<Longrightarrow> high \<le> bp_count n \<Longrightarrow> \<forall>i < low. node_key n i \<le> key \<Longrightarrow>
    \<forall>i. high \<le> i \<and> i < bp_count n \<longrightarrow> key < node_key n i \<Longrightarrow>
    \<exists>c \<le> bp_count n. bp_search_loop n key low high = Inr c \<and>
      (\<forall>i < c. node_key n i \<le> key) \<and> (\<forall>i. c \<le> i \<and> i < bp_count n \<longrightarrow> key < node_key n i)"
proof (induction "high - low" arbitrary: low high rule: less_induct)
  case less
  show ?case
  proof (cases "low < high")
    case False
    with less.prems show ?thesis by (subst bp_search_loop.simps) auto
  next
    case True
    define mid where "mid = low + (high - low) div 2"
    have mid: "low \<le> mid" "mid < high" using True by (auto simp: mid_def)
    have step: "bp_search_loop n key low high =
      (if node_key n mid \<le> key then bp_search_loop n key (mid + 1) high else bp_search_loop n key low mid)"
      using True mid less.prems(2) bp_get_key_wf[OF wf, of mid]
      by (subst bp_search_loop.simps) (simp add: mid_def [symmetric])
    show ?thesis
    proof (cases "node_key n mid \<le> key")
      case le: True
      have "\<forall>i < mid + 1. node_key n i \<le> key"
        using le sorted_node_keys[OF sorted, of _ mid] mid less.prems(2)
        by (metis less_imp_le less_le_trans less_Suc_eq Suc_eq_plus1 order_trans)
      with less.hyps[of high "mid + 1"] mid less.prems step le show ?thesis by auto
    next
      case gt: False
      have "\<forall>i. mid \<le> i \<and> i < bp_count n \<longrightarrow> key < node_key n i"
        using gt sorted_node_keys[OF sorted, of mid]
        by (metis le_neq_implies_less less_trans not_le)
      with less.hyps[of mid low] mid less.prems step gt show ?thesis by auto
    qed
  qed
qed

text \<open>The number of pivots that are not greater than a key selects the child.\<close>

definition child_index :: "(bytes \<times> u64) list \<Rightarrow> bytes \<Rightarrow> nat" where
  "child_index es key = length (filter (\<lambda>(p, _). p \<le> key) es)"

definition node_children :: "BPNode \<Rightarrow> u64 list" where
  "node_children n = lowest n # map snd (leaf_entries n)"

lemma filter_upt_less: "c \<le> m \<Longrightarrow> filter (\<lambda>i. i < c) [0..<m] = [0..<c]"
proof -
  assume "c \<le> m"
  then have "[0..<m] = [0..<c] @ [c..<m]" by (metis le_add_diff_inverse plus_nat.add_0 upt_add_eq_append zero_le)
  then show ?thesis by simp
qed

lemma child_index_eq:
  assumes "c \<le> bp_count n" "\<forall>i < c. node_key n i \<le> key"
    "\<forall>i. c \<le> i \<and> i < bp_count n \<longrightarrow> key < node_key n i"
  shows "child_index (leaf_entries n) key = c"
proof -
  have "filter (\<lambda>i. node_key n i \<le> key) [0..<bp_count n] = filter (\<lambda>i. i < c) [0..<bp_count n]"
    using assms(2,3) by (intro filter_cong) (auto simp: not_le [symmetric])
  then show ?thesis
    using assms(1) by (simp add: child_index_def leaf_entries_def filter_map o_def filter_upt_less)
qed

lemma search_for_leaf_spec:
  assumes wf: "bp_wf n" and sorted: "key_sorted (leaf_entries n)" and ne: "0 < bp_count n"
  shows "search_for_leaf n key = Inr (node_children n ! child_index (leaf_entries n) key)"
proof -
  have "\<forall>i < 0. node_key n i \<le> key" "\<forall>i. bp_count n \<le> i \<and> i < bp_count n \<longrightarrow> key < node_key n i"
    by auto
  note loop = bp_search_loop_spec[OF wf sorted le0 le_refl this]
  obtain c where c: "c \<le> bp_count n" "bp_search_loop n key 0 (bp_count n) = Inr c"
    "\<forall>i < c. node_key n i \<le> key" "\<forall>i. c \<le> i \<and> i < bp_count n \<longrightarrow> key < node_key n i"
    using loop by blast
  have idx: "child_index (leaf_entries n) key = c" by (rule child_index_eq[OF c(1,3,4)])
  have "c - 1 < bp_count n" using c(1) ne by linarith
  then have "search_for_leaf n key = Inr (if key < node_key n (c - 1) then lowest n else get_leaf_child n (c - 1))"
    by (simp add: search_for_leaf_def bp_binary_search_def c(2) bp_get_key_wf[OF wf])
  also have "key < node_key n (c - 1) \<longleftrightarrow> c = 0"
  proof (cases c)
    case 0
    with c(4) ne show ?thesis by simp
  next
    case (Suc d)
    with c(3) show ?thesis by (simp add: not_less)
  qed
  finally show ?thesis
    using c(1) by (cases c) (simp_all add: idx node_children_def nth_leaf_entries)
qed

section \<open>Rebuilding a node\<close>

lemma bit_of_le_bytes: "bit (of_le_bytes bs :: 'a::len word) i \<Longrightarrow> i < 8 * length bs"
proof (induction bs arbitrary: i)
  case (Cons b bs)
  from Cons.prems have "bit b i \<or> 8 \<le> i \<and> bit (of_le_bytes bs :: 'a word) (i - 8)"
    by (auto simp: bit_simps)
  then show ?case
  proof
    assume "bit b i"
    then have "i < 8" using bit_imp_le_length[of b i] by simp
    then show ?thesis by simp
  next
    assume "8 \<le> i \<and> bit (of_le_bytes bs :: 'a word) (i - 8)"
    with Cons.IH[of "i - 8"] show ?thesis by auto
  qed
qed simp

lemma take_bit_extract_u48:
  assumes "6 \<le> length bs" shows "take_bit 48 (extract_u48 bs) = extract_u48 bs"
proof -
  have "write_at (replicate 8 0) 2 (take 6 bs) = [0, 0] @ take 6 bs"
    using assms by (simp add: write_at_def numeral_2_eq_2)
  then have e: "extract_u48 bs = of_le_bytes (rev (take 6 bs))"
    by (simp add: extract_u48_def of_be_bytes_def of_le_bytes_append_zero)
  show ?thesis
  proof (rule bit_word_eqI)
    fix i
    have "bit (extract_u48 bs) i \<Longrightarrow> i < 48"
      using bit_of_le_bytes[of "rev (take 6 bs)" i] assms by (simp add: e)
    then show "bit (take_bit 48 (extract_u48 bs)) i = bit (extract_u48 bs) i" by (auto simp: bit_take_bit_iff)
  qed
qed

definition entries_size :: "(bytes \<times> u64) list \<Rightarrow> nat" where
  "entries_size es = sum_list (map (\<lambda>(k, _). length k + 10) es)"

text \<open>Keys within the limit and page identifiers of 48 bits.\<close>

definition entry_ok :: "bytes \<times> u64 \<Rightarrow> bool" where
  "entry_ok e \<longleftrightarrow> length (fst e) \<le> 64 \<and> take_bit 48 (snd e) = snd e"

definition leaf_ptr :: "bytes \<times> u64 \<Rightarrow> bytes \<times> ChildPointer" where
  "leaf_ptr e = (fst e, ChildLeaf (snd e))"

lemma leaf_ptr_pair [simp]: "leaf_ptr (k, c) = (k, ChildLeaf c)"
  by (simp add: leaf_ptr_def)

lemma entries_size_simps [simp]:
  "entries_size [] = 0" "entries_size (e # es) = length (fst e) + 10 + entries_size es"
  "entries_size (xs @ ys) = entries_size xs + entries_size ys"
  by (simp_all add: entries_size_def split_beta)

lemma append_all_fits:
  assumes "bp_wf n" and "\<forall>e \<in> set es. entry_ok e" and "entries_size es \<le> bp_free n"
  shows "\<exists>n'. append_all n 1 (map leaf_ptr es) = (Inr (), n') \<and> bp_wf n' \<and>
    leaf_entries n' = leaf_entries n @ es \<and> lowest n' = lowest n \<and> vlock n' = vlock n"
  using assms
proof (induction es arbitrary: n)
  case (Cons e es)
  obtain k c where e: "e = (k, c)" by (cases e)
  have k: "length k \<le> 64" "take_bit 48 c = c" using Cons.prems(2) e by (simp_all add: entry_ok_def)
  have "length k + 10 \<le> bp_free n" using Cons.prems(3) e by simp
  then obtain m where m: "append_leaf_entry n k c = (Inr (), m)" "bp_wf m"
    "leaf_entries m = leaf_entries n @ [(k, take_bit 48 c)]" "bp_free m = bp_free n - (length k + 10)"
    "lowest m = lowest n" "vlock m = vlock n"
    by (rule append_leaf_entry_spec[OF Cons.prems(1) k(1)])
  have "entries_size es \<le> bp_free m" using Cons.prems(3) e m(4) by simp
  from Cons.IH[OF m(2) _ this] Cons.prems(2) m k(2) e show ?case
    by (auto simp: append_entry_for_level_def)
qed simp

lemma append_leaf_entry_full:
  assumes "length k \<le> 64" "bp_free n < length k + 10"
  shows "append_leaf_entry n k c =
    (Inl (if alloc_idx n < 4 * bp_count n then Panic PanicOverflow else QSErr NodeFull), n)"
  using assms
  by (auto simp: append_leaf_entry_def append_entry_def MAX_KEY_LENGTH_def LEAF_CHILD_BYTES_def
      space_left_free bp_free_def Let_def)

lemma append_all_overflow:
  assumes "bp_wf n" and "\<forall>e \<in> set es. entry_ok e" and "bp_free n < entries_size es"
  shows "\<exists>n' f k. append_all n 1 (map leaf_ptr es) = (Inl f, n') \<and> f \<in> {QSErr NodeFull, Panic PanicOverflow} \<and>
    k < length es \<and> leaf_entries n' = leaf_entries n @ take k es \<and> lowest n' = lowest n"
  using assms
proof (induction es arbitrary: n)
  case (Cons e es)
  obtain k c where e: "e = (k, c)" by (cases e)
  have k: "length k \<le> 64" "take_bit 48 c = c" using Cons.prems(2) e by (simp_all add: entry_ok_def)
  show ?case
  proof (cases "length k + 10 \<le> bp_free n")
    case False
    then have "append_all n 1 (map leaf_ptr (e # es)) =
        (Inl (if alloc_idx n < 4 * bp_count n then Panic PanicOverflow else QSErr NodeFull), n)"
      using append_leaf_entry_full[OF k(1), of n c] e by (simp add: leaf_ptr_def append_entry_for_level_def)
    then show ?thesis by (intro exI[of _ n] exI[of _ "if alloc_idx n < 4 * bp_count n then Panic PanicOverflow else QSErr NodeFull"] exI[of _ 0]) auto
  next
    case True
    then obtain m where m: "append_leaf_entry n k c = (Inr (), m)" "bp_wf m"
      "leaf_entries m = leaf_entries n @ [(k, take_bit 48 c)]" "bp_free m = bp_free n - (length k + 10)"
      "lowest m = lowest n"
      by (rule append_leaf_entry_spec[OF Cons.prems(1) k(1)])
    have "bp_free m < entries_size es" using Cons.prems(3) e m(4) True by simp
    from Cons.IH[OF m(2) _ this] Cons.prems(2)
    obtain n' f j where "append_all m 1 (map leaf_ptr es) = (Inl f, n')" "f \<in> {QSErr NodeFull, Panic PanicOverflow}"
      "j < length es" "leaf_entries n' = leaf_entries m @ take j es" "lowest n' = lowest m" by auto
    with m k(2) e show ?thesis
      by (intro exI[of _ n'] exI[of _ f] exI[of _ "Suc j"]) (auto simp: append_entry_for_level_def)
  qed
qed simp

lemma reset_leaf_parent_spec:
  "length (rest n) = 4072 \<Longrightarrow> bp_wf (reset_leaf_parent n l) \<and> leaf_entries (reset_leaf_parent n l) = [] \<and>
    bp_free (reset_leaf_parent n l) = 4072 \<and> lowest (reset_leaf_parent n l) = l \<and> vlock (reset_leaf_parent n l) = vlock n"
  by (simp add: reset_leaf_parent_def bp_wf_def leaf_entries_def bp_free_def INLINE_BUFFER_LEN_def)

lemma collect_leaf_entries:
  assumes "bp_wf n"
  shows "collect_entries n 1 [0..<bp_count n] = Inr (map leaf_ptr (leaf_entries n))"
proof -
  have "collect_entries n 1 is = Inr (map leaf_ptr (map (\<lambda>i. (node_key n i, get_leaf_child n i)) is))"
    if "\<forall>i \<in> set is. i < bp_count n" for "is"
    using that by (induction "is") (simp_all add: bp_get_key_wf[OF assms] get_child_for_level_def leaf_ptr_def)
  then show ?thesis by (simp add: leaf_entries_def)
qed

lemma position_Some: "position P xs = Some i \<Longrightarrow> i < length xs \<and> P (xs ! i)"
  by (induction xs arbitrary: i) (auto split: if_splits)

lemma position_None: "position P xs = None \<longleftrightarrow> (\<forall>x \<in> set xs. \<not> P x)"
  by (induction xs) auto

lemma insert_index_spec:
  assumes "l \<in> set (lo # map snd es)"
  obtains i where "insert_index (ChildLeaf lo) (map leaf_ptr es) (ChildLeaf l) = Inr i" "i \<le> length es"
    "(lo # map snd es) ! i = l"
proof (cases "l = lo")
  case True
  then show thesis by (intro that[of 0]) (simp_all add: insert_index_def)
next
  case False
  have "\<exists>x \<in> set (map leaf_ptr es). snd x = ChildLeaf l" using assms False by (auto simp: leaf_ptr_def)
  then obtain i where i: "position (\<lambda>(_, child). child = ChildLeaf l) (map leaf_ptr es) = Some i"
    using position_None[of "\<lambda>(_, child). child = ChildLeaf l" "map leaf_ptr es"] by (fastforce simp: split_beta)
  from position_Some[OF this] have "i < length es" "snd (es ! i) = l" by (auto simp: leaf_ptr_def split_beta)
  with i False show thesis by (intro that[of "i + 1"]) (simp_all add: insert_index_def)
qed

lemma map_vec_insert: "map f (vec_insert i x xs) = vec_insert i (f x) (map f xs)"
  by (simp add: vec_insert_def take_map drop_map)

lemma set_vec_insert: "set (vec_insert i x xs) = insert x (set xs)"
  by (metis Un_insert_right append_take_drop_id list.simps(15) set_append vec_insert_def)

lemma entries_size_vec_insert: "entries_size (vec_insert i x xs) = length (fst x) + 10 + entries_size xs"
proof -
  have "entries_size (take i xs @ drop i xs) = entries_size xs" by simp
  then show ?thesis unfolding vec_insert_def entries_size_simps(3) by simp
qed

text \<open>The insertion of a pivot up to the appends: the node is reset and the list is rebuilt.\<close>

lemma insert_entry_reduces:
  assumes wf: "bp_wf n" and l: "l \<in> set (node_children n)"
  obtains i where "i \<le> bp_count n" "node_children n ! i = l"
    "insert_entry_after_child n 1 (ChildLeaf l) pivot (ChildLeaf r) =
      append_all (reset_leaf_parent n (lowest n)) 1 (map leaf_ptr (vec_insert i (pivot, r) (leaf_entries n)))"
proof -
  obtain i where i: "insert_index (ChildLeaf (lowest n)) (map leaf_ptr (leaf_entries n)) (ChildLeaf l) = Inr i"
    "i \<le> length (leaf_entries n)" "(lowest n # map snd (leaf_entries n)) ! i = l"
    using l unfolding node_children_def by (rule insert_index_spec)
  from i(1) have "insert_entry_after_child n 1 (ChildLeaf l) pivot (ChildLeaf r) =
      append_all (reset_leaf_parent n (lowest n)) 1 (map leaf_ptr (vec_insert i (pivot, r) (leaf_entries n)))"
    by (simp add: insert_entry_after_child_def lowest_child_for_level_def collect_leaf_entries[OF wf, unfolded One_nat_def]
        reset_for_level_def map_vec_insert Let_def)
  with i(2,3) show thesis by (intro that[of i]) (simp_all add: node_children_def)
qed

section \<open>Routing\<close>

lemma child_index_sorted:
  "key_sorted es \<Longrightarrow> (\<forall>e \<in> set (take (child_index es k) es). fst e \<le> k) \<and>
    (\<forall>e \<in> set (drop (child_index es k) es). k < fst e)"
proof (induction es)
  case (Cons e es)
  show ?case
  proof (cases "fst e \<le> k")
    case True
    then have c: "child_index (e # es) k = Suc (child_index es k)" by (simp add: child_index_def split_beta)
    have "key_sorted es" using Cons.prems by simp
    from Cons.IH[OF this] True show ?thesis by (simp add: c)
  next
    case False
    then have "k < fst e" by simp
    moreover have "\<forall>x \<in> set es. fst e < fst x" using Cons.prems by simp
    ultimately have gt: "\<forall>x \<in> set (e # es). k < fst x" by (simp add: less_trans[of k "fst e"])
    then have "\<forall>x \<in> set (e # es). \<not> fst x \<le> k" by (simp add: not_le)
    then have "child_index (e # es) k = 0" by (simp add: child_index_def split_beta filter_empty_conv)
    with gt show ?thesis by simp
  qed
qed (simp add: child_index_def)

lemma child_index_le: "child_index es k \<le> length es"
  by (simp add: child_index_def)

lemma child_index_mono: "k \<le> k' \<Longrightarrow> child_index es k \<le> child_index es k'"
proof -
  assume "k \<le> k'"
  then have "filter (\<lambda>(p, _). p \<le> k) es = filter (\<lambda>(p, _). p \<le> k) (filter (\<lambda>(p, _). p \<le> k') es)"
    by (auto simp: filter_filter intro!: filter_cong)
  then show ?thesis unfolding child_index_def by (metis length_filter_le)
qed

lemma child_index_append: "child_index (xs @ ys) k = child_index xs k + child_index ys k"
  by (simp add: child_index_def)

lemma child_index_insert:
  "child_index (vec_insert i (p, r) es) k = child_index es k + (if p \<le> k then 1 else 0)"
proof -
  have "child_index es k = child_index (take i es) k + child_index (drop i es) k"
    using child_index_append[of "take i es" "drop i es" k] by simp
  moreover have "child_index ((p, r) # drop i es) k = (if p \<le> k then 1 else 0) + child_index (drop i es) k"
    by (simp add: child_index_def)
  ultimately show ?thesis by (simp add: vec_insert_def child_index_append)
qed

lemma key_sorted_insert:
  assumes "key_sorted es" "p \<notin> fst ` set es"
  shows "key_sorted (vec_insert (child_index es p) (p, r) es)"
proof -
  let ?i = "child_index es p"
  have "sorted_wrt (<) (map fst (take ?i es @ drop ?i es))" using assms(1) by simp
  moreover have "\<forall>e \<in> set (take ?i es). fst e < p" "\<forall>e \<in> set (drop ?i es). p < fst e"
    using child_index_sorted[OF assms(1), of p] assms(2)
    by (auto simp: less_le dest: in_set_takeD)
  ultimately show ?thesis
    unfolding vec_insert_def map_append sorted_wrt_append by auto
qed

lemma nth_vec_insert:
  "i \<le> length xs \<Longrightarrow> j \<le> length xs \<Longrightarrow>
    vec_insert i x xs ! j = (if j < i then xs ! j else if j = i then x else xs ! (j - 1))"
  by (auto simp: vec_insert_def nth_append nth_Cons' min_absorb2)

text \<open>The child a list of pivots gives to a key, and how it changes when a pivot is added.\<close>

definition route :: "u64 \<Rightarrow> (bytes \<times> u64) list \<Rightarrow> bytes \<Rightarrow> u64" where
  "route lo es key = (lo # map snd es) ! child_index es key"

lemma search_for_leaf_route:
  "bp_wf n \<Longrightarrow> key_sorted (leaf_entries n) \<Longrightarrow> 0 < bp_count n \<Longrightarrow>
    search_for_leaf n key = Inr (route (lowest n) (leaf_entries n) key)"
  by (simp add: search_for_leaf_spec route_def node_children_def)

lemma route_insert:
  assumes "distinct (lo # map snd es)" and "route lo es pivot = l"
  shows "route lo (vec_insert (child_index es pivot) (pivot, r) es) key =
    (if route lo es key = l \<and> pivot \<le> key then r else route lo es key)"
proof -
  let ?i = "child_index es pivot" and ?k = "child_index es key" and ?cs = "lo # map snd es"
  have b: "?i \<le> length es" "?k \<le> length es" by (rule child_index_le)+
  have "lo # map snd (vec_insert ?i (pivot, r) es) = vec_insert (?i + 1) r ?cs"
    by (simp add: vec_insert_def drop_map take_map)
  then have "route lo (vec_insert ?i (pivot, r) es) key =
      vec_insert (?i + 1) r ?cs ! (?k + (if pivot \<le> key then 1 else 0))"
    by (simp add: route_def child_index_insert)
  moreover have "?cs ! ?k = l \<longleftrightarrow> ?k = ?i"
    using nth_eq_iff_index_eq[OF assms(1), of ?k ?i] b assms(2) by (simp add: route_def)
  moreover have "pivot \<le> key \<Longrightarrow> ?i \<le> ?k" "key \<le> pivot \<Longrightarrow> ?k \<le> ?i" by (rule child_index_mono, assumption)+
  ultimately show ?thesis
    using b linear[of pivot key] by (auto simp: route_def nth_vec_insert)
qed

section \<open>Properties\<close>

text \<open>The search of a parent of leaves finds the child whose range holds the key: the pivots
  up to the child are not greater than the key and the following ones are greater.\<close>

theorem inner_search_routes:
  assumes "bp_wf n" and "key_sorted (leaf_entries n)" and "0 < bp_count n"
  shows "\<exists>i \<le> bp_count n. search_for_leaf n key = Inr (node_children n ! i) \<and>
    (\<forall>j < i. node_key n j \<le> key) \<and> (\<forall>j. i \<le> j \<and> j < bp_count n \<longrightarrow> key < node_key n j)"
proof -
  let ?i = "child_index (leaf_entries n) key" and ?es = "leaf_entries n"
  have i: "?i \<le> bp_count n" using child_index_le[of ?es key] by simp
  note S = child_index_sorted[OF assms(2), of key]
  have "node_key n j \<le> key" if "j < ?i" for j
  proof -
    have "?es ! j \<in> set (take ?i ?es)" using that i by (metis in_set_conv_nth length_leaf_entries length_take min.absorb2 nth_take)
    with S nth_leaf_entries[of j n] that i show ?thesis by auto
  qed
  moreover have "key < node_key n j" if "?i \<le> j" "j < bp_count n" for j
  proof -
    have "drop ?i ?es ! (j - ?i) = ?es ! j" using that by simp
    then have "?es ! j \<in> set (drop ?i ?es)" using that by (metis diff_less_mono length_drop length_leaf_entries nth_mem)
    with S nth_leaf_entries[OF that(2)] show ?thesis by auto
  qed
  ultimately show ?thesis using search_for_leaf_spec[OF assms, of key] i by blast
qed

text \<open>A scan of the entries from the left, the reference for the binary search.\<close>

fun linear_route :: "u64 \<Rightarrow> (bytes \<times> u64) list \<Rightarrow> bytes \<Rightarrow> u64" where
  "linear_route child [] key = child"
| "linear_route child ((pivot, right) # es) key = (if key < pivot then child else linear_route right es key)"

lemma linear_route_eq: "key_sorted es \<Longrightarrow> linear_route lo es key = route lo es key"
proof (induction es arbitrary: lo)
  case (Cons e es)
  obtain p r where e: "e = (p, r)" by (cases e)
  show ?case
  proof (cases "key < p")
    case True
    then have "child_index (e # es) key = 0"
      using Cons.prems by (fastforce simp: child_index_def e filter_empty_conv)
    with True show ?thesis by (simp add: e route_def)
  next
    case False
    then have "child_index (e # es) key = Suc (child_index es key)" by (simp add: child_index_def e)
    with False Cons.IH[of r] Cons.prems show ?thesis by (simp add: e route_def)
  qed
qed (simp add: route_def child_index_def)

text \<open>C13: The binary search of a parent of leaves over its packed entries gives, for every key, the
  child that a scan of the pivots from the left gives.\<close>

theorem inner_search_linear:
  assumes "bp_wf n" and "key_sorted (leaf_entries n)" and "0 < bp_count n"
  shows "search_for_leaf n key = Inr (linear_route (lowest n) (leaf_entries n) key)"
  by (simp only: search_for_leaf_route[OF assms] linear_route_eq[OF assms(2)])

text \<open>C14: Inserting the pivot of a split child divides the range of that child.  On a parent with room,
  whose children are distinct, the insertion succeeds, keeps the node well-formed and its pivots
  sorted, and afterwards a key that went to the split child goes to the new child from the pivot on,
  while every other key goes where it went before.\<close>

theorem insert_routes_split:
  assumes "bp_wf n" and "key_sorted (leaf_entries n)" and "distinct (node_children n)" and "0 < bp_count n"
    and "\<forall>e \<in> set ((pivot, r) # leaf_entries n). entry_ok e"
    and "node_children n ! child_index (leaf_entries n) pivot = l" and "pivot \<notin> fst ` set (leaf_entries n)"
    and "entries_size ((pivot, r) # leaf_entries n) \<le> 4072"
  shows "\<exists>n'. insert_entry_after_child n 1 (ChildLeaf l) pivot (ChildLeaf r) = (Inr (), n') \<and>
    bp_wf n' \<and> key_sorted (leaf_entries n') \<and> bp_count n' = bp_count n + 1 \<and>
    (\<forall>key. search_for_leaf n' key =
      (if search_for_leaf n key = Inr l \<and> pivot \<le> key then Inr r else search_for_leaf n key))"
proof -
  let ?es = "leaf_entries n" and ?cs = "node_children n"
  let ?i = "child_index ?es pivot"
  have i: "?i \<le> bp_count n" using child_index_le[of ?es pivot] by simp
  have lcs: "length ?cs = bp_count n + 1" by (simp add: node_children_def)
  have "l \<in> set ?cs" using assms(6) i lcs by (metis Suc_eq_plus1 le_imp_less_Suc nth_mem)
  then obtain j where j: "j \<le> bp_count n" "?cs ! j = l"
    "insert_entry_after_child n 1 (ChildLeaf l) pivot (ChildLeaf r) =
      append_all (reset_leaf_parent n (lowest n)) 1 (map leaf_ptr (vec_insert j (pivot, r) ?es))"
    by (rule insert_entry_reduces[OF assms(1)])
  have ji: "j = ?i" using nth_eq_iff_index_eq[OF assms(3), of j ?i] j(1,2) i lcs assms(6) by simp
  let ?es' = "vec_insert ?i (pivot, r) ?es"
  have len: "length (rest n) = 4072" using assms(1) by (simp add: bp_wf_def)
  note R = reset_leaf_parent_spec[OF len, of "lowest n"]
  have "\<forall>e \<in> set ?es'. entry_ok e" "entries_size ?es' \<le> bp_free (reset_leaf_parent n (lowest n))"
    using assms(5,8) R by (simp_all add: set_vec_insert entries_size_vec_insert)
  from append_all_fits[OF _ this] R obtain n' where
    n': "append_all (reset_leaf_parent n (lowest n)) 1 (map leaf_ptr ?es') = (Inr (), n')" "bp_wf n'"
    "leaf_entries n' = ?es'" "lowest n' = lowest n" by auto
  have s': "key_sorted (leaf_entries n')" unfolding n'(3) by (rule key_sorted_insert[OF assms(2,7)])
  have "length ?es' = bp_count n + 1" using i by (simp add: vec_insert_def)
  then have cnt: "bp_count n' = bp_count n + 1" using n'(3) by (metis length_leaf_entries)
  have "search_for_leaf n' key =
      (if search_for_leaf n key = Inr l \<and> pivot \<le> key then Inr r else search_for_leaf n key)" for key
    using search_for_leaf_route[OF assms(1,2,4), of key] search_for_leaf_route[OF n'(2) s', of key] cnt
      route_insert[of "lowest n" ?es pivot l r key] assms(3,6)
    by (simp add: n'(3,4) node_children_def route_def)
  with n'(1,2) s' cnt j(3) ji show ?thesis by auto
qed

text \<open>C40: An insertion that does not fit damages the node: it reports a full node, or panics in the
  space computation when the entries fill the buffer exactly, after the node has been cut down to the
  entries that were appended before, a proper prefix of the list.\<close>

theorem full_insert_truncates:
  assumes "bp_wf n" and "l \<in> set (node_children n)"
    and "\<forall>e \<in> set ((pivot, r) # leaf_entries n). entry_ok e"
    and "4072 < entries_size ((pivot, r) # leaf_entries n)"
  shows "\<exists>n' f i k. insert_entry_after_child n 1 (ChildLeaf l) pivot (ChildLeaf r) = (Inl f, n') \<and>
    f \<in> {QSErr NodeFull, Panic PanicOverflow} \<and> k \<le> bp_count n \<and>
    leaf_entries n' = take k (vec_insert i (pivot, r) (leaf_entries n)) \<and> node_children n ! i = l"
proof -
  let ?es = "leaf_entries n"
  obtain i where i: "i \<le> bp_count n" "node_children n ! i = l"
    "insert_entry_after_child n 1 (ChildLeaf l) pivot (ChildLeaf r) =
      append_all (reset_leaf_parent n (lowest n)) 1 (map leaf_ptr (vec_insert i (pivot, r) ?es))"
    by (rule insert_entry_reduces[OF assms(1,2)])
  let ?es' = "vec_insert i (pivot, r) ?es"
  have len: "length (rest n) = 4072" using assms(1) by (simp add: bp_wf_def)
  note R = reset_leaf_parent_spec[OF len, of "lowest n"]
  have "\<forall>e \<in> set ?es'. entry_ok e" "bp_free (reset_leaf_parent n (lowest n)) < entries_size ?es'"
    using assms(3,4) R by (simp_all add: set_vec_insert entries_size_vec_insert)
  from append_all_overflow[OF _ this] R obtain n' f k where
    "append_all (reset_leaf_parent n (lowest n)) 1 (map leaf_ptr ?es') = (Inl f, n')"
    "f \<in> {QSErr NodeFull, Panic PanicOverflow}" "k < length ?es'" "leaf_entries n' = take k ?es'" by auto
  moreover have "length ?es' = bp_count n + 1" using i(1) by (simp add: vec_insert_def)
  ultimately show ?thesis using i
    by (intro exI[of _ n'] exI[of _ f] exI[of _ i] exI[of _ k]) auto
qed

section \<open>Witnesses\<close>

lemma blank_reset: "length (rest BPNode_blank) = 4072"
  by (simp add: BPNode_blank_def INLINE_BUFFER_LEN_def)

lemma node_with_entries:
  assumes "\<forall>e \<in> set es. entry_ok e" and "entries_size es \<le> 4072"
  obtains n where "bp_wf n" "leaf_entries n = es" "lowest n = lo" "bp_count n = length es"
proof -
  note R = reset_leaf_parent_spec[OF blank_reset, of lo]
  then have "bp_wf (reset_leaf_parent BPNode_blank lo)" "entries_size es \<le> bp_free (reset_leaf_parent BPNode_blank lo)"
    using assms(2) by simp_all
  from append_all_fits[OF this(1) assms(1) this(2)] R obtain n where
    "bp_wf n" "leaf_entries n = es" "lowest n = lo" by auto
  moreover from this(2) have "bp_count n = length es" by (metis length_leaf_entries)
  ultimately show thesis by (rule that)
qed

lemma small_child: "entry_ok ([5], 2)" "entry_ok ([6], 3)"
  by (simp_all add: entry_ok_def)

theorem inner_search_routes_witness:
  "\<exists>n. leaf_entries n = [([5], 2)] \<and> search_for_leaf n [7] = Inr 2"
proof -
  obtain n where n: "bp_wf n" "leaf_entries n = [([5], 2)]" "lowest n = 1" "bp_count n = length [([5] :: bytes, 2 :: u64)]"
    by (rule node_with_entries[of "[([5], 2)]" 1]) (simp_all add: small_child)
  have k: "node_key n 0 = [5]" using nth_leaf_entries[of 0 n] n(2,4) by simp
  obtain i where i: "i \<le> 1" "search_for_leaf n [7] = Inr (node_children n ! i)"
    "\<forall>j. i \<le> j \<and> j < bp_count n \<longrightarrow> [7] < node_key n j"
    using inner_search_routes[OF n(1), of "[7]"] n(2,4) by auto
  have "i = 1"
  proof (rule ccontr)
    assume "i \<noteq> 1"
    with i(1,3) n(4) have "[7] < node_key n 0" by simp
    then show False by (simp add: k)
  qed
  with i(2) n(2) show ?thesis by (auto simp: node_children_def)
qed

theorem inner_search_linear_witness:
  "\<exists>n. leaf_entries n = [([5], 2), ([6], 3)] \<and> search_for_leaf n [5, 9] = Inr 2"
proof -
  obtain n where n: "bp_wf n" "leaf_entries n = [([5], 2), ([6], 3)]" "lowest n = 1"
    "bp_count n = length [([5] :: bytes, 2 :: u64), ([6], 3)]"
    by (rule node_with_entries[of "[([5], 2), ([6], 3)]" 1]) (simp_all add: small_child)
  have "search_for_leaf n [5, 9] = Inr (linear_route (lowest n) (leaf_entries n) [5, 9])"
    by (rule inner_search_linear[OF n(1)]) (simp_all add: n(2,4))
  with n(2) show ?thesis by (intro exI[of _ n]) simp
qed

theorem insert_routes_split_witness:
  "\<exists>n n'. leaf_entries n = [([5], 2)] \<and>
    insert_entry_after_child n 1 (ChildLeaf 2) [6] (ChildLeaf 3) = (Inr (), n') \<and> bp_count n' = 2"
proof -
  obtain n where n: "bp_wf n" "leaf_entries n = [([5], 2)]" "lowest n = 1" "bp_count n = length [([5] :: bytes, 2 :: u64)]"
    by (rule node_with_entries[of "[([5], 2)]" 1]) (simp_all add: small_child)
  have "child_index (leaf_entries n) [6] = 1" by (simp add: n(2) child_index_def)
  with insert_routes_split[OF n(1), of "[6]" 3 2] n show ?thesis
    by (auto simp: small_child node_children_def)
qed

theorem full_insert_truncates_witness:
  "\<exists>n n' f. bp_count n = 58 \<and> insert_entry_after_child n 1 (ChildLeaf 2) [6, 6, 6] (ChildLeaf 3) = (Inl f, n')"
proof -
  let ?e = "(replicate 60 0, 2) :: bytes \<times> u64"
  have size: "entries_size (replicate k ?e) = 70 * k" for k by (induction k) simp_all
  have ok: "\<forall>e \<in> set (replicate 58 ?e). entry_ok e" by (simp add: entry_ok_def)
  have sz: "entries_size (replicate 58 ?e) \<le> 4072" unfolding size by simp
  obtain n where n: "bp_wf n" "leaf_entries n = replicate 58 ?e" "lowest n = 1" "bp_count n = length (replicate 58 ?e)"
    by (rule node_with_entries[OF ok sz, of 1])
  have "2 \<in> set (node_children n)" by (simp add: node_children_def n(2))
  moreover have "\<forall>e \<in> set (([6, 6, 6], 3) # leaf_entries n). entry_ok e"
    using ok by (simp add: n(2) entry_ok_def)
  moreover have "4072 < entries_size (([6, 6, 6], 3) # leaf_entries n)"
    unfolding n(2) entries_size_simps size by simp
  ultimately show ?thesis using full_insert_truncates[OF n(1), of 2 "[6, 6, 6]" 3] n(4) by auto
qed

end
