(* ===== verification/BTree.thy ===== *)
theory BTree
  imports BNode Map_Table
begin

text \<open>
  btree.rs, the tree: a slab of inner nodes, a packed root pointer with its own version lock, and
  the descent, locking and restructuring operations.  The operations are those of one thread: a
  version that was read is still there when it is checked, unless the node was locked before.  The
  protocol under interleaving is in \<open>Olc\<close>.  The two fence keys of a read result are always absent
  in the code and are left out.
\<close>

section \<open>The tree\<close>

record BPTree =
  slab :: "BPNode list"
  cap :: nat
  root :: u64
  root_vlock :: u64
  node_next_free :: nat
  node_free_list :: u32

datatype BPRootInfo = RootLeaf u64 | RootInner nat u32

datatype OpType = OpSplit | OpMerge

text \<open>
  The slab is uninitialised memory, given as an argument.  The size is computed in 32 bits; an
  allocation of no bytes is undefined.
\<close>

definition BPTree_new :: "BPNode list \<Rightarrow> nat \<Rightarrow> BPTree result" where
  "BPTree_new mem inner_node_upper_bound =
    (if 2 ^ 32 \<le> inner_node_upper_bound * 4096 then Inl (Panic PanicOverflow)
     else if inner_node_upper_bound = 0 then Inl UndefinedBehaviour
     else Inr \<lparr>slab = mem, cap = inner_node_upper_bound, root = 0, root_vlock = 0, node_next_free = 1,
       node_free_list = - 1\<rparr>)"

definition set_leaf_root :: "BPTree \<Rightarrow> u64 \<Rightarrow> BPTree" where
  "set_leaf_root t page = t\<lparr>root := page\<rparr>"

definition get_root :: "BPTree \<Rightarrow> BPRootInfo" where
  "get_root t =
    (let info = root t; level = unat (ucast (drop_bit 48 info) :: u16)
     in if level \<noteq> 0 then RootInner level (ucast info) else RootLeaf (info AND (push_bit 48 1 - 1)))"

definition root_set_inner :: "BPTree \<Rightarrow> u32 \<Rightarrow> nat \<Rightarrow> BPTree" where
  "root_set_inner t node level = t\<lparr>root := push_bit 48 (word_of_nat level) OR ucast node\<rparr>"

definition root_set_leaf :: "BPTree \<Rightarrow> u64 \<Rightarrow> BPTree" where
  "root_set_leaf t page = t\<lparr>root := page\<rparr>"

definition get_node :: "BPTree \<Rightarrow> u32 \<Rightarrow> BPNode" where
  "get_node t node = slab t ! unat node"

definition set_node :: "BPTree \<Rightarrow> u32 \<Rightarrow> BPNode \<Rightarrow> BPTree" where
  "set_node t node n = t\<lparr>slab := (slab t)[unat node := n]\<rparr>"

text \<open>\<open>fetch_add\<close> on the 32-bit counter wraps.\<close>

definition alloc_inner_node :: "BPTree \<Rightarrow> u32 result \<times> BPTree" where
  "alloc_inner_node t =
    (let idx = node_next_free t;
         t = t\<lparr>node_next_free := (idx + 1) mod 2 ^ 32\<rparr>
     in if cap t \<le> idx then (Inl (QSErr TreeFull), t)
        else (Inr (word_of_nat idx), set_node t (word_of_nat idx) BPNode_blank))"

section \<open>Version locks\<close>

definition is_locked_or_obsolete :: "u64 \<Rightarrow> bool" where
  "is_locked_or_obsolete version \<longleftrightarrow> version AND 3 \<noteq> 0"

definition read_root :: "BPTree \<Rightarrow> u64 result" where
  "read_root t = (if is_locked_or_obsolete (root_vlock t) then Inl BPRestart else Inr (root_vlock t))"

definition root_upgrade :: "BPTree \<Rightarrow> u64 \<Rightarrow> unit result \<times> BPTree" where
  "root_upgrade t version =
    (if uint version + 2 \<ge> 2 ^ 64 then (Inl (Panic PanicOverflow), t)
     else if root_vlock t = version then (Inr (), t\<lparr>root_vlock := version + 2\<rparr>)
     else (Inl BPRestart, t))"

definition root_check :: "BPTree \<Rightarrow> u64 \<Rightarrow> unit result" where
  "root_check t version = (if version = root_vlock t then Inr () else Inl BPRestart)"

definition root_unlock :: "BPTree \<Rightarrow> BPTree" where
  "root_unlock t = t\<lparr>root_vlock := root_vlock t + 2\<rparr>"

text \<open>A read guard of an inner node is its version and its index.\<close>

definition read_inner :: "BPTree \<Rightarrow> u32 \<Rightarrow> (u64 \<times> u32) result" where
  "read_inner t node_id =
    (if length (slab t) \<le> unat node_id then Inl UndefinedBehaviour
     else
       let version = vlock (get_node t node_id)
       in if is_locked_or_obsolete version then Inl BPRestart else Inr (version, node_id))"

definition inner_upgrade :: "BPTree \<Rightarrow> u64 \<times> u32 \<Rightarrow> unit result \<times> BPTree" where
  "inner_upgrade t g =
    (let (version, node) = g in
     if uint version + 2 \<ge> 2 ^ 64 then (Inl (Panic PanicOverflow), t)
     else if vlock (get_node t node) = version
       then (Inr (), set_node t node ((get_node t node)\<lparr>vlock := version + 2\<rparr>))
     else (Inl BPRestart, t))"

definition inner_check :: "BPTree \<Rightarrow> u64 \<times> u32 \<Rightarrow> unit result" where
  "inner_check t g = (let (version, node) = g in if version = vlock (get_node t node) then Inr () else Inl BPRestart)"

definition inner_unlock :: "u32 \<Rightarrow> BPTree \<Rightarrow> BPTree" where
  "inner_unlock node t = (let n = get_node t node in set_node t node (n\<lparr>vlock := vlock n + 2\<rparr>))"

definition write_inner :: "BPTree \<Rightarrow> u32 \<Rightarrow> unit result \<times> BPTree" where
  "write_inner t node_id = (case read_inner t node_id of Inl e \<Rightarrow> (Inl e, t) | Inr g \<Rightarrow> inner_upgrade t g)"

section \<open>Descent\<close>

datatype WriteLockPoint = PointRoot | PointInner "u64 \<times> u32" nat

record ReadRes =
  read_page :: u64
  overflow_point :: WriteLockPoint
  underflow_point :: WriteLockPoint

definition update_lock_points ::
    "BPTree \<Rightarrow> u64 \<times> u32 \<Rightarrow> nat \<Rightarrow> WriteLockPoint \<times> WriteLockPoint \<Rightarrow> (WriteLockPoint \<times> WriteLockPoint) result" where
  "update_lock_points t g level points =
    (let (overflow, underflow) = points; n = get_node t (snd g) in
     case can_overflow n level of
       Inl e \<Rightarrow> Inl e
     | Inr co \<Rightarrow>
         let overflow = (if \<not> co then PointInner g level else overflow) in
         case will_underflow n of
           Inl e \<Rightarrow> Inl e
         | Inr wu \<Rightarrow> Inr (overflow, if \<not> wu then PointInner g level else underflow))"

text \<open>The loop of the descent, by the level of the guarded node.\<close>

fun traverse_loop ::
    "BPTree \<Rightarrow> bytes \<Rightarrow> nat \<Rightarrow> u64 \<times> u32 \<Rightarrow> WriteLockPoint \<times> WriteLockPoint \<Rightarrow> ReadRes result" where
  "traverse_loop t key 0 g points = Inl (Panic PanicAssert)"
| "traverse_loop t key (Suc 0) g points =
    (case search_for_leaf (get_node t (snd g)) key of
       Inl e \<Rightarrow> Inl e
     | Inr leaf_cand \<Rightarrow>
         case inner_check t g of
           Inl e \<Rightarrow> Inl e
         | Inr _ \<Rightarrow> Inr \<lparr>read_page = leaf_cand, overflow_point = fst points, underflow_point = snd points\<rparr>)"
| "traverse_loop t key (Suc (Suc l)) g points =
    (case search_for_inner (get_node t (snd g)) key of
       Inl e \<Rightarrow> Inl e
     | Inr cur_node \<Rightarrow>
         case read_inner t cur_node of
           Inl e \<Rightarrow> Inl e
         | Inr cur_guard \<Rightarrow>
             case inner_check t g of
               Inl e \<Rightarrow> Inl e
             | Inr _ \<Rightarrow>
                 case update_lock_points t cur_guard (Suc l) points of
                   Inl e \<Rightarrow> Inl e
                 | Inr points \<Rightarrow> traverse_loop t key (Suc l) cur_guard points)"

definition try_read_traverse_leaf :: "BPTree \<Rightarrow> bytes \<Rightarrow> ReadRes result" where
  "try_read_traverse_leaf t key =
    (case read_root t of
       Inl e \<Rightarrow> Inl e
     | Inr root_guard \<Rightarrow>
         case get_root t of
           RootLeaf page \<Rightarrow>
             Inr \<lparr>read_page = page, overflow_point = PointRoot, underflow_point = PointRoot\<rparr>
         | RootInner level node \<Rightarrow>
             case read_inner t node of
               Inl e \<Rightarrow> Inl e
             | Inr parent_guard \<Rightarrow>
                 case root_check t root_guard of
                   Inl e \<Rightarrow> Inl e
                 | Inr _ \<Rightarrow>
                     case update_lock_points t parent_guard level (PointRoot, PointRoot) of
                       Inl e \<Rightarrow> Inl e
                     | Inr points \<Rightarrow> traverse_loop t key level parent_guard points)"

text \<open>The retries; only a restart is retried, a panic ends the call.\<close>

fun traverse_retry :: "nat \<Rightarrow> BPTree \<Rightarrow> bytes \<Rightarrow> ReadRes result" where
  "traverse_retry 0 t key = Inl (QSErr OLCRetriesExceeded)"
| "traverse_retry (Suc tries) t key =
    (case try_read_traverse_leaf t key of Inl BPRestart \<Rightarrow> traverse_retry tries t key | r \<Rightarrow> r)"

definition read_traverse_leaf :: "BPTree \<Rightarrow> bytes \<Rightarrow> ReadRes result" where
  "read_traverse_leaf t key = traverse_retry SPIN_RETRIES t key"

section \<open>Write locks\<close>

record WriteLockBundle =
  root_lock :: bool
  chain :: "(nat \<times> u32) list"

text \<open>
  The loop that locks the nodes from a locked one down to the parent of the leaves; when it fails
  the guards it holds are dropped.
\<close>

fun lock_chain ::
    "BPTree \<Rightarrow> bytes \<Rightarrow> nat \<Rightarrow> u32 \<Rightarrow> (nat \<times> u32) list \<Rightarrow> (nat \<times> u32) list result \<times> BPTree" where
  "lock_chain t key (Suc (Suc l)) node acc =
    (let held = map snd acc @ [node] in
     case search_for_inner (get_node t node) key of
       Inl e \<Rightarrow> (Inl e, fold inner_unlock held t)
     | Inr next \<Rightarrow>
         case write_inner t next of
           (Inl e, t) \<Rightarrow> (Inl e, fold inner_unlock held t)
         | (Inr _, t) \<Rightarrow> lock_chain t key (Suc l) next (acc @ [(Suc (Suc l), node)]))"
| "lock_chain t key level node acc = (Inr (acc @ [(level, node)]), t)"

definition lock_from_point :: "BPTree \<Rightarrow> WriteLockPoint \<Rightarrow> bytes \<Rightarrow> WriteLockBundle result \<times> BPTree" where
  "lock_from_point t point key =
    (case point of
       PointRoot \<Rightarrow>
         (case read_root t of
            Inl e \<Rightarrow> (Inl e, t)
          | Inr version \<Rightarrow>
              case root_upgrade t version of
                (Inl e, t) \<Rightarrow> (Inl e, t)
              | (Inr _, t) \<Rightarrow>
                  case get_root t of
                    RootLeaf _ \<Rightarrow> (Inr \<lparr>root_lock = True, chain = []\<rparr>, t)
                  | RootInner level node \<Rightarrow>
                      case write_inner t node of
                        (Inl e, t) \<Rightarrow> (Inl e, root_unlock t)
                      | (Inr _, t) \<Rightarrow>
                          case lock_chain t key level node [] of
                            (Inl e, t) \<Rightarrow> (Inl e, root_unlock t)
                          | (Inr ch, t) \<Rightarrow> (Inr \<lparr>root_lock = True, chain = ch\<rparr>, t))
     | PointInner g level \<Rightarrow>
         (case inner_upgrade t g of
            (Inl e, t) \<Rightarrow> (Inl e, t)
          | (Inr _, t) \<Rightarrow>
              case lock_chain t key level (snd g) [] of
                (Inl e, t) \<Rightarrow> (Inl e, t)
              | (Inr ch, t) \<Rightarrow> (Inr \<lparr>root_lock = False, chain = ch\<rparr>, t)))"

fun write_lock_retry :: "nat \<Rightarrow> BPTree \<Rightarrow> OpType \<Rightarrow> bytes \<Rightarrow> WriteLockBundle result \<times> BPTree" where
  "write_lock_retry 0 t op_type key = (Inl (QSErr OLCRetriesExceeded), t)"
| "write_lock_retry (Suc tries) t op_type key =
    (case try_read_traverse_leaf t key of
       Inl BPRestart \<Rightarrow> write_lock_retry tries t op_type key
     | Inl e \<Rightarrow> (Inl e, t)
     | Inr res \<Rightarrow>
         let lock_point = (case op_type of OpSplit \<Rightarrow> overflow_point res | OpMerge \<Rightarrow> underflow_point res) in
         case lock_from_point t lock_point key of
           (Inl BPRestart, t) \<Rightarrow> write_lock_retry tries t op_type key
         | r \<Rightarrow> r)"

definition write_lock :: "BPTree \<Rightarrow> WriteLockPoint \<Rightarrow> OpType \<Rightarrow> bytes \<Rightarrow> WriteLockBundle result \<times> BPTree" where
  "write_lock t point op_type key =
    (case lock_from_point t point key of
       (Inl BPRestart, t) \<Rightarrow> write_lock_retry SPIN_RETRIES t op_type key
     | r \<Rightarrow> r)"

text \<open>The drop of a bundle releases its guards.\<close>

definition bundle_drop :: "WriteLockBundle \<Rightarrow> BPTree \<Rightarrow> BPTree" where
  "bundle_drop b t =
    (let t = (if root_lock b then root_unlock t else t) in fold inner_unlock (map snd (chain b)) t)"

section \<open>Restructuring\<close>

definition promote_leaf_root :: "BPTree \<Rightarrow> u64 \<Rightarrow> u64 \<Rightarrow> bytes \<Rightarrow> unit result \<times> BPTree" where
  "promote_leaf_root t left_child right_child pivot =
    (case alloc_inner_node t of
       (Inl e, t) \<Rightarrow> (Inl e, t)
     | (Inr node_id, t) \<Rightarrow>
         case init_leaf_parent (get_node t node_id) left_child right_child pivot of
           (Inl e, n) \<Rightarrow> (Inl e, set_node t node_id n)
         | (Inr _, n) \<Rightarrow> (Inr (), root_set_inner (set_node t node_id n) node_id 1))"

definition promote_inner_root :: "BPTree \<Rightarrow> u32 \<Rightarrow> u32 \<Rightarrow> bytes \<Rightarrow> nat \<Rightarrow> unit result \<times> BPTree" where
  "promote_inner_root t left_child right_child pivot child_level =
    (let new_level = child_level + 1 in
     if 2 ^ 16 \<le> new_level then (Inl (Panic PanicOverflow), t)
     else
       case alloc_inner_node t of
         (Inl e, t) \<Rightarrow> (Inl e, t)
       | (Inr node_id, t) \<Rightarrow>
           case reset_for_level (get_node t node_id) new_level (ChildInner left_child) of
             (Inl e, n) \<Rightarrow> (Inl e, set_node t node_id n)
           | (Inr _, n) \<Rightarrow>
               case append_entry_for_level n new_level pivot (ChildInner right_child) of
                 (Inl e, n) \<Rightarrow> (Inl e, set_node t node_id n)
               | (Inr _, n) \<Rightarrow> (Inr (), root_set_inner (set_node t node_id n) node_id new_level))"

definition guard_insert_entry ::
    "BPTree \<Rightarrow> u32 \<Rightarrow> nat \<Rightarrow> ChildPointer \<Rightarrow> bytes \<Rightarrow> ChildPointer \<Rightarrow> unit result \<times> BPTree" where
  "guard_insert_entry t node level left_child pivot right_child =
    (case insert_entry_after_child (get_node t node) level left_child pivot right_child of
       (r, n) \<Rightarrow> (r, set_node t node n))"

definition remove_child_after_merge ::
    "BPTree \<Rightarrow> u32 \<Rightarrow> nat \<Rightarrow> ChildPointer \<Rightarrow> ChildPointer \<Rightarrow> ChildPointer option result \<times> BPTree" where
  "remove_child_after_merge t node level survivor removed =
    (case remove_entry_for_merge (get_node t node) level survivor removed of (r, n) \<Rightarrow> (r, set_node t node n))"

definition demote_root_after_merge :: "BPTree \<Rightarrow> ChildPointer \<Rightarrow> nat \<Rightarrow> unit result \<times> BPTree" where
  "demote_root_after_merge t child parent_level =
    (if parent_level = 1 then
       (case as_leaf child of Inl e \<Rightarrow> (Inl e, t) | Inr page \<Rightarrow> (Inr (), root_set_leaf t page))
     else
       (case as_inner child of
          Inl e \<Rightarrow> (Inl e, t)
        | Inr node \<Rightarrow>
            if parent_level = 0 then (Inl (Panic PanicOverflow), t)
            else (Inr (), root_set_inner t node (parent_level - 1))))"

definition split_inner_node ::
    "BPTree \<Rightarrow> u32 \<Rightarrow> nat \<Rightarrow> ChildPointer \<Rightarrow> bytes \<Rightarrow> ChildPointer \<Rightarrow> (bytes \<times> u32) result \<times> BPTree" where
  "split_inner_node t node level left_child pivot right_child =
    (let n = get_node t node; lowest_child = lowest_child_for_level n level in
     case collect_entries n level [0..<bp_count n] of
       Inl e \<Rightarrow> (Inl e, t)
     | Inr es \<Rightarrow>
         case insert_index lowest_child es left_child of
           Inl e \<Rightarrow> (Inl e, t)
         | Inr insert_idx \<Rightarrow>
             let es = vec_insert insert_idx (pivot, right_child) es;
                 promote_idx = length es div 2;
                 (promote_key, right_lowest) = es ! promote_idx;
                 es = vec_remove promote_idx es;
                 right_es = drop promote_idx es;
                 left_es = take promote_idx es
             in
               case alloc_inner_node t of
                 (Inl e, t) \<Rightarrow> (Inl e, t)
               | (Inr right_node, t) \<Rightarrow>
                   case reset_for_level (get_node t node) level lowest_child of
                     (Inl e, n) \<Rightarrow> (Inl e, set_node t node n)
                   | (Inr _, n) \<Rightarrow>
                       case append_all n level left_es of
                         (Inl e, n) \<Rightarrow> (Inl e, set_node t node n)
                       | (Inr _, n) \<Rightarrow>
                           let t = set_node t node n in
                           case reset_for_level (get_node t right_node) level right_lowest of
                             (Inl e, n) \<Rightarrow> (Inl e, set_node t right_node n)
                           | (Inr _, n) \<Rightarrow>
                               case append_all n level right_es of
                                 (Inl e, n) \<Rightarrow> (Inl e, set_node t right_node n)
                               | (Inr _, n) \<Rightarrow> (Inr (promote_key, right_node), set_node t right_node n))"

section \<open>Inspection\<close>

text \<open>The result of \<open>debug_root_leaf_parent\<close>: the pivots and the children of a parent of leaves.\<close>

definition debug_root_leaf_parent :: "BPTree \<Rightarrow> (bytes list \<times> u64 list) option result" where
  "debug_root_leaf_parent t =
    (case read_root t of
       Inl BPRestart \<Rightarrow> Inr None
     | Inl e \<Rightarrow> Inl e
     | Inr root_guard \<Rightarrow>
         case get_root t of
           RootLeaf _ \<Rightarrow> Inr None
         | RootInner level node \<Rightarrow>
             if level \<noteq> 1 then Inr None
             else
               case read_inner t node of
                 Inl BPRestart \<Rightarrow> Inr None
               | Inl e \<Rightarrow> Inl e
               | Inr g \<Rightarrow>
                   let n = get_node t node in
                   case collect_entries n 1 [0..<bp_count n] of
                     Inl e \<Rightarrow> Inl e
                   | Inr es \<Rightarrow>
                       Inr (if inner_check t g = Inr () \<and> root_check t root_guard = Inr ()
                            then Some (map fst es, lowest n # map (get_leaf_child n) [0..<bp_count n]) else None))"

definition root_level :: "BPTree \<Rightarrow> nat" where
  "root_level t =
    (case read_root t of
       Inl _ \<Rightarrow> 0
     | Inr _ \<Rightarrow> (case get_root t of RootLeaf _ \<Rightarrow> 0 | RootInner level _ \<Rightarrow> level))"

section \<open>Locks are released\<close>

text \<open>The nodes of a set, and the root pointer or not, are locked and all others are free.\<close>

definition lock_state :: "BPTree \<Rightarrow> nat set \<Rightarrow> bool \<Rightarrow> bool" where
  "lock_state t held rl \<longleftrightarrow>
    (\<forall>i < length (slab t). take_bit 2 (vlock (slab t ! i)) = (if i \<in> held then 2 else 0)) \<and>
    take_bit 2 (root_vlock t) = (if rl then 2 else 0)"

lemma locked_take_bit: "is_locked_or_obsolete v \<longleftrightarrow> take_bit 2 v \<noteq> 0"
  by (simp add: is_locked_or_obsolete_def take_bit_eq_mask mask_eq_exp_minus_1)

lemma take_bit_add2: "take_bit 2 (v + 2 :: u64) = take_bit 2 (take_bit 2 v + 2)"
  by transfer (simp add: take_bit_eq_mod mod_simps)

lemma take_bit_lock: "take_bit 2 (v :: u64) = 0 \<Longrightarrow> take_bit 2 (v + 2) = 2"
  and take_bit_unlock: "take_bit 2 (v :: u64) = 2 \<Longrightarrow> take_bit 2 (v + 2) = 0"
  by (simp_all add: take_bit_add2)

lemma length_slab_simps [simp]:
  "length (slab (set_node t i n)) = length (slab t)" "length (slab (inner_unlock j t)) = length (slab t)"
  "length (slab (root_unlock t)) = length (slab t)" "length (slab (root_set_inner t i l)) = length (slab t)"
  "length (slab (root_set_leaf t p)) = length (slab t)"
  by (simp_all add: set_node_def inner_unlock_def root_unlock_def root_set_inner_def root_set_leaf_def Let_def)

lemma inner_unlock_state:
  assumes "lock_state t held rl" "unat node \<in> held" "unat node < length (slab t)"
  shows "lock_state (inner_unlock node t) (held - {unat node}) rl"
  using assms take_bit_unlock
  by (auto simp: lock_state_def inner_unlock_def set_node_def get_node_def Let_def nth_list_update)

lemma unlock_all_state:
  assumes "lock_state t (unat ` set nodes) rl" "distinct nodes" "\<forall>n \<in> set nodes. unat n < length (slab t)"
  shows "lock_state (fold inner_unlock nodes t) {} rl"
  using assms
proof (induction nodes arbitrary: t)
  case (Cons n ns)
  have "unat ` set (n # ns) - {unat n} = unat ` set ns"
    using Cons.prems(2) by (auto simp flip: word_unat_eq_iff)
  with inner_unlock_state[OF Cons.prems(1), of n] Cons show ?case
    by simp
qed simp

lemma root_unlock_state: "lock_state t held True \<Longrightarrow> lock_state (root_unlock t) held False"
  using take_bit_unlock by (auto simp: lock_state_def root_unlock_def)

lemma root_upgrade_state:
  assumes "root_upgrade t v = (r, t')" "lock_state t held False"
  shows "slab t' = slab t" "root t' = root t" "lock_state t' held (r = Inr ())"
  using assms take_bit_lock
  by (auto simp: root_upgrade_def lock_state_def split: if_splits)

lemma inner_upgrade_state:
  assumes "inner_upgrade t (v, node) = (r, t')" "lock_state t held rl" "unat node < length (slab t)" "take_bit 2 v = 0"
  shows "length (slab t') = length (slab t)"
    "r = Inr () \<Longrightarrow> unat node \<notin> held \<and> lock_state t' (insert (unat node) held) rl"
    "r \<noteq> Inr () \<Longrightarrow> t' = t"
  using assms take_bit_lock
  by (auto simp: inner_upgrade_def lock_state_def set_node_def get_node_def nth_list_update split: if_splits)

lemma write_inner_state:
  assumes "write_inner t node = (r, t')" "lock_state t held rl"
  shows "length (slab t') = length (slab t)"
    "r = Inr () \<Longrightarrow> unat node < length (slab t) \<and> unat node \<notin> held \<and> lock_state t' (insert (unat node) held) rl"
    "r \<noteq> Inr () \<Longrightarrow> t' = t"
proof -
  have "length (slab t') = length (slab t) \<and>
    (r = Inr () \<longrightarrow> unat node < length (slab t) \<and> unat node \<notin> held \<and> lock_state t' (insert (unat node) held) rl) \<and>
    (r \<noteq> Inr () \<longrightarrow> t' = t)"
  proof (cases "read_inner t node")
    case (Inr g)
    then have g: "g = (vlock (get_node t node), node)" "unat node < length (slab t)" "take_bit 2 (fst g) = 0"
      by (auto simp: read_inner_def Let_def locked_take_bit split: if_splits)
    from Inr assms(1) have "inner_upgrade t (fst g, node) = (r, t')"
      by (simp add: write_inner_def g(1))
    from inner_upgrade_state[OF this assms(2) g(2,3)] g(2) show ?thesis
      by blast
  qed (use assms in \<open>auto simp: write_inner_def\<close>)
  then show "length (slab t') = length (slab t)"
    "r = Inr () \<Longrightarrow> unat node < length (slab t) \<and> unat node \<notin> held \<and> lock_state t' (insert (unat node) held) rl"
    "r \<noteq> Inr () \<Longrightarrow> t' = t" by blast+
qed

text \<open>What the loop leaves behind: all nodes free when it fails, the chain locked when it succeeds.\<close>

definition chain_locked :: "BPTree \<Rightarrow> (nat \<times> u32) list \<Rightarrow> bool \<Rightarrow> bool" where
  "chain_locked t ch rl \<longleftrightarrow> distinct (map snd ch) \<and> (\<forall>n \<in> set (map snd ch). unat n < length (slab t)) \<and>
    lock_state t (unat ` set (map snd ch)) rl"

lemma chain_unlock: "chain_locked t ch rl \<Longrightarrow> lock_state (fold inner_unlock (map snd ch) t) {} rl"
  by (simp add: chain_locked_def unlock_all_state)

lemma lock_chain_state:
  assumes "lock_chain t key level node acc = (r, t')" "chain_locked t (acc @ [(level, node)]) rl"
  shows "case r of Inl e \<Rightarrow> lock_state t' {} rl | Inr ch \<Rightarrow> chain_locked t' ch rl"
  using assms
proof (induction t key level node acc arbitrary: r t' rule: lock_chain.induct)
  case (1 t key l node acc)
  note cl = "1.prems"(2)
  have free: "lock_state (fold inner_unlock (map snd acc @ [node]) t) {} rl"
    using chain_unlock[OF cl] by simp
  show ?case
  proof (cases "search_for_inner (get_node t node) key")
    case (Inl e)
    with "1.prems"(1) free show ?thesis by (auto simp: Let_def)
  next
    case (Inr nx)
    obtain r1 t1 where w: "write_inner t nx = (r1, t1)" by fastforce
    from cl have ls: "lock_state t (unat ` set (map snd (acc @ [(Suc (Suc l), node)]))) rl"
      by (simp add: chain_locked_def)
    note W = write_inner_state[OF w ls]
    show ?thesis
    proof (cases r1)
      case e: (Inl e)
      with W(3) have "t1 = t" by simp
      with "1.prems"(1) Inr w e free show ?thesis by (auto simp: Let_def)
    next
      case u: (Inr u)
      with W(1,2) cl have "chain_locked t1 ((acc @ [(Suc (Suc l), node)]) @ [(Suc l, nx)]) rl"
        by (auto simp: chain_locked_def insert_commute)
      moreover have "lock_chain t1 key (Suc l) nx (acc @ [(Suc (Suc l), node)]) = (r, t')"
        using "1.prems"(1) Inr w u by (simp add: Let_def)
      ultimately show ?thesis
        using "1.IH"[OF refl Inr w[symmetric] u] by blast
    qed
  qed
qed auto

text \<open>A read guard as the descent hands it out.\<close>

fun point_ok :: "BPTree \<Rightarrow> WriteLockPoint \<Rightarrow> bool" where
  "point_ok t PointRoot = True"
| "point_ok t (PointInner (v, node) level) \<longleftrightarrow> unat node < length (slab t) \<and> take_bit 2 v = 0"

lemma bundle_drop_state:
  "chain_locked t ch rl \<Longrightarrow> lock_state (bundle_drop \<lparr>root_lock = rl, chain = ch\<rparr> t) {} False"
  using unlock_all_state[of "root_unlock t" "map snd ch" False] root_unlock_state[of t "unat ` set (map snd ch)"]
    chain_unlock[of t ch False]
  by (auto simp: bundle_drop_def chain_locked_def)

definition released :: "WriteLockBundle result \<Rightarrow> BPTree \<Rightarrow> BPTree" where
  "released r t = (case r of Inl e \<Rightarrow> t | Inr b \<Rightarrow> bundle_drop b t)"

lemma chain_bundle_state:
  assumes "chain_locked t [(level, node)] rl"
  shows "lock_state (case lock_chain t key level node [] of
      (Inl e, t) \<Rightarrow> if rl then root_unlock t else t
    | (Inr ch, t) \<Rightarrow> bundle_drop \<lparr>root_lock = rl, chain = ch\<rparr> t) {} False"
proof -
  obtain r t' where l: "lock_chain t key level node [] = (r, t')" by fastforce
  have "case r of Inl e \<Rightarrow> lock_state t' {} rl | Inr ch \<Rightarrow> chain_locked t' ch rl"
    by (rule lock_chain_state[OF l]) (use assms in simp)
  with l bundle_drop_state root_unlock_state show ?thesis
    by (cases rl) (auto split: sum.splits)
qed

lemma lock_chain_length: "lock_chain t key level node acc = (r, t') \<Longrightarrow> length (slab t') = length (slab t)"
proof (induction t key level node acc arbitrary: r t' rule: lock_chain.induct)
  case (1 t key l node acc)
  have u: "length (slab (fold inner_unlock ns t)) = length (slab t)" for ns t
    by (induction ns arbitrary: t) simp_all
  have w: "length (slab (snd (write_inner t n))) = length (slab t)" for n
    by (simp add: write_inner_def inner_upgrade_def split_beta split: sum.split)
  show ?case
  proof (cases "search_for_inner (get_node t node) key")
    case (Inr nx)
    obtain r1 t1 where t1: "write_inner t nx = (r1, t1)" by fastforce
    show ?thesis
    proof (cases r1)
      case i: (Inr x)
      with "1.prems" Inr t1 have "lock_chain t1 key (Suc l) nx (acc @ [(Suc (Suc l), node)]) = (r, t')"
        by (simp add: Let_def)
      from "1.IH"[OF refl Inr t1[symmetric] i this] w[of nx] t1 show ?thesis by simp
    qed (use "1.prems" Inr t1 w[of nx] in \<open>auto simp: Let_def u\<close>)
  qed (use "1.prems" in \<open>auto simp: Let_def u\<close>)
qed auto

lemma length_fold_unlock [simp]: "length (slab (fold inner_unlock ns t)) = length (slab t)"
  by (induction ns arbitrary: t) simp_all

lemma lock_from_point_state:
  assumes "lock_state t {} False" "point_ok t point" "lock_from_point t point key = (r, t')"
  shows "lock_state (released r t') {} False" "length (slab t') = length (slab t)"
proof -
  have "lock_state (released r t') {} False \<and> length (slab t') = length (slab t)"
  proof (cases point)
    case PointRoot
    show ?thesis
    proof (cases "read_root t")
      case (Inr v)
      obtain r1 t1 where up: "root_upgrade t v = (r1, t1)" by fastforce
      note U = root_upgrade_state[OF up assms(1)]
      show ?thesis
      proof (cases r1)
        case (Inr u)
        with U have ls: "lock_state t1 {} True" by simp
        show ?thesis
        proof (cases "get_root t1")
          case (RootLeaf p)
          have "lock_state (bundle_drop \<lparr>root_lock = True, chain = []\<rparr> t1) {} False"
            by (rule bundle_drop_state) (use ls in \<open>simp add: chain_locked_def\<close>)
          with RootLeaf Inr \<open>read_root t = Inr v\<close> up PointRoot assms(3) U(1) show ?thesis
            by (auto simp: lock_from_point_def released_def)
        next
          case (RootInner level node)
          obtain r2 t2 where w: "write_inner t1 node = (r2, t2)" by fastforce
          note W = write_inner_state[OF w ls]
          show ?thesis
          proof (cases r2)
            case (Inl e)
            with W RootInner \<open>r1 = Inr u\<close> \<open>read_root t = Inr v\<close> up w PointRoot assms(3) U(1) ls show ?thesis
              by (auto simp: lock_from_point_def released_def root_unlock_state)
          next
            case (Inr u2)
            with W have "chain_locked t2 [(level, node)] True"
              by (simp add: chain_locked_def)
            from chain_bundle_state[OF this, of key] W RootInner \<open>r1 = Inr u\<close> \<open>r2 = Inr u2\<close> \<open>read_root t = Inr v\<close>
              up w PointRoot assms(3) U(1) show ?thesis
              by (auto simp: lock_from_point_def released_def lock_chain_length split: sum.splits prod.splits)
          qed
        qed
      qed (use assms up PointRoot Inr U in \<open>auto simp: lock_from_point_def released_def\<close>)
    qed (use assms PointRoot in \<open>auto simp: lock_from_point_def released_def\<close>)
  next
    case (PointInner g level)
    obtain v node where g: "g = (v, node)" by fastforce
    obtain r1 t1 where up: "inner_upgrade t (v, node) = (r1, t1)" by fastforce
    note U = inner_upgrade_state[OF up assms(1)]
    have b: "unat node < length (slab t)" "take_bit 2 v = 0" using assms(2) PointInner g by auto
    show ?thesis
    proof (cases r1)
      case (Inl e)
      with U(3)[OF b] assms PointInner g up show ?thesis
        by (auto simp: lock_from_point_def released_def)
    next
      case (Inr u)
      with U(1,2)[OF b] b have "chain_locked t1 [(level, node)] False"
        by (simp add: chain_locked_def)
      from chain_bundle_state[OF this, of key] Inr assms(3) PointInner g up U(1)[OF b] show ?thesis
        by (auto simp: lock_from_point_def released_def lock_chain_length split: sum.splits prod.splits)
    qed
  qed
  then show "lock_state (released r t') {} False" "length (slab t') = length (slab t)" by blast+
qed

lemma read_inner_InrD:
  "read_inner t node = Inr g \<Longrightarrow> unat node < length (slab t) \<and> g = (vlock (get_node t node), node) \<and> take_bit 2 (fst g) = 0"
  by (auto simp: read_inner_def Let_def locked_take_bit split: if_splits)

lemma update_lock_points_ok:
  assumes "update_lock_points t g level points = Inr points'" "read_inner t node = Inr g"
    "point_ok t (fst points)" "point_ok t (snd points)"
  shows "point_ok t (fst points') \<and> point_ok t (snd points')"
  using assms read_inner_InrD[OF assms(2)]
  by (auto simp: update_lock_points_def Let_def split_beta split: sum.splits if_splits)

lemma traverse_loop_ok:
  assumes "traverse_loop t key level g points = Inr res" "point_ok t (fst points)" "point_ok t (snd points)"
  shows "point_ok t (overflow_point res) \<and> point_ok t (underflow_point res)"
  using assms
proof (induction t key level g points rule: traverse_loop.induct)
  case (3 t key l g points)
  then obtain nx g' points' where *: "search_for_inner (get_node t (snd g)) key = Inr nx" "read_inner t nx = Inr g'"
    "inner_check t g = Inr ()" "update_lock_points t g' (Suc l) points = Inr points'"
    "traverse_loop t key (Suc l) g' points' = Inr res"
    by (auto split: sum.splits)
  from update_lock_points_ok[OF *(4,2) "3.prems"(2,3)] "3.IH"[OF *(1-4)] *(5) show ?case by blast
qed (auto split: sum.splits)

lemma try_read_traverse_ok:
  assumes "try_read_traverse_leaf t key = Inr res"
  shows "point_ok t (overflow_point res) \<and> point_ok t (underflow_point res)"
proof (cases "get_root t")
  case (RootLeaf p)
  with assms show ?thesis by (auto simp: try_read_traverse_leaf_def split: sum.splits)
next
  case (RootInner level node)
  with assms obtain g points where *: "read_inner t node = Inr g"
    "update_lock_points t g level (PointRoot, PointRoot) = Inr points" "traverse_loop t key level g points = Inr res"
    by (auto simp: try_read_traverse_leaf_def split: sum.splits)
  from update_lock_points_ok[OF *(2,1)] traverse_loop_ok[OF *(3)] show ?thesis by simp
qed

lemma write_lock_retry_state:
  assumes "lock_state t {} False" "write_lock_retry tries t op key = (r, t')"
  shows "lock_state (released r t') {} False"
  using assms
proof (induction tries arbitrary: t)
  case (Suc tries)
  show ?case
  proof (cases "try_read_traverse_leaf t key")
    case (Inl e)
    with Suc show ?thesis by (cases e) (auto simp: released_def)
  next
    case (Inr res)
    define pt where "pt = (case op of OpSplit \<Rightarrow> overflow_point res | OpMerge \<Rightarrow> underflow_point res)"
    have ok: "point_ok t pt"
      using try_read_traverse_ok[OF Inr] by (cases op) (auto simp: pt_def)
    obtain r1 t1 where l: "lock_from_point t pt key = (r1, t1)" by fastforce
    note S = lock_from_point_state[OF Suc.prems(1) ok l]
    show ?thesis
    proof (cases "r1 = Inl BPRestart")
      case True
      with Suc.prems(2) Inr l have "write_lock_retry tries t1 op key = (r, t')"
        by (simp add: pt_def[symmetric] Let_def)
      with Suc.IH[of t1] S(1) True show ?thesis by (simp add: released_def)
    next
      case False
      with Suc.prems(2) Inr l have "(r1, t1) = (r, t')"
        by (simp add: pt_def[symmetric] Let_def split: sum.splits fault.splits)
      with S show ?thesis by simp
    qed
  qed
qed (auto simp: released_def)

text \<open>C24: A write lock leaks no lock: whatever the tree, the descent and the outcome, when no lock
  was held before, none is held after the bundle of a successful call is dropped, and none after a
  failed call.\<close>

theorem write_lock_releases:
  assumes "lock_state t {} False" and "point_ok t point" and "write_lock t point op key = (r, t')"
  shows "lock_state (released r t') {} False"
proof -
  obtain r1 t1 where l: "lock_from_point t point key = (r1, t1)" by fastforce
  note S = lock_from_point_state[OF assms(1,2) l]
  show ?thesis
  proof (cases "r1 = Inl BPRestart")
    case True
    with assms(3) l have "write_lock_retry SPIN_RETRIES t1 op key = (r, t')"
      by (simp add: write_lock_def)
    with write_lock_retry_state[of t1] S(1) True show ?thesis by (simp add: released_def)
  next
    case False
    with assms(3) l have "(r1, t1) = (r, t')"
      by (simp add: write_lock_def split: sum.splits fault.splits)
    with S show ?thesis by simp
  qed
qed

section \<open>The height of the tree\<close>

definition root_height :: "BPTree \<Rightarrow> nat" where
  "root_height t = (case get_root t of RootLeaf _ \<Rightarrow> 0 | RootInner level _ \<Rightarrow> level)"

lemma root_height_eq: "root_height t = unat (ucast (drop_bit 48 (root t)) :: u16)"
  by (simp add: root_height_def get_root_def Let_def)

lemma append_inner_entry_fails: "fst (append_inner_entry n key child) \<noteq> Inr ()"
  by (auto simp: append_inner_entry_def append_entry_def copy_from_slice_def Let_def length_store_u32
      split: sum.split)

text \<open>The operations of the tree, by the name of the function; a restructuring is given the level of
  the node it works on.\<close>

inductive tree_step :: "BPTree \<Rightarrow> BPTree \<Rightarrow> bool" where
  leaf_root: "page < 2 ^ 48 \<Longrightarrow> tree_step t (set_leaf_root t page)"
| lock: "tree_step t (snd (write_lock t point op key))"
| unlock: "tree_step t (bundle_drop b t)"
| promote_leaf: "tree_step t (snd (promote_leaf_root t l r pivot))"
| promote_inner: "tree_step t (snd (promote_inner_root t l' r' pivot level))"
| insert: "tree_step t (snd (guard_insert_entry t node level left pivot right))"
| split: "tree_step t (snd (split_inner_node t node level left pivot right))"
| remove: "tree_step t (snd (remove_child_after_merge t node level left right))"
| demote_leaf: "page < 2 ^ 48 \<Longrightarrow> tree_step t (snd (demote_root_after_merge t (ChildLeaf page) (root_height t)))"
| demote_inner: "tree_step t (snd (demote_root_after_merge t (ChildInner node) (root_height t)))"

lemma root_simps [simp]:
  "root (set_node t i n) = root t" "root (inner_unlock j t) = root t" "root (root_unlock t) = root t"
  by (simp_all add: set_node_def inner_unlock_def root_unlock_def Let_def)

lemma root_fold_unlock [simp]: "root (fold inner_unlock ns t) = root t"
  by (induction ns arbitrary: t) simp_all

lemma root_alloc [simp]: "root (snd (alloc_inner_node t)) = root t"
  by (simp add: alloc_inner_node_def Let_def)

lemma root_upgrades [simp]:
  "root (snd (root_upgrade t v)) = root t" "root (snd (inner_upgrade t g)) = root t"
  "root (snd (write_inner t node)) = root t"
  by (auto simp: root_upgrade_def inner_upgrade_def write_inner_def split_beta split: sum.split)

lemma root_lock_chain: "root (snd (lock_chain t key level node acc)) = root t"
proof (induction t key level node acc rule: lock_chain.induct)
  case (1 t key l node acc)
  show ?case
  proof (cases "search_for_inner (get_node t node) key")
    case (Inr nx)
    obtain r1 t1 where t1: "write_inner t nx = (r1, t1)" by fastforce
    have "root t1 = root t" using root_upgrades(3)[of t nx] t1 by simp
    then show ?thesis
      using "1.IH"[OF refl Inr t1[symmetric]] Inr t1 by (cases r1) (simp_all add: Let_def)
  qed (simp add: Let_def)
qed simp_all

lemma root_lock_from_point: "root (snd (lock_from_point t point key)) = root t"
proof (cases point)
  case PointRoot
  show ?thesis
  proof (cases "read_root t")
    case (Inr v)
    obtain r1 t1 where up: "root_upgrade t v = (r1, t1)" by fastforce
    have r1: "root t1 = root t" using root_upgrades(1)[of t v] up by simp
    show ?thesis
    proof (cases "get_root t1")
      case (RootLeaf p)
      with PointRoot Inr up r1 show ?thesis by (cases r1) (simp_all add: lock_from_point_def)
    next
      case (RootInner l n)
      obtain r2 t2 where w: "write_inner t1 n = (r2, t2)" by fastforce
      have r2: "root t2 = root t" using root_upgrades(3)[of t1 n] w r1 by simp
      obtain r3 t3 where c: "lock_chain t2 key l n [] = (r3, t3)" by fastforce
      have "root t3 = root t" using root_lock_chain[of t2 key l n "[]"] c r2 by simp
      with PointRoot Inr up r1 r2 RootInner w c show ?thesis
        by (cases r1; cases r2; cases r3) (simp_all add: lock_from_point_def)
    qed
  qed (use PointRoot in \<open>simp add: lock_from_point_def\<close>)
next
  case (PointInner g level)
  obtain r1 t1 where up: "inner_upgrade t g = (r1, t1)" by fastforce
  have r1: "root t1 = root t" using root_upgrades(2)[of t g] up by simp
  obtain r2 t2 where c: "lock_chain t1 key level (snd g) [] = (r2, t2)" by fastforce
  have "root t2 = root t" using root_lock_chain[of t1 key level "snd g" "[]"] c r1 by simp
  with PointInner up r1 c show ?thesis
    by (cases r1; cases r2) (simp_all add: lock_from_point_def)
qed

lemma root_write_lock: "root (snd (write_lock t point op key)) = root t"
proof -
  have retry: "root (snd (write_lock_retry tries t op key)) = root t" for tries t
  proof (induction tries arbitrary: t)
    case (Suc tries)
    show ?case
    proof (cases "try_read_traverse_leaf t key")
      case (Inl e)
      with Suc show ?thesis by (cases e) simp_all
    next
      case (Inr res)
      define pt where "pt = (case op of OpSplit \<Rightarrow> overflow_point res | OpMerge \<Rightarrow> underflow_point res)"
      obtain r1 t1 where l: "lock_from_point t pt key = (r1, t1)" by fastforce
      have "root t1 = root t" using root_lock_from_point[of t pt key] l by simp
      with Suc[of t1] Inr l show ?thesis
        by (simp add: pt_def[symmetric] split: sum.split fault.split)
    qed
  qed simp
  obtain r1 t1 where l: "lock_from_point t point key = (r1, t1)" by fastforce
  have "root t1 = root t" using root_lock_from_point[of t point key] l by simp
  with l retry[of SPIN_RETRIES t1] show ?thesis
    by (simp add: write_lock_def split: sum.split fault.split)
qed

lemma height_root_set: "root_height (root_set_inner t node 1) = 1"
  "page < 2 ^ 48 \<Longrightarrow> root_height (root_set_leaf t page) = 0"
  "page < 2 ^ 48 \<Longrightarrow> root_height (set_leaf_root t page) = 0"
proof -
  have "drop_bit 48 (ucast node :: u64) = 0"
    by (rule bit_eqI) (auto simp: bit_drop_bit_eq bit_ucast_iff dest: bit_imp_le_length)
  then show "root_height (root_set_inner t node 1) = 1"
    by (simp add: root_height_eq root_set_inner_def drop_bit_push_bit drop_bit_or)
  assume "page < 2 ^ 48"
  then have "drop_bit 48 page = 0"
    by (simp only: drop_bit_eq_div div_word_less)
  then show "root_height (root_set_leaf t page) = 0" "root_height (set_leaf_root t page) = 0"
    by (simp_all add: root_height_eq root_set_leaf_def set_leaf_root_def)
qed

lemma root_height_cong: "root t' = root t \<Longrightarrow> root_height t' = root_height t"
  by (simp add: root_height_eq)

lemma promote_leaf_root_height: "root_height t \<le> 1 \<Longrightarrow> root_height (snd (promote_leaf_root t l r pivot)) \<le> 1"
proof -
  assume h: "root_height t \<le> 1"
  obtain a t1 where al: "alloc_inner_node t = (a, t1)" by fastforce
  have r1: "root t1 = root t" using root_alloc[of t] al by simp
  show ?thesis
  proof (cases a)
    case (Inr node)
    obtain r2 n2 where i: "init_leaf_parent (get_node t1 node) l r pivot = (r2, n2)" by fastforce
    have "root_height (set_node t1 node n2) = root_height t"
      by (rule root_height_cong) (simp add: r1)
    with Inr al i h height_root_set(1)[of "set_node t1 node n2" node] show ?thesis
      by (cases r2) (simp_all add: promote_leaf_root_def)
  qed (use al h root_height_cong[OF r1] in \<open>simp add: promote_leaf_root_def\<close>)
qed

lemma promote_inner_root_fails:
  "fst (promote_inner_root t l r pivot level) \<noteq> Inr () \<and> root (snd (promote_inner_root t l r pivot level)) = root t"
proof -
  obtain a t1 where al: "alloc_inner_node t = (a, t1)" by fastforce
  have r1: "root t1 = root t" using root_alloc[of t] al by simp
  have ap: "fst (append_entry_for_level n (level + 1) key (ChildInner c)) \<noteq> Inr ()" for n key c
    using append_inner_entry_fails[of n key c] by (simp add: append_entry_for_level_def)
  show ?thesis
  proof (cases a)
    case (Inr node)
    obtain r2 n2 where re: "reset_for_level (get_node t1 node) (level + 1) (ChildInner l) = (r2, n2)" by fastforce
    obtain e n3 where a3: "append_entry_for_level n2 (level + 1) pivot (ChildInner r) = (e, n3)" by fastforce
    from ap[of n2 pivot r] a3 obtain f where "e = Inl f" by (cases e) auto
    with Inr al r1 re a3 show ?thesis
      by (cases r2) (simp_all add: promote_inner_root_def)
  qed (use al r1 in \<open>simp add: promote_inner_root_def\<close>)
qed

lemma root_insert_remove:
  "root (snd (guard_insert_entry t node level left pivot right)) = root t"
  "root (snd (remove_child_after_merge t node level left' right')) = root t"
  by (simp_all add: guard_insert_entry_def remove_child_after_merge_def split: prod.split)

lemma root_split: "root (snd (split_inner_node t node level left pivot right)) = root t"
proof -
  obtain a t1 where al: "alloc_inner_node t = (a, t1)" by fastforce
  have "root t1 = root t" using root_alloc[of t] al by simp
  with al show ?thesis
    by (simp add: split_inner_node_def Let_def split_beta split: sum.split)
qed

lemma demote_height:
  "page < 2 ^ 48 \<Longrightarrow> root_height t \<le> 1 \<Longrightarrow>
    root_height (snd (demote_root_after_merge t (ChildLeaf page) (root_height t))) \<le> 1"
  "root_height t \<le> 1 \<Longrightarrow> snd (demote_root_after_merge t (ChildInner node) (root_height t)) = t"
  using height_root_set(2)[of page t] by (auto simp: demote_root_after_merge_def le_Suc_eq)

lemma tree_step_height:
  assumes "tree_step t t'" "root_height t \<le> 1"
  shows "root_height t' \<le> 1"
  using assms
proof cases
  case (leaf_root page)
  with height_root_set(3) show ?thesis by simp
next
  case (lock point op key)
  with assms root_height_cong[OF root_write_lock] show ?thesis by simp
next
  case (unlock b)
  have "root (bundle_drop b t) = root t" by (simp add: bundle_drop_def)
  with assms unlock root_height_cong show ?thesis by metis
next
  case (promote_inner l' r' pivot level)
  with assms(2) promote_inner_root_fails[of t l' r' pivot level] root_height_cong show ?thesis by metis
next
  case (insert node level left pivot right)
  with assms root_height_cong[OF root_insert_remove(1)] show ?thesis by simp
next
  case (split node level left pivot right)
  with assms root_height_cong[OF root_split] show ?thesis by simp
next
  case (remove node level left right)
  with assms root_height_cong[OF root_insert_remove(2)] show ?thesis by simp
qed (use assms(2) promote_leaf_root_height demote_height in auto)

text \<open>C25: A tree never grows above one level of inner nodes: whatever operations are run on a new
  tree, its root is a leaf or a parent of leaves, because an entry with an inner child cannot be
  stored.\<close>

theorem tree_height_at_most_one:
  assumes "BPTree_new mem bound = Inr t0" and "tree_step\<^sup>*\<^sup>* t0 t"
  shows "root_height t \<le> 1"
  using assms(2)
proof (induction rule: rtranclp_induct)
  case base
  from assms(1) show ?case by (auto simp: BPTree_new_def root_height_eq split: if_splits)
next
  case (step t t')
  then show ?case using tree_step_height by blast
qed

section \<open>The first split\<close>

lemma init_leaf_parent_spec:
  assumes len: "length (rest n) = 4072" and ok: "entry_ok (pivot, r)"
  obtains n' where "init_leaf_parent n l r pivot = (Inr (), n')" "bp_wf n'" "leaf_entries n' = [(pivot, r)]"
    "lowest n' = l" "vlock n' = vlock n" "4 * bp_count n' \<le> alloc_idx n'"
proof -
  note R = reset_leaf_parent_spec[OF len, of l]
  from ok have k: "length pivot \<le> 64" by (simp add: entry_ok_def)
  have "init_leaf_parent n l r pivot = append_leaf_entry (reset_leaf_parent n l) pivot r"
    using k by (simp add: init_leaf_parent_def append_leaf_entry_def append_entry_def reset_leaf_parent_def
        space_left_def MAX_KEY_LENGTH_def INLINE_BUFFER_LEN_def LEAF_CHILD_BYTES_def copy_from_slice_def
        bp_write_meta_def Let_def)
  moreover obtain n' where "append_leaf_entry (reset_leaf_parent n l) pivot r = (Inr (), n')" "bp_wf n'"
    "leaf_entries n' = leaf_entries (reset_leaf_parent n l) @ [(pivot, take_bit 48 r)]"
    "lowest n' = lowest (reset_leaf_parent n l)" "vlock n' = vlock (reset_leaf_parent n l)"
    "bp_free n' = bp_free (reset_leaf_parent n l) - (length pivot + 10)"
    using append_leaf_entry_spec[of "reset_leaf_parent n l" pivot r] R k by auto
  ultimately show ?thesis
    using that R ok k by (auto simp: entry_ok_def bp_free_def)
qed

lemma get_root_inner: "get_root (root_set_inner t node 1) = RootInner 1 node"
proof -
  have "\<not> bit (push_bit 48 1 :: u64) n" if "n < 32" for n
    using that by (simp only: bit_push_bit_iff) simp
  then have "bit (ucast (push_bit 48 1 OR ucast node :: u64) :: u32) n = bit node n" if "n < 32" for n
    using that by (simp only: bit_ucast_iff bit_or_iff) simp
  then have "(ucast (push_bit 48 1 OR ucast node :: u64) :: u32) = node"
    by (intro bit_word_eqI) simp
  then have "ucast (root (root_set_inner t node 1)) = node"
    by (simp add: root_set_inner_def)
  with height_root_set(1)[of t node] show ?thesis
    unfolding root_height_eq get_root_def Let_def by (simp only: if_True one_neq_zero simp_thms)
qed

lemma traverse_retry_first:
  "try_read_traverse_leaf t key = Inr res \<Longrightarrow> 0 < k \<Longrightarrow> traverse_retry k t key = Inr res"
  by (cases k) simp_all

text \<open>The descent in a tree whose root is an unlocked, well-formed parent of leaves.\<close>

lemma traverse_leaf_parent:
  assumes "get_root t = RootInner 1 node" "unat node < length (slab t)" "lock_state t {} False"
    and n: "bp_wf (get_node t node)" "key_sorted (leaf_entries (get_node t node))" "0 < bp_count (get_node t node)"
      "4 * bp_count (get_node t node) \<le> alloc_idx (get_node t node)"
  shows "\<exists>res. read_traverse_leaf t key = Inr res \<and>
    Inr (read_page res) = search_for_leaf (get_node t node) key"
proof -
  let ?n = "get_node t node"
  from assms(2,3) have v: "\<not> is_locked_or_obsolete (root_vlock t)" "\<not> is_locked_or_obsolete (vlock ?n)"
    by (auto simp: lock_state_def locked_take_bit get_node_def)
  have sp: "space_left ?n = Inr (bp_free ?n)"
    using n(4) by (simp add: space_left_free)
  note S = search_for_leaf_spec[OF n(1-3), of key]
  from v assms(1,2) sp S have "\<exists>res. try_read_traverse_leaf t key = Inr res \<and> Inr (read_page res) = search_for_leaf ?n key"
    by (simp add: try_read_traverse_leaf_def read_root_def read_inner_def root_check_def inner_check_def
        update_lock_points_def can_overflow_def will_underflow_def Let_def)
  then show ?thesis
    using traverse_retry_first[of t key] by (auto simp: read_traverse_leaf_def SPIN_RETRIES_def)
qed

lemma alloc_inner_node_room:
  assumes "node_next_free t < cap t" "cap t = length (slab t)" "cap t \<le> 2 ^ 32"
  obtains i t1 where "alloc_inner_node t = (Inr i, t1)" "unat i = node_next_free t"
    "slab t1 = (slab t)[unat i := BPNode_blank]" "root t1 = root t" "root_vlock t1 = root_vlock t"
proof -
  have "node_next_free t < 2 ^ 32" using assms by linarith
  then have "unat (word_of_nat (node_next_free t) :: u32) = node_next_free t"
    by (simp add: unat_of_nat)
  with assms show ?thesis
    by (intro that[of "word_of_nat (node_next_free t)" "snd (alloc_inner_node t)"]) (simp_all add: alloc_inner_node_def Let_def set_node_def)
qed

text \<open>C12: The first split of a tree: when the root is a leaf and there is room for a node, the lock
  from the root succeeds, the promotion stores a parent of both leaves, and after the release of the
  lock every descent reaches the left leaf for the keys below the pivot and the right one for the
  others.\<close>

theorem leaf_root_split_cycle:
  assumes "lock_state t {} False" and "get_root t = RootLeaf l" and "uint (root_vlock t) + 2 < 2 ^ 64"
    and "node_next_free t < cap t" and "cap t = length (slab t)" and "cap t \<le> 2 ^ 32"
    and "entry_ok (pivot, r)"
  shows "\<exists>b t1 t2. write_lock t PointRoot OpSplit key = (Inr b, t1) \<and> promote_leaf_root t1 l r pivot = (Inr (), t2) \<and>
    lock_state (bundle_drop b t2) {} False \<and>
    (\<forall>k. \<exists>res. read_traverse_leaf (bundle_drop b t2) k = Inr res \<and> read_page res = (if k < pivot then l else r))"
proof -
  let ?b = "\<lparr>root_lock = True, chain = []\<rparr>" and ?t1 = "t\<lparr>root_vlock := root_vlock t + 2\<rparr>"
  from assms(1) have rv: "take_bit 2 (root_vlock t) = 0" by (simp add: lock_state_def)
  have "get_root ?t1 = RootLeaf l" using assms(2) by (simp add: get_root_def)
  with rv assms(3) have w: "write_lock t PointRoot OpSplit key = (Inr ?b, ?t1)"
    by (simp add: write_lock_def lock_from_point_def read_root_def locked_take_bit root_upgrade_def)
  obtain i ta where a: "alloc_inner_node ?t1 = (Inr i, ta)" "unat i = node_next_free t"
    "slab ta = (slab t)[unat i := BPNode_blank]" "root ta = root t" "root_vlock ta = root_vlock t + 2"
    by (rule alloc_inner_node_room[of ?t1]) (use assms(4-6) in simp_all)
  have i: "unat i < length (slab t)" using a(2) assms(4,5) by simp
  have gn: "get_node ta i = BPNode_blank" using a(3) i by (simp add: get_node_def)
  obtain n where n: "init_leaf_parent BPNode_blank l r pivot = (Inr (), n)" "bp_wf n" "leaf_entries n = [(pivot, r)]"
    "lowest n = l" "vlock n = vlock BPNode_blank" "4 * bp_count n \<le> alloc_idx n"
    using init_leaf_parent_spec[OF blank_reset assms(7)] by blast
  let ?t2 = "root_set_inner (set_node ta i n) i 1"
  have p: "promote_leaf_root ?t1 l r pivot = (Inr (), ?t2)"
    using a(1) gn n(1) by (simp add: promote_leaf_root_def)
  let ?t = "bundle_drop ?b ?t2"
  have t: "slab ?t = (slab t)[unat i := n]" "root_vlock ?t = root_vlock t + 2 + 2" "root ?t = root ?t2"
    using a by (simp_all add: bundle_drop_def root_unlock_def root_set_inner_def set_node_def)
  have node: "get_node ?t i = n" using t(1) i by (simp add: get_node_def)
  have ls: "lock_state ?t {} False"
    using assms(1) i n(5) take_bit_unlock[OF take_bit_lock[OF rv]]
    by (auto simp: lock_state_def t[unfolded One_nat_def] nth_list_update BPNode_blank_def)
  have gr: "get_root ?t = RootInner 1 i"
    using get_root_inner[of "set_node ta i n" i] t(3) by (simp add: get_root_def)
  have cnt: "bp_count n = 1" using n(3) length_leaf_entries[of n] by simp
  have tr: "\<exists>res. read_traverse_leaf ?t k = Inr res \<and> Inr (read_page res) = search_for_leaf n k" for k
    using traverse_leaf_parent[OF gr _ ls, of k] node i t(1) n(2,3,6) cnt by simp
  have "search_for_leaf n k = Inr (if k < pivot then l else r)" for k
    using search_for_leaf_spec[OF n(2), of k] n(3,4) cnt
    by (auto simp: node_children_def child_index_def)
  with tr w p ls show ?thesis by auto
qed

section \<open>The split of a parent of leaves\<close>

text \<open>The routing of a sorted list, cut at one of its pivots.\<close>

lemma child_index_take:
  assumes "key_sorted es" "m < length es" "key < fst (es ! m)"
  shows "child_index (take m es) key = child_index es key"
proof -
  have "key < fst e" if e: "e \<in> set (drop m es)" for e
  proof -
    obtain j where j: "j < length es - m" "e = es ! (m + j)" using e by (auto simp: in_set_conv_nth)
    have "fst (es ! m) \<le> fst (es ! (m + j))"
      using assms(1,2) j(1) by (cases "j = 0") (auto simp: sorted_wrt_iff_nth_less intro!: less_imp_le)
    with assms(3) have "key < fst (es ! (m + j))" by (rule order_less_le_trans)
    with j(2) show ?thesis by simp
  qed
  then have "child_index (drop m es) key = 0"
    by (simp add: child_index_def filter_empty_conv split_beta not_le)
  then show ?thesis
    using child_index_append[of "take m es" "drop m es" key] by simp
qed

lemma child_index_drop:
  assumes "key_sorted es" "m < length es" "fst (es ! m) \<le> key"
  shows "child_index es key = m + 1 + child_index (drop (m + 1) es) key"
proof -
  have "fst e \<le> key" if e: "e \<in> set (take (m + 1) es)" for e
  proof -
    obtain j where j: "j \<le> m" "e = es ! j" using e assms(2) by (auto simp: in_set_conv_nth less_Suc_eq_le)
    have "fst (es ! j) \<le> fst (es ! m)"
      using assms(1,2) j(1) by (cases "j = m") (auto simp: sorted_wrt_iff_nth_less intro!: less_imp_le)
    with j(2) assms(3) show ?thesis by (metis order_trans)
  qed
  then have "filter (\<lambda>(p, _). p \<le> key) (take (m + 1) es) = take (m + 1) es"
    by (intro filter_True) (simp add: split_beta)
  then have "child_index (take (m + 1) es) key = m + 1"
    using assms(2) by (simp add: child_index_def)
  then show ?thesis
    using child_index_append[of "take (m + 1) es" "drop (m + 1) es" key] by simp
qed

lemma route_cut:
  assumes "key_sorted es" "m < length es"
  shows "route lo es key =
    (if key < fst (es ! m) then route lo (take m es) key else route (snd (es ! m)) (drop (m + 1) es) key)"
proof (cases "key < fst (es ! m)")
  case True
  have "child_index (take m es) key \<le> m" using child_index_le[of "take m es" key] assms(2) by simp
  with True assms child_index_take[OF assms True] show ?thesis
    by (simp add: route_def nth_Cons' )
next
  case False
  then have c: "child_index es key = m + 1 + child_index (drop (m + 1) es) key"
    using child_index_drop[OF assms] by (simp add: not_less)
  have "child_index (drop (m + 1) es) key \<le> length es - (m + 1)"
    using child_index_le[of "drop (m + 1) es" key] by simp
  with False c assms(2) show ?thesis
    by (auto simp: route_def nth_Cons')
qed

lemma entries_size_ge: "10 * length es \<le> entries_size es"
  by (induction es) auto

lemma entries_size_le: "\<forall>e \<in> set es. entry_ok e \<Longrightarrow> entries_size es \<le> 74 * length es"
  by (induction es) (auto simp: entry_ok_def)

lemma halves_fit:
  assumes "\<forall>e \<in> set es. entry_ok e" "entries_size es \<le> 4072 + 74" "m = length es div 2"
  shows "entries_size (take m es) \<le> 4072 \<and> entries_size (drop (m + 1) es) \<le> 4072"
proof -
  have "entries_size (take m es) + entries_size (drop m es) = entries_size es"
    using entries_size_simps(3)[of "take m es" "drop m es"] by simp
  moreover have "entries_size (take (m + 1) es) + entries_size (drop (m + 1) es) = entries_size es"
    using entries_size_simps(3)[of "take (m + 1) es" "drop (m + 1) es"] by simp
  moreover have "10 * (length es - m) \<le> entries_size (drop m es)" "10 * min (m + 1) (length es) \<le> entries_size (take (m + 1) es)"
    using entries_size_ge[of "drop m es"] entries_size_ge[of "take (m + 1) es"] by (simp_all add: min.commute)
  moreover have "entries_size es \<le> 74 * length es" by (rule entries_size_le[OF assms(1)])
  moreover have "length es \<le> 2 * m + 1" "2 * m \<le> length es" using assms(3) by simp_all
  ultimately show ?thesis using assms(2) by (intro conjI) (linarith, cases "m + 1 \<le> length es", simp_all)
qed

lemma vec_remove_cut:
  "m < length es \<Longrightarrow> take m (vec_remove m es) = take m es \<and> drop m (vec_remove m es) = drop (m + 1) es"
  by (simp add: vec_remove_def)

text \<open>A node rebuilt from a list that fits.\<close>

lemma rebuild_node:
  assumes "length (rest n) = 4072" "\<forall>e \<in> set es. entry_ok e" "entries_size es \<le> 4072"
  obtains n' where "append_all (reset_leaf_parent n lo) 1 (map leaf_ptr es) = (Inr (), n')" "bp_wf n'"
    "leaf_entries n' = es" "lowest n' = lo" "bp_count n' = length es"
proof -
  note R = reset_leaf_parent_spec[OF assms(1), of lo]
  then have "bp_wf (reset_leaf_parent n lo)" "entries_size es \<le> bp_free (reset_leaf_parent n lo)"
    using assms(3) by simp_all
  from append_all_fits[OF this(1) assms(2) this(2)] R obtain n' where
    "append_all (reset_leaf_parent n lo) 1 (map leaf_ptr es) = (Inr (), n')" "bp_wf n'" "leaf_entries n' = es"
    "lowest n' = lo" by auto
  moreover from this(3) have "bp_count n' = length es" by (metis length_leaf_entries)
  ultimately show thesis by (rule that)
qed

lemma split_inner_node_reduces:
  assumes wf: "bp_wf (get_node t node)" and l: "l \<in> set (node_children (get_node t node))"
    and "node_next_free t < cap t" "cap t = length (slab t)" "cap t \<le> 2 ^ 32"
    and ne: "unat node \<noteq> node_next_free t" and b: "unat node < length (slab t)"
    and cut: "\<And>i. i \<le> bp_count (get_node t node) \<Longrightarrow>
      let es = vec_insert i (pivot, r) (leaf_entries (get_node t node)); m = length es div 2
      in (\<forall>e \<in> set es. entry_ok e) \<and> entries_size (take m es) \<le> 4072 \<and> entries_size (drop (m + 1) es) \<le> 4072"
  obtains i es m right t' where "i \<le> bp_count (get_node t node)" "node_children (get_node t node) ! i = l"
    "es = vec_insert i (pivot, r) (leaf_entries (get_node t node))" "m = length es div 2"
    "split_inner_node t node 1 (ChildLeaf l) pivot (ChildLeaf r) = (Inr (fst (es ! m), right), t')"
    "bp_wf (get_node t' node)" "leaf_entries (get_node t' node) = take m es"
    "lowest (get_node t' node) = lowest (get_node t node)"
    "bp_wf (get_node t' right)" "leaf_entries (get_node t' right) = drop (m + 1) es"
    "lowest (get_node t' right) = snd (es ! m)"
proof -
  let ?n = "get_node t node" and ?es = "leaf_entries (get_node t node)"
  obtain i where i: "insert_index (ChildLeaf (lowest ?n)) (map leaf_ptr ?es) (ChildLeaf l) = Inr i"
    "i \<le> length ?es" "(lowest ?n # map snd ?es) ! i = l"
    using l unfolding node_children_def by (rule insert_index_spec)
  define es where "es = vec_insert i (pivot, r) ?es"
  define m where "m = length es div 2"
  have m: "m < length es" by (simp add: m_def es_def vec_insert_def)
  from cut[of i] i(2) have ok: "\<forall>e \<in> set es. entry_ok e" "entries_size (take m es) \<le> 4072" "entries_size (drop (m + 1) es) \<le> 4072"
    by (simp_all add: es_def m_def Let_def)
  have ok': "\<forall>e \<in> set (take m es). entry_ok e" "\<forall>e \<in> set (drop (m + 1) es). entry_ok e"
    using ok(1) by (meson in_set_takeD in_set_dropD)+
  have len: "length (rest ?n) = 4072" using wf by (simp add: bp_wf_def)
  obtain nl where nl: "append_all (reset_leaf_parent ?n (lowest ?n)) 1 (map leaf_ptr (take m es)) = (Inr (), nl)"
    "bp_wf nl" "leaf_entries nl = take m es" "lowest nl = lowest ?n"
    by (rule rebuild_node[OF len ok'(1) ok(2)])
  obtain nr where nr: "append_all (reset_leaf_parent BPNode_blank (snd (es ! m))) 1 (map leaf_ptr (drop (m + 1) es)) = (Inr (), nr)"
    "bp_wf nr" "leaf_entries nr = drop (m + 1) es" "lowest nr = snd (es ! m)"
    by (rule rebuild_node[OF blank_reset ok'(2) ok(3)])
  obtain j ta where a: "alloc_inner_node t = (Inr j, ta)" "unat j = node_next_free t"
    "slab ta = (slab t)[unat j := BPNode_blank]"
    by (rule alloc_inner_node_room[OF assms(3-5)])
  have j: "unat j < length (slab t)" "unat j \<noteq> unat node" using a(2) assms(3,4) ne by simp_all
  have gn: "get_node ta node = ?n" using a(3) j by (simp add: get_node_def)
  let ?t' = "set_node (set_node ta node nl) j nr"
  have gr: "get_node (set_node ta node nl) j = BPNode_blank"
    using a(3) j b by (simp add: get_node_def set_node_def)
  have fin: "get_node ?t' node = nl" "get_node ?t' j = nr"
    using a(3) j b by (simp_all add: get_node_def set_node_def)
  have "split_inner_node t node 1 (ChildLeaf l) pivot (ChildLeaf r) = (Inr (fst (es ! m), j), ?t')"
  proof -
    define ps where "ps = vec_insert i (pivot, ChildLeaf r) (map leaf_ptr ?es)"
    have ps: "ps = map leaf_ptr es" by (simp add: ps_def es_def map_vec_insert)
    have lp: "length ps div 2 = m" by (simp add: ps m_def)
    have pm: "ps ! m = (fst (es ! m), ChildLeaf (snd (es ! m)))"
      using m by (simp add: ps leaf_ptr_def split_beta)
    have cuts: "take m (vec_remove m ps) = map leaf_ptr (take m es)" "drop m (vec_remove m ps) = map leaf_ptr (drop (m + 1) es)"
      using vec_remove_cut[of m "map leaf_ptr es"] m by (simp_all add: ps take_map drop_map)
    show ?thesis
      by (simp add: split_inner_node_def lowest_child_for_level_def reset_for_level_def Let_def ps_def[symmetric] lp pm cuts
        collect_leaf_entries[OF wf, unfolded One_nat_def] i(1) a(1) gn gr nl(1)[unfolded One_nat_def]
        nr(1)[unfolded One_nat_def add_Suc_right add_0_right])
  qed
  with i(2,3) nl(2-4) nr(2-4) fin show thesis
    by (intro that[OF _ _ es_def m_def, of j ?t']) (simp_all add: node_children_def)
qed

text \<open>C11: The split of a parent of leaves keeps the routing: when the pivots are sorted, the
  children distinct and there is room for a node, the split succeeds even on a full node, both halves
  are well-formed and sorted, and a key that is below the promoted key is found in the left half,
  another one in the right half, where the pivot was inserted as it would be in a single node.\<close>

theorem split_inner_routes:
  assumes "bp_wf (get_node t node)" and "key_sorted (leaf_entries (get_node t node))"
    and "distinct (node_children (get_node t node))" and "2 \<le> bp_count (get_node t node)"
    and "\<forall>e \<in> set ((pivot, r) # leaf_entries (get_node t node)). entry_ok e"
    and "search_for_leaf (get_node t node) pivot = Inr l" and "pivot \<notin> fst ` set (leaf_entries (get_node t node))"
    and "entries_size (leaf_entries (get_node t node)) \<le> 4072"
    and "node_next_free t < cap t" and "cap t = length (slab t)" and "cap t \<le> 2 ^ 32"
    and "unat node \<noteq> node_next_free t" and "unat node < length (slab t)"
  shows "\<exists>pk right t'. split_inner_node t node 1 (ChildLeaf l) pivot (ChildLeaf r) = (Inr (pk, right), t') \<and>
    bp_wf (get_node t' node) \<and> key_sorted (leaf_entries (get_node t' node)) \<and>
    bp_wf (get_node t' right) \<and> key_sorted (leaf_entries (get_node t' right)) \<and>
    (\<forall>key. search_for_leaf (get_node t' (if key < pk then node else right)) key =
      (if search_for_leaf (get_node t node) key = Inr l \<and> pivot \<le> key then Inr r
       else search_for_leaf (get_node t node) key))"
proof -
  let ?n = "get_node t node" and ?es = "leaf_entries (get_node t node)"
  have R: "search_for_leaf ?n key = Inr (route (lowest ?n) ?es key)" for key
    using search_for_leaf_route[OF assms(1,2)] assms(4) by simp
  have l: "route (lowest ?n) ?es pivot = l" using R[of pivot] assms(6) by simp
  have "child_index ?es pivot \<le> bp_count ?n" using child_index_le[of ?es pivot] by simp
  then have "l \<in> set (node_children ?n)"
    using l nth_mem[of "child_index ?es pivot" "node_children ?n"] by (simp add: route_def node_children_def)
  then obtain i es m right t' where s: "i \<le> bp_count ?n" "node_children ?n ! i = l"
    "es = vec_insert i (pivot, r) ?es" "m = length es div 2"
    "split_inner_node t node 1 (ChildLeaf l) pivot (ChildLeaf r) = (Inr (fst (es ! m), right), t')"
    "bp_wf (get_node t' node)" "leaf_entries (get_node t' node) = take m es" "lowest (get_node t' node) = lowest ?n"
    "bp_wf (get_node t' right)" "leaf_entries (get_node t' right) = drop (m + 1) es"
    "lowest (get_node t' right) = snd (es ! m)"
  proof (rule split_inner_node_reduces[OF assms(1) _ assms(9-13), where pivot = pivot and r = r])
    fix i assume "i \<le> bp_count ?n"
    have "length pivot \<le> 64" using assms(5) by (simp add: entry_ok_def)
    then show "let es = vec_insert i (pivot, r) ?es; m = length es div 2
      in (\<forall>e \<in> set es. entry_ok e) \<and> entries_size (take m es) \<le> 4072 \<and> entries_size (drop (m + 1) es) \<le> 4072"
      using halves_fit[OF _ _ refl, of "vec_insert i (pivot, r) ?es"] assms(5,8)
      by (simp add: Let_def set_vec_insert entries_size_vec_insert)
  qed
  have i: "i = child_index ?es pivot"
    using nth_eq_iff_index_eq[OF assms(3), of i "child_index ?es pivot"] s(1,2) l child_index_le[of ?es pivot]
    by (simp add: route_def node_children_def)
  have so: "key_sorted es" unfolding s(3) i by (rule key_sorted_insert[OF assms(2,7)])
  have len: "length es = bp_count ?n + 1" using s(1) by (simp add: s(3) vec_insert_def)
  then have m: "0 < m" "m + 1 < length es" using assms(4) s(4) by simp_all
  have sh: "key_sorted (take m es)" "key_sorted (drop (m + 1) es)"
    using so by (simp_all add: take_map[symmetric] drop_map[symmetric] sorted_wrt_take sorted_wrt_drop)
  have cnt: "0 < bp_count (get_node t' node)" "0 < bp_count (get_node t' right)"
    using m s(7,10) length_leaf_entries[of "get_node t' node"] length_leaf_entries[of "get_node t' right"] by simp_all
  have "search_for_leaf (get_node t' (if key < fst (es ! m) then node else right)) key = Inr (route (lowest ?n) es key)" for key
    using search_for_leaf_route[OF s(6) _ cnt(1), of key] search_for_leaf_route[OF s(9) _ cnt(2), of key]
      route_cut[OF so, of m "lowest ?n" key] m sh by (simp add: s(7,8,10,11))
  moreover have "route (lowest ?n) es key = (if route (lowest ?n) ?es key = l \<and> pivot \<le> key then r else route (lowest ?n) ?es key)" for key
    unfolding s(3) i by (rule route_insert) (use assms(3) l in \<open>simp_all add: node_children_def\<close>)
  ultimately show ?thesis
    using s(5,6,9) sh by (intro exI[of _ "fst (es ! m)"] exI[of _ right] exI[of _ t']) (simp add: R s(7,10))
qed

section \<open>Witnesses\<close>

text \<open>A new tree of three nodes whose root is the leaf page 7.\<close>

definition small_tree :: BPTree where
  "small_tree = \<lparr>slab = [BPNode_blank, BPNode_blank, BPNode_blank], cap = 3, root = 7, root_vlock = 0,
    node_next_free = 1, node_free_list = - 1\<rparr>"

lemma small_tree_new:
  "BPTree_new [BPNode_blank, BPNode_blank, BPNode_blank] 3 = Inr (small_tree\<lparr>root := 0\<rparr>)"
  by (simp add: BPTree_new_def small_tree_def)

lemma small_tree_locks: "lock_state small_tree {} False"
  by (auto simp: small_tree_def lock_state_def BPNode_blank_def less_Suc_eq numeral_3_eq_3)

lemma small_tree_root: "get_root small_tree = RootLeaf 7"
  by (simp add: get_root_def small_tree_def)

theorem write_lock_releases_witness:
  "lock_state (released (fst (write_lock small_tree PointRoot OpSplit [5])) (snd (write_lock small_tree PointRoot OpSplit [5]))) {} False"
  by (rule write_lock_releases[OF small_tree_locks, of PointRoot OpSplit "[5]"]) simp_all

theorem leaf_root_split_cycle_witness:
  "\<exists>b t1 t2 res. write_lock small_tree PointRoot OpSplit [5] = (Inr b, t1) \<and>
    promote_leaf_root t1 7 8 [5] = (Inr (), t2) \<and> read_traverse_leaf (bundle_drop b t2) [9] = Inr res \<and> read_page res = 8"
proof -
  have "uint (root_vlock small_tree) + 2 < 2 ^ 64" "node_next_free small_tree < cap small_tree"
    "cap small_tree = length (slab small_tree)" "cap small_tree \<le> 2 ^ 32" "entry_ok ([5], 8)"
    by (simp_all add: small_tree_def entry_ok_def)
  from leaf_root_split_cycle[OF small_tree_locks small_tree_root this, of "[5]"] obtain b t1 t2 where
    1: "write_lock small_tree PointRoot OpSplit [5] = (Inr b, t1)" "promote_leaf_root t1 7 8 [5] = (Inr (), t2)"
    "\<forall>k. \<exists>res. read_traverse_leaf (bundle_drop b t2) k = Inr res \<and> read_page res = (if k < [5] then 7 else 8)" by blast
  from 1(3)[rule_format, of "[9]"] 1(1,2) show ?thesis by auto
qed

theorem tree_height_at_most_one_witness:
  "\<exists>t. tree_step\<^sup>*\<^sup>* (small_tree\<lparr>root := 0\<rparr>) t \<and> get_root t = RootInner 1 1 \<and> root_height t \<le> 1"
proof -
  let ?new = "small_tree\<lparr>root := 0\<rparr>" and ?t = "snd (promote_leaf_root (small_tree\<lparr>root := 0\<rparr>) 7 8 [5])"
  have "tree_step ?new ?t" by (rule tree_step.promote_leaf)
  then have st: "tree_step\<^sup>*\<^sup>* ?new ?t" by (rule r_into_rtranclp)
  obtain n where n: "init_leaf_parent BPNode_blank 7 8 [5] = (Inr (), n)"
    by (rule init_leaf_parent_spec[OF blank_reset, of "[5]" 8 7]) (simp add: entry_ok_def)
  have "?t = root_set_inner (set_node (snd (alloc_inner_node ?new)) 1 n) 1 1"
    using n by (simp add: promote_leaf_root_def alloc_inner_node_def small_tree_def get_node_def set_node_def Let_def)
  then have "get_root ?t = RootInner 1 1"
    by (simp only: get_root_inner)
  with st tree_height_at_most_one[OF small_tree_new st] show ?thesis by blast
qed

theorem split_inner_routes_witness:
  "\<exists>t t' pk right. leaf_entries (get_node t 1) = [([5], 2), ([7], 4)] \<and>
    split_inner_node t 1 1 (ChildLeaf 2) [6] (ChildLeaf 3) = (Inr (pk, right), t') \<and>
    search_for_leaf (get_node t' (if [6, 1] < pk then 1 else right)) [6, 1] = Inr 3"
proof -
  let ?es = "[([5], 2), ([7], 4)] :: (bytes \<times> u64) list"
  have ok: "\<forall>e \<in> set (([6], 3) # ?es). entry_ok e" by (simp add: entry_ok_def)
  obtain n where n: "bp_wf n" "leaf_entries n = ?es" "lowest n = 1" "bp_count n = length ?es"
    by (rule node_with_entries[of ?es 1]) (use ok in simp_all)
  define t where "t = small_tree\<lparr>slab := [BPNode_blank, n, BPNode_blank], node_next_free := 2\<rparr>"
  have g: "get_node t 1 = n" by (simp add: t_def get_node_def)
  have so: "key_sorted ?es" by simp
  have R: "search_for_leaf n k = Inr (route 1 ?es k)" for k
    using search_for_leaf_route[OF n(1), of k] n so by simp
  have p: "search_for_leaf n [6] = Inr 2" "search_for_leaf n [6, 1] = Inr 2"
    by (simp_all add: R route_def child_index_def)
  have "node_next_free t < cap t" "cap t = length (slab t)" "cap t \<le> 2 ^ 32" "unat (1 :: u32) \<noteq> node_next_free t"
    "unat (1 :: u32) < length (slab t)"
    by (simp_all add: t_def small_tree_def)
  note split = split_inner_routes[of t 1 "[6]" 3 2, unfolded g n(2), OF n(1) so _ _ ok p(1) _ _ this]
  have "distinct (node_children n)" "2 \<le> bp_count n" "[6] \<notin> fst ` set ?es" "entries_size ?es \<le> 4072"
    using n by (simp_all add: node_children_def)
  from split[OF this] obtain pk right t' where
    "split_inner_node t 1 1 (ChildLeaf 2) [6] (ChildLeaf 3) = (Inr (pk, right), t')"
    "\<forall>key. search_for_leaf (get_node t' (if key < pk then 1 else right)) key =
        (if search_for_leaf n key = Inr 2 \<and> [6] \<le> key then Inr 3 else search_for_leaf n key)"
    by blast
  with p(2) g n(2) show ?thesis by (intro exI[of _ t] exI[of _ t'] exI[of _ pk] exI[of _ right]) simp
qed

end
