(* ===== verification/Config.thy ===== *)
theory Config
  imports Prelude
begin

text \<open>
  lib.rs, the configuration: defaults, the overrides from the environment and from the command
  line, and the order in which \<open>QuickStep::new\<close> applies them.  The environment is a function from
  names to values and the command line a list of strings.  A \<open>usize\<close> is a natural number below
  \<open>2 ^ 64\<close>.
\<close>

section \<open>Configuration\<close>

definition DEFAULT_WAL_LEAF_CHECKPOINT_THRESHOLD :: nat where "DEFAULT_WAL_LEAF_CHECKPOINT_THRESHOLD = 32"
definition DEFAULT_WAL_GLOBAL_RECORD_THRESHOLD :: nat where "DEFAULT_WAL_GLOBAL_RECORD_THRESHOLD = 1024"
definition DEFAULT_WAL_GLOBAL_BYTE_THRESHOLD :: nat where "DEFAULT_WAL_GLOBAL_BYTE_THRESHOLD = 512 * 1024"

definition ENV_WAL_LEAF_THRESHOLD :: string where
  "ENV_WAL_LEAF_THRESHOLD = ''QUICKSTEP_WAL_LEAF_THRESHOLD''"
definition ENV_WAL_GLOBAL_RECORD_THRESHOLD :: string where
  "ENV_WAL_GLOBAL_RECORD_THRESHOLD = ''QUICKSTEP_WAL_GLOBAL_RECORD_THRESHOLD''"
definition ENV_WAL_GLOBAL_BYTE_THRESHOLD :: string where
  "ENV_WAL_GLOBAL_BYTE_THRESHOLD = ''QUICKSTEP_WAL_GLOBAL_BYTE_THRESHOLD''"
definition CLI_WAL_LEAF_THRESHOLD :: string where
  "CLI_WAL_LEAF_THRESHOLD = ''--quickstep-wal-leaf-threshold''"
definition CLI_WAL_GLOBAL_RECORD_THRESHOLD :: string where
  "CLI_WAL_GLOBAL_RECORD_THRESHOLD = ''--quickstep-wal-global-record-threshold''"
definition CLI_WAL_GLOBAL_BYTE_THRESHOLD :: string where
  "CLI_WAL_GLOBAL_BYTE_THRESHOLD = ''--quickstep-wal-global-byte-threshold''"

record QuickStepConfig =
  cfg_path :: string
  inner_node_upper_bound :: u32
  leaf_upper_bound :: u64
  cache_size_lg :: nat
  cfg_leaf_checkpoint_threshold :: nat
  cfg_global_record_threshold :: nat
  cfg_global_byte_threshold :: nat

definition QuickStepConfig_new :: "string \<Rightarrow> u32 \<Rightarrow> u64 \<Rightarrow> nat \<Rightarrow> QuickStepConfig" where
  "QuickStepConfig_new path inner leaf cache =
    \<lparr>cfg_path = path, inner_node_upper_bound = inner, leaf_upper_bound = leaf, cache_size_lg = cache,
     cfg_leaf_checkpoint_threshold = DEFAULT_WAL_LEAF_CHECKPOINT_THRESHOLD,
     cfg_global_record_threshold = DEFAULT_WAL_GLOBAL_RECORD_THRESHOLD,
     cfg_global_byte_threshold = DEFAULT_WAL_GLOBAL_BYTE_THRESHOLD\<rparr>"

definition with_wal_thresholds :: "QuickStepConfig \<Rightarrow> nat \<Rightarrow> nat \<Rightarrow> nat \<Rightarrow> QuickStepConfig" where
  "with_wal_thresholds cfg leaf_checkpoint global_record global_bytes =
    cfg\<lparr>cfg_leaf_checkpoint_threshold := leaf_checkpoint, cfg_global_record_threshold := global_record,
      cfg_global_byte_threshold := global_bytes\<rparr>"

definition wal_thresholds :: "QuickStepConfig \<Rightarrow> nat \<times> nat \<times> nat" where
  "wal_thresholds cfg =
    (cfg_leaf_checkpoint_threshold cfg, cfg_global_record_threshold cfg, cfg_global_byte_threshold cfg)"

section \<open>Numbers\<close>

text \<open>\<open>str::parse::<usize>\<close>: decimal digits behind an optional plus sign, without overflow.\<close>

definition digit_value :: "char \<Rightarrow> nat option" where
  "digit_value c = (if 48 \<le> (of_char c :: nat) \<and> (of_char c :: nat) \<le> 57 then Some (of_char c - 48) else None)"

fun parse_digits :: "nat \<Rightarrow> string \<Rightarrow> nat option" where
  "parse_digits acc [] = Some acc"
| "parse_digits acc (c # cs) =
    (case digit_value c of
       None \<Rightarrow> None
     | Some d \<Rightarrow> if acc * 10 + d < 2 ^ 64 then parse_digits (acc * 10 + d) cs else None)"

definition parse_usize :: "string \<Rightarrow> nat option" where
  "parse_usize s =
    (let ds = (case s of c # cs \<Rightarrow> if c = CHR ''+'' then cs else s | [] \<Rightarrow> s)
     in if ds = [] then None else parse_digits 0 ds)"

section \<open>Overrides\<close>

definition read_env_usize :: "(string \<Rightarrow> string option) \<Rightarrow> string \<Rightarrow> nat option" where
  "read_env_usize env key = Option.bind (env key) parse_usize"

definition with_env_overrides :: "(string \<Rightarrow> string option) \<Rightarrow> QuickStepConfig \<Rightarrow> QuickStepConfig" where
  "with_env_overrides env cfg =
    (let cfg = (case read_env_usize env ENV_WAL_LEAF_THRESHOLD of
                  None \<Rightarrow> cfg | Some val \<Rightarrow> cfg\<lparr>cfg_leaf_checkpoint_threshold := val\<rparr>);
         cfg = (case read_env_usize env ENV_WAL_GLOBAL_RECORD_THRESHOLD of
                  None \<Rightarrow> cfg | Some val \<Rightarrow> cfg\<lparr>cfg_global_record_threshold := val\<rparr>)
     in case read_env_usize env ENV_WAL_GLOBAL_BYTE_THRESHOLD of
          None \<Rightarrow> cfg | Some val \<Rightarrow> cfg\<lparr>cfg_global_byte_threshold := val\<rparr>)"

definition strip_prefix :: "string \<Rightarrow> string \<Rightarrow> string option" where
  "strip_prefix pre s = (if take (length pre) s = pre then Some (drop (length pre) s) else None)"

text \<open>The value of an option and the arguments that are left; the option may take the next one.\<close>

definition parse_cli_override :: "string \<Rightarrow> string \<Rightarrow> string list \<Rightarrow> nat option \<times> string list" where
  "parse_cli_override token flag iter =
    (case Option.bind (strip_prefix flag token) (strip_prefix ''='') of
       Some value \<Rightarrow> (parse_usize value, iter)
     | None \<Rightarrow>
         if token = flag then
           (case iter of [] \<Rightarrow> (None, iter) | next # iter \<Rightarrow> (parse_usize next, iter))
         else (None, iter))"

lemma parse_cli_override_length: "(r, iter') = parse_cli_override token flag iter \<Longrightarrow> length iter' \<le> length iter"
  by (auto simp: parse_cli_override_def split: option.splits list.splits if_splits)

function with_cli_overrides :: "QuickStepConfig \<Rightarrow> string list \<Rightarrow> QuickStepConfig" where
  "with_cli_overrides cfg [] = cfg"
| "with_cli_overrides cfg (token # iter) =
    (let (r1, iter1) = parse_cli_override token CLI_WAL_LEAF_THRESHOLD iter in
     case r1 of
       Some value \<Rightarrow> with_cli_overrides (cfg\<lparr>cfg_leaf_checkpoint_threshold := value\<rparr>) iter1
     | None \<Rightarrow>
         let (r2, iter2) = parse_cli_override token CLI_WAL_GLOBAL_RECORD_THRESHOLD iter1 in
         case r2 of
           Some value \<Rightarrow> with_cli_overrides (cfg\<lparr>cfg_global_record_threshold := value\<rparr>) iter2
         | None \<Rightarrow>
             let (r3, iter3) = parse_cli_override token CLI_WAL_GLOBAL_BYTE_THRESHOLD iter2 in
             case r3 of
               Some value \<Rightarrow> with_cli_overrides (cfg\<lparr>cfg_global_byte_threshold := value\<rparr>) iter3
             | None \<Rightarrow> with_cli_overrides cfg iter3)"
  by pat_completeness auto

termination
  by (relation "measure (\<lambda>(cfg, args). length args)") (auto dest!: parse_cli_override_length)

text \<open>What \<open>QuickStep::new\<close> does first; \<open>args\<close> are the arguments behind the program name.\<close>

definition effective_config :: "(string \<Rightarrow> string option) \<Rightarrow> string list \<Rightarrow> QuickStepConfig \<Rightarrow> QuickStepConfig" where
  "effective_config env args cfg = with_cli_overrides (with_env_overrides env cfg) args"

section \<open>Paths\<close>

text \<open>
  A path is the list of its components; the root directory is the component \<open>/\<close>.  As in the
  standard library, empty components and those that name the current directory are left out,
  except at the start.
\<close>

type_synonym Path = "string list"

fun split_path :: "string \<Rightarrow> string list" where
  "split_path [] = [[]]"
| "split_path (c # cs) =
    (if c = CHR ''/'' then [] # split_path cs
     else case split_path cs of [] \<Rightarrow> [[c]] | w # ws \<Rightarrow> (c # w) # ws)"

definition components :: "string \<Rightarrow> Path" where
  "components s =
    (case split_path s of
       [] \<Rightarrow> []
     | w # ws \<Rightarrow>
         (if w \<noteq> [] then [w] else if ws \<noteq> [] then [''/''] else []) @ filter (\<lambda>c. c \<noteq> [] \<and> c \<noteq> ''.'') ws)"

definition file_name :: "Path \<Rightarrow> string option" where
  "file_name p = (if p = [] \<or> last p \<in> {''/'', ''.'', ''..''} then None else Some (last p))"

text \<open>A name in two parts at its last dot; a dot at the start does not count.\<close>

definition split_dot :: "string \<Rightarrow> string \<times> string option" where
  "split_dot name =
    (let ext = takeWhile (\<lambda>c. c \<noteq> CHR ''.'') (rev name);
         stem = drop (length ext + 1) (rev name)
     in if stem = [] then (name, None) else (rev stem, Some (rev ext)))"

definition path_extension :: "Path \<Rightarrow> string option" where
  "path_extension p = Option.bind (file_name p) (\<lambda>name. snd (split_dot name))"

definition set_extension :: "Path \<Rightarrow> string \<Rightarrow> Path" where
  "set_extension p ext =
    (case file_name p of None \<Rightarrow> p | Some name \<Rightarrow> butlast p @ [fst (split_dot name) @ ''.'' @ ext])"

definition resolve_data_path :: "(Path \<Rightarrow> bool) \<Rightarrow> Path \<Rightarrow> Path" where
  "resolve_data_path is_dir p = (if is_dir p \<or> path_extension p = None then p @ [''quickstep.db''] else p)"

definition wal_path_for :: "Path \<Rightarrow> Path" where
  "wal_path_for data_path = set_extension data_path ''wal''"

section \<open>Printing numbers\<close>

fun print_nat :: "nat \<Rightarrow> string" where
  "print_nat n = (if n < 10 then [char_of (48 + n)] else print_nat (n div 10) @ [char_of (48 + n mod 10)])"

declare print_nat.simps [simp del]

lemma digit_value_char: "d < 10 \<Longrightarrow> digit_value (char_of (48 + d)) = Some d"
  by (simp add: digit_value_def)

lemma print_nat_not_Nil: "print_nat n \<noteq> []"
  by (subst print_nat.simps) simp

lemma parse_digits_append:
  "parse_digits acc (xs @ ys) = Option.bind (parse_digits acc xs) (\<lambda>a. parse_digits a ys)"
  by (induction xs arbitrary: acc) (auto split: option.split)

lemma parse_digits_print: "n < 2 ^ 64 \<Longrightarrow> parse_digits 0 (print_nat n) = Some n"
proof (induction n rule: print_nat.induct)
  case (1 n)
  show ?case
  proof (cases "n < 10")
    case True
    then show ?thesis by (subst print_nat.simps) (simp add: digit_value_char)
  next
    case False
    have "parse_digits 0 (print_nat (n div 10)) = Some (n div 10)"
      using "1.IH"[OF False] "1.prems" by simp
    moreover have "n div 10 * 10 + n mod 10 = n" by simp
    ultimately show ?thesis
      using False "1.prems" by (subst print_nat.simps) (simp add: parse_digits_append digit_value_char)
  qed
qed

lemma hd_print_nat: "\<exists>(d :: nat) cs. d < 10 \<and> print_nat n = char_of (48 + d) # cs"
proof (induction n rule: print_nat.induct)
  case (1 n)
  then show ?case
    by (subst print_nat.simps) (cases "n < 10", auto)
qed

lemma parse_print_usize: "n < 2 ^ 64 \<Longrightarrow> parse_usize (print_nat n) = Some n"
proof -
  assume n: "n < 2 ^ 64"
  obtain d :: nat and cs where d: "d < 10" "print_nat n = char_of (48 + d) # cs" using hd_print_nat by blast
  have "char_of (48 + d) \<noteq> CHR ''+''"
  proof
    assume "char_of (48 + d) = CHR ''+''"
    from arg_cong[OF this, of "of_char :: char \<Rightarrow> nat"] d(1) show False by simp
  qed
  with parse_digits_print[OF n] d(2) show ?thesis by (simp add: parse_usize_def)
qed

section \<open>Properties\<close>

lemma strip_prefix_append [simp]: "strip_prefix f (f @ s) = Some s"
  by (simp add: strip_prefix_def)



text \<open>An option whose value is missing swallows the option that follows it.\<close>

lemma option_swallows_next:
  "wal_thresholds (with_cli_overrides (QuickStepConfig_new ''db'' 4 8 16)
    [CLI_WAL_LEAF_THRESHOLD, CLI_WAL_GLOBAL_RECORD_THRESHOLD, ''9'']) =
    wal_thresholds (QuickStepConfig_new ''db'' 4 8 16)"
  by (simp add: parse_cli_override_def strip_prefix_def CLI_WAL_LEAF_THRESHOLD_def CLI_WAL_GLOBAL_RECORD_THRESHOLD_def
      CLI_WAL_GLOBAL_BYTE_THRESHOLD_def parse_usize_def digit_value_def)

section \<open>Paths\<close>

lemma split_dot_cases:
  obtains (plain) "split_dot name = (name, None)" | (dot) stem ext where "split_dot name = (stem, Some ext)" "name = stem @ ''.'' @ ext"
proof -
  let ?e = "takeWhile (\<lambda>c. c \<noteq> CHR ''.'') (rev name)"
  let ?d = "dropWhile (\<lambda>c. c \<noteq> CHR ''.'') (rev name)"
  have d: "rev name = ?e @ ?d" by simp
  have dr: "drop (length ?e + 1) (rev name) = tl ?d" by (subst d, simp only: drop_append) (simp add: drop_Suc)
  have sd: "split_dot name = (if tl ?d = [] then (name, None) else (rev (tl ?d), Some (rev ?e)))"
    by (simp only: split_dot_def Let_def dr)
  show thesis
  proof (cases "tl ?d")
    case Nil
    then show thesis by (intro plain) (simp only: sd if_True simp_thms)
  next
    case (Cons c cs)
    then have ne: "?d \<noteq> []" by (cases ?d) simp_all
    then have h: "hd ?d = CHR ''.''" using hd_dropWhile[OF ne] by simp
    have "name = rev (?e @ hd ?d # tl ?d)" using d ne by (metis list.collapse rev_rev_ident)
    then have "name = rev (tl ?d) @ ''.'' @ rev ?e" by (simp add: h)
    moreover have "split_dot name = (rev (tl ?d), Some (rev ?e))"
      using Cons by (simp only: sd) simp
    ultimately show thesis by (intro dot)
  qed
qed

lemma file_name_resolve:
  obtains name where "file_name (resolve_data_path is_dir p) = Some name" "last (resolve_data_path is_dir p) = name"
    "resolve_data_path is_dir p \<noteq> []"
proof (cases "is_dir p \<or> path_extension p = None")
  case True
  then show thesis by (intro that[of "''quickstep.db''"]) (simp_all add: resolve_data_path_def file_name_def)
next
  case False
  then obtain name where "file_name p = Some name" by (cases "file_name p") (auto simp: path_extension_def)
  with False that[of name] show thesis by (auto simp: resolve_data_path_def file_name_def split: if_splits)
qed

text \<open>The log and the data are different files exactly when the data file does not have the
  extension of the log: for every configured path, the path of the log is the path of the data
  file if and only if that one ends in \<open>.wal\<close>.\<close>

theorem log_path_clash:
  "wal_path_for (resolve_data_path is_dir (components path)) = resolve_data_path is_dir (components path) \<longleftrightarrow>
    path_extension (resolve_data_path is_dir (components path)) = Some ''wal''"
proof -
  let ?p = "resolve_data_path is_dir (components path)"
  obtain name where n: "file_name ?p = Some name" "last ?p = name" "?p \<noteq> []" by (rule file_name_resolve)
  have "butlast ?p @ [x] = ?p \<longleftrightarrow> x = name" for x
    using append_butlast_last_id[OF n(3)] n(2) by (metis last_snoc)
  then have w: "wal_path_for ?p = ?p \<longleftrightarrow> fst (split_dot name) @ ''.'' @ ''wal'' = name"
    by (simp add: wal_path_for_def set_extension_def n(1))
  show ?thesis
    unfolding w path_extension_def n(1)
    by (cases name rule: split_dot_cases) auto
qed

end
