(* ===== verification/Database.thy ===== *)
theory Database
  imports BTree Cache_Evict Config
begin

text \<open>
  lib.rs, the database: the state of \<open>QuickStep\<close>, its construction with the recovery from the
  log, and the operations that read pages without a transaction.  The background thread only sets
  the flag \<open>wal_checkpoint_requested\<close>; \<open>watchdog\<close> is one round of it.  \<open>QuickStep_new\<close> takes the
  contents of the two files, \<open>QuickStep_open\<close> the file system they are found in.
\<close>

section \<open>State\<close>

text \<open>
  The counters of debug.rs belong to the process; \<open>debug_state\<close> is what the operations of this
  database have recorded since it was opened.
\<close>

record Db =
  inner_nodes :: BPTree
  cache :: MiniPageBuffer
  io_engine :: IoEngine
  map_table :: MapTable
  wal :: WalState
  wal_leaf_checkpoint_threshold :: nat
  wal_global_record_threshold :: nat
  wal_global_byte_threshold :: nat
  wal_checkpoint_requested :: bool
  wal_checkpoint_stop :: bool
  wal_checkpoint_thread :: bool
  next_txn_id :: u64
  debug_state :: Debug

definition AUTO_MERGE_MIN_ENTRIES :: nat where "AUTO_MERGE_MIN_ENTRIES = 3"

text \<open>One round of the background thread, which ends when the database is dropped.\<close>

definition watchdog :: "Db \<Rightarrow> Db" where
  "watchdog d =
    (if \<not> wal_checkpoint_thread d \<or> wal_checkpoint_stop d then d
     else if wal_global_record_threshold d \<le> total_records (wal d) \<or> wal_global_byte_threshold d \<le> total_bytes (wal d)
     then d\<lparr>wal_checkpoint_requested := True\<rparr> else d)"

definition QuickStep_drop :: "Db \<Rightarrow> Db" where
  "QuickStep_drop d = d\<lparr>wal_checkpoint_stop := True, wal_checkpoint_thread := False\<rparr>"

section \<open>The records of a page\<close>

definition collect_user_records :: "bytes \<Rightarrow> (bytes \<times> bytes) list result" where
  "collect_user_records p =
    (case get_node_prefix p of
       Inl e \<Rightarrow> Inl e
     | Inr pre \<Rightarrow>
         Inr (map (\<lambda>entry. (pre @ key_suffix entry, entry_value entry))
           (filter (\<lambda>entry. \<not> KVMeta_fence (entry_meta entry)) (entries p))))"

definition collect_user_keys :: "bytes \<Rightarrow> bytes list result" where
  "collect_user_keys p =
    (case get_node_prefix p of
       Inl e \<Rightarrow> Inl e
     | Inr pre \<Rightarrow>
         Inr (map (\<lambda>entry. pre @ key_suffix entry)
           (filter (\<lambda>entry. \<not> KVMeta_fence (entry_meta entry)) (entries p))))"

definition collect_fence_keys :: "bytes \<Rightarrow> (bytes \<times> bytes) result" where
  "collect_fence_keys p =
    (if record_count p < 2 then Inl (Panic PanicAssert)
     else
       let lower_meta = get_kv_meta p 0;
           upper_meta = get_kv_meta p (record_count p - 1)
       in
         if KVMeta_fence lower_meta \<and> KVMeta_fence upper_meta
         then if key_in_page p lower_meta \<and> key_in_page p upper_meta
              then Inr (get_stored_key_from_meta p lower_meta, get_stored_key_from_meta p upper_meta)
              else Inl UndefinedBehaviour
         else Inl (Panic PanicAssert))"

definition records_between :: "bytes \<Rightarrow> bytes \<Rightarrow> bytes \<Rightarrow> (bytes \<times> bytes) list result" where
  "records_between p lower upper =
    (case collect_user_records p of
       Inl e \<Rightarrow> Inl e
     | Inr rs \<Rightarrow> Inr (filter (\<lambda>(key, _). lower \<le> key \<and> key < upper) rs))"

section \<open>Reading pages\<close>

text \<open>The page behind a reference, in the cache or on disk.\<close>

definition page_of_ref :: "Db \<Rightarrow> NodeRef \<Rightarrow> bytes result" where
  "page_of_ref d r =
    (case r of
       MiniPage index \<Rightarrow> Inr (get_meta_ref (cache d) index)
     | Leaf addr \<Rightarrow> get_page (io_engine d) addr)"

text \<open>
  A read guard of the page table around a computation, released at the end of the scope.  A page
  outside the table is an invalid pointer.
\<close>

definition with_read_guard :: "Db \<Rightarrow> u64 \<Rightarrow> (NodeRef \<Rightarrow> 'a result) \<Rightarrow> 'a result \<times> Db" where
  "with_read_guard d page f =
    (if MapTable_capacity (map_table d) \<le> unat page then (Inl UndefinedBehaviour, d)
     else
       case read_page_entry (map_table d) (unat page) of
         (Inl e, mt) \<Rightarrow> (Inl e, d\<lparr>map_table := mt\<rparr>)
       | (Inr node, mt) \<Rightarrow>
           (f (PageEntry_get_ref node), d\<lparr>map_table := drop_guard mt (Read page node)\<rparr>))"

record DebugLeafSnapshot =
  snapshot_page_id :: u64
  snapshot_disk_addr :: u64
  snapshot_keys :: "bytes list"

text \<open>The disk address a snapshot reports: the one in the header of a mini-page.\<close>

definition disk_addr_of_ref :: "Db \<Rightarrow> NodeRef \<Rightarrow> u64" where
  "disk_addr_of_ref d r =
    (case r of MiniPage index \<Rightarrow> NodeMeta_leaf (node_header (get_meta_ref (cache d) index)) | Leaf addr \<Rightarrow> addr)"

definition debug_leaf_snapshot :: "Db \<Rightarrow> u64 \<Rightarrow> DebugLeafSnapshot result \<times> Db" where
  "debug_leaf_snapshot d page_id =
    with_read_guard d page_id (\<lambda>r.
      case page_of_ref d r of
        Inl e \<Rightarrow> Inl e
      | Inr p \<Rightarrow>
          case collect_user_keys p of
            Inl e \<Rightarrow> Inl e
          | Inr ks \<Rightarrow>
              Inr \<lparr>snapshot_page_id = page_id, snapshot_disk_addr = disk_addr_of_ref d r, snapshot_keys = ks\<rparr>)"

record DebugLeafFences =
  fences_page_id :: u64
  fences_disk_addr :: u64
  fences_lower :: bytes
  fences_upper :: bytes

definition debug_leaf_fences :: "Db \<Rightarrow> u64 \<Rightarrow> DebugLeafFences result \<times> Db" where
  "debug_leaf_fences d page_id =
    with_read_guard d page_id (\<lambda>r.
      case page_of_ref d r of
        Inl e \<Rightarrow> Inl e
      | Inr p \<Rightarrow>
          case collect_fence_keys p of
            Inl e \<Rightarrow> Inl e
          | Inr (lower, upper) \<Rightarrow>
              Inr \<lparr>fences_page_id = page_id, fences_disk_addr = disk_addr_of_ref d r,
                fences_lower = lower, fences_upper = upper\<rparr>)"

text \<open>The loop of \<open>range_scan\<close> over the slots of the page table.\<close>

fun scan_slots :: "nat list \<Rightarrow> bytes \<Rightarrow> bytes \<Rightarrow> Db \<Rightarrow> (bytes \<times> bytes) list result \<times> Db" where
  "scan_slots [] lower upper d = (Inr [], d)"
| "scan_slots (slot # slots) lower upper d =
    (if \<not> has_entry (map_table d) slot then scan_slots slots lower upper d
     else
       case with_read_guard d (word_of_nat slot) (\<lambda>r.
           case page_of_ref d r of Inl e \<Rightarrow> Inl e | Inr p \<Rightarrow> records_between p lower upper) of
         (Inl e, d) \<Rightarrow> (Inl e, d)
       | (Inr rs, d) \<Rightarrow>
           case scan_slots slots lower upper d of
             (Inl e, d) \<Rightarrow> (Inl e, d)
           | (Inr results, d) \<Rightarrow> (Inr (rs @ results), d))"

definition range_scan :: "Db \<Rightarrow> bytes \<Rightarrow> bytes \<Rightarrow> (bytes \<times> bytes) list result \<times> Db" where
  "range_scan d lower upper =
    (if upper \<le> lower then (Inr [], d)
     else
       case scan_slots [0..<MapTable_capacity (map_table d)] lower upper d of
         (Inl e, d) \<Rightarrow> (Inl e, d)
       | (Inr results, d) \<Rightarrow> (Inr (sort_key fst results), d))"

record DebugWalStats =
  stats_total_records :: nat
  stats_total_bytes :: nat
  stats_leaf_records :: "nat option"
  stats_leaf_bytes :: "nat option"

definition debug_wal_stats :: "Db \<Rightarrow> u64 option \<Rightarrow> DebugWalStats" where
  "debug_wal_stats d page_id =
    (let (leaf_records, leaf_bytes) =
       (case Option.bind page_id (leaf_stats (wal d)) of
          None \<Rightarrow> (None, None)
        | Some (records, bytes) \<Rightarrow> (Some records, Some bytes))
     in \<lparr>stats_total_records = total_records (wal d), stats_total_bytes = total_bytes (wal d),
          stats_leaf_records = leaf_records, stats_leaf_bytes = leaf_bytes\<rparr>)"

definition debug_wal_record_count :: "Db \<Rightarrow> nat" where
  "debug_wal_record_count d = total_records (wal d)"

definition QuickStep_debug_root_leaf_parent :: "Db \<Rightarrow> (bytes list \<times> u64 list) option result" where
  "QuickStep_debug_root_leaf_parent d = debug_root_leaf_parent (inner_nodes d)"

definition debug_root_level :: "Db \<Rightarrow> nat" where
  "debug_root_level d = root_level (inner_nodes d)"

section \<open>Recovery\<close>

datatype TxStatus = StatusCommitted | StatusAborted

text \<open>The loop of \<open>txn_statuses\<close>, with the hash map as an association list.\<close>

definition txn_status :: "WalRecord \<Rightarrow> (u64 \<times> TxStatus) list \<Rightarrow> (u64 \<times> TxStatus) list" where
  "txn_status r statuses =
    (case wal_op r of
       TxnMarker TxnCommit \<Rightarrow> AList.update (wal_txn_id r) StatusCommitted statuses
     | TxnMarker TxnAbort \<Rightarrow> AList.update (wal_txn_id r) StatusAborted statuses
     | _ \<Rightarrow> statuses)"

definition txn_statuses :: "WalRecord list \<Rightarrow> (u64 \<times> TxStatus) list" where
  "txn_statuses txn_meta = fold txn_status txn_meta []"

text \<open>The ordered map of the entries is a sorted association list.\<close>

definition apply_wal_op :: "(bytes \<times> bytes) list \<Rightarrow> bytes \<Rightarrow> WalOp \<Rightarrow> (bytes \<times> bytes) list" where
  "apply_wal_op es key op =
    (case op of
       Put v \<Rightarrow> upsert key v es
     | Tombstone \<Rightarrow> filter (\<lambda>(k, _). k \<noteq> key) es
     | TxnMarker _ \<Rightarrow> es)"

definition applies :: "(u64 \<times> TxStatus) list \<Rightarrow> WalRecord \<Rightarrow> bool" where
  "applies statuses r =
    (let committed = (map_of statuses (wal_txn_id r) = Some StatusCommitted)
     in case wal_kind r of Redo \<Rightarrow> committed | Undo \<Rightarrow> \<not> committed)"

text \<open>The body of the loop over the records of a page: the last fences and the entries.\<close>

definition replay_record ::
    "(u64 \<times> TxStatus) list \<Rightarrow> WalRecord \<Rightarrow> (bytes \<times> bytes) option \<times> (bytes \<times> bytes) list \<Rightarrow>
      (bytes \<times> bytes) option \<times> (bytes \<times> bytes) list" where
  "replay_record statuses r st =
    (let (fences, es) = st in
     case wal_op r of
       TxnMarker _ \<Rightarrow> (fences, es)
     | op \<Rightarrow>
         if \<not> applies statuses r then (fences, es)
         else (Some (wal_lower_fence r, wal_upper_fence r), apply_wal_op es (wal_key r) op))"

text \<open>\<open>expect\<close> on the result of a replay.\<close>

definition expect_put :: "unit result \<times> bytes \<Rightarrow> unit result \<times> bytes" where
  "expect_put rp = (case rp of (Inl InsufficientSpace, p) \<Rightarrow> (Inl (Panic PanicExpect), p) | _ \<Rightarrow> rp)"

definition refill_page :: "bytes \<Rightarrow> bytes \<times> bytes \<Rightarrow> (bytes \<times> bytes) list \<Rightarrow> unit result \<times> bytes" where
  "refill_page p fences es =
    (case reset_user_entries_with_fences p (fst fences) (snd fences) of
       (Inl e, p) \<Rightarrow> (Inl e, p)
     | (Inr _, p) \<Rightarrow> expect_put (replay_entries p es))"

text \<open>What recovery does with a page once its guard is held: the disk first, then the cache.\<close>

definition replay_on :: "Db \<Rightarrow> (u64 \<times> TxStatus) list \<Rightarrow> WalRecord list \<Rightarrow> NodeRef \<Rightarrow> unit result \<times> Db" where
  "replay_on d statuses records node_ref =
    (let disk_addr = disk_addr_of_ref d node_ref in
     case get_page (io_engine d) disk_addr of
       Inl e \<Rightarrow> (Inl e, d)
     | Inr disk_leaf \<Rightarrow>
         case collect_fence_keys disk_leaf of
           Inl e \<Rightarrow> (Inl e, d)
         | Inr base_fences \<Rightarrow>
             case collect_user_records disk_leaf of
               Inl e \<Rightarrow> (Inl e, d)
             | Inr rs \<Rightarrow>
                 let es = fold (\<lambda>(k, v). upsert k v) rs [];
                     (fences, es) = fold (replay_record statuses) records (None, es);
                     fences = (case fences of Some fs \<Rightarrow> fs | None \<Rightarrow> base_fences)
                 in
                   if es = [] then (Inr (), d)
                   else
                     case refill_page disk_leaf fences es of
                       (Inl e, _) \<Rightarrow> (Inl e, d)
                     | (Inr _, disk_leaf) \<Rightarrow>
                         case write_page (io_engine d) disk_addr disk_leaf of
                           (Inl e, io) \<Rightarrow> (Inl e, d\<lparr>io_engine := io\<rparr>)
                         | (Inr _, io) \<Rightarrow>
                             let d = d\<lparr>io_engine := io\<rparr> in
                             case node_ref of
                               Leaf _ \<Rightarrow> (Inr (), d)
                             | MiniPage idx \<Rightarrow>
                                 case refill_page (get_meta_ref (cache d) idx) fences es of
                                   (r, p) \<Rightarrow> (r, d\<lparr>cache := put_meta (cache d) idx p\<rparr>))"

definition replay_page :: "(u64 \<times> TxStatus) list \<Rightarrow> u64 \<times> WalRecord list \<Rightarrow> Db \<Rightarrow> unit result \<times> Db" where
  "replay_page statuses g d =
    (let (page_key, records) = g in
     if MapTable_capacity (map_table d) \<le> unat page_key \<or> \<not> has_entry (map_table d) (unat page_key) then (Inr (), d)
     else
       case read_page_entry (map_table d) (unat page_key) of
         (Inl _, mt) \<Rightarrow> (Inl (Panic PanicExpect), d\<lparr>map_table := mt\<rparr>)
       | (Inr node, mt) \<Rightarrow>
           case replay_on (d\<lparr>map_table := mt\<rparr>) statuses records (PageEntry_get_ref node) of
             (r, d) \<Rightarrow> (r, d\<lparr>map_table := drop_guard (map_table d) (Read page_key node)\<rparr>))"

fun replay_pages :: "(u64 \<times> TxStatus) list \<Rightarrow> (u64 \<times> WalRecord list) list \<Rightarrow> Db \<Rightarrow> unit result \<times> Db" where
  "replay_pages statuses [] d = (Inr (), d)"
| "replay_pages statuses (g # gs) d =
    (case replay_page statuses g d of (Inl e, d) \<Rightarrow> (Inl e, d) | (Inr _, d) \<Rightarrow> replay_pages statuses gs d)"

text \<open>The groups are visited in the order of their page identifiers.\<close>

definition replay_wal :: "Db \<Rightarrow> unit result \<times> Db" where
  "replay_wal d =
    (let grouped = records_grouped (wal d) in
     if grouped = [] then (Inr (), d)
     else
       let txn_meta = (case map_of grouped TXN_META_PAGE_ID of None \<Rightarrow> [] | Some rs \<Rightarrow> rs);
           statuses = txn_statuses txn_meta;
           grouped = sort_key fst (filter (\<lambda>(page, _). page \<noteq> TXN_META_PAGE_ID) grouped)
       in
         case replay_pages statuses grouped d of
           (Inl e, d) \<Rightarrow> (Inl e, d)
         | (Inr _, d) \<Rightarrow> (Inr (), d\<lparr>wal := WalManager_clear (wal d)\<rparr>))"

section \<open>Opening\<close>

definition ensure_root_leaf_on_disk :: "Db \<Rightarrow> unit result \<times> Db" where
  "ensure_root_leaf_on_disk d =
    (case get_page (io_engine d) 0 of
       Inl e \<Rightarrow> (Inl e, d)
     | Inr leaf \<Rightarrow>
         if 2 \<le> record_count leaf then (Inr (), d)
         else
           case format_leaf leaf 0 LeafPage 0 of
             (Inl e, _) \<Rightarrow> (Inl e, d)
           | (Inr _, leaf) \<Rightarrow>
               case write_page (io_engine d) 0 leaf of (r, io) \<Rightarrow> (r, d\<lparr>io_engine := io\<rparr>))"

text \<open>The last steps of the constructor: the root leaf, recovery, and the entry of the root.\<close>

definition open_root :: "Db \<Rightarrow> Db result" where
  "open_root d =
    (case ensure_root_leaf_on_disk d of
       (Inl e, _) \<Rightarrow> Inl e
     | (Inr _, d) \<Rightarrow>
         case replay_wal d of
           (Inl e, _) \<Rightarrow> Inl e
         | (Inr _, d) \<Rightarrow>
             case init_leaf_entry (map_table d) 0 of
               (Inl e, _) \<Rightarrow> Inl e
             | (Inr root_page, mt) \<Rightarrow>
                 Inr (d\<lparr>map_table := mt,
                   inner_nodes := set_leaf_root (inner_nodes d) (word_of_nat root_page)\<rparr>))"

text \<open>
  The constructor, on the contents of the data file and of the log file and with the uninitialised
  memory of the inner nodes.
\<close>

definition QuickStep_new ::
    "(string \<Rightarrow> string option) \<Rightarrow> string list \<Rightarrow> BPNode list \<Rightarrow> bytes \<Rightarrow> File \<Rightarrow> QuickStepConfig \<Rightarrow> Db result" where
  "QuickStep_new env args mem data log cfg =
    (let cfg = effective_config env args cfg;
         io = IoEngine_open data;
         w = WalManager_open log
     in
       case MiniPageBuffer_new (cache_size_lg cfg) of
         Inl e \<Rightarrow> Inl e
       | Inr c \<Rightarrow>
           case BPTree_new mem (unat (inner_node_upper_bound cfg)) of
             Inl e \<Rightarrow> Inl e
           | Inr t \<Rightarrow>
               let d = \<lparr>inner_nodes = t, cache = c, io_engine = io,
                     map_table = MapTable_new (unat (leaf_upper_bound cfg)), wal = w,
                     wal_leaf_checkpoint_threshold = cfg_leaf_checkpoint_threshold cfg,
                     wal_global_record_threshold = cfg_global_record_threshold cfg,
                     wal_global_byte_threshold = cfg_global_byte_threshold cfg,
                     wal_checkpoint_requested = False, wal_checkpoint_stop = False,
                     wal_checkpoint_thread = True, next_txn_id = 1, debug_state = Debug_init\<rparr>
               in
                 open_root d)"

text \<open>The two files, in a file system that gives an empty file for a path that does not exist.\<close>

definition QuickStep_open ::
    "(string \<Rightarrow> string option) \<Rightarrow> string list \<Rightarrow> BPNode list \<Rightarrow> (Path \<Rightarrow> bool) \<Rightarrow> (Path \<Rightarrow> bytes) \<Rightarrow> QuickStepConfig \<Rightarrow> Db result" where
  "QuickStep_open env args mem is_dir fs cfg =
    (let data_path = resolve_data_path is_dir (components (cfg_path cfg));
         wal_path = wal_path_for data_path
     in QuickStep_new env args mem (fs data_path) \<lparr>fbytes = fs wal_path, fpos = 0\<rparr> cfg)"

section \<open>Reading without a transaction\<close>

text \<open>An entry of the page table that no one has locked.\<close>

definition entry_free :: "page_entry \<Rightarrow> bool" where
  "entry_free w \<longleftrightarrow> PageEntry_state w = 0 \<and> \<not> PageEntry_pending_write w"

lemma read_drop_same:
  assumes "unat page < MapTable_capacity mt" and "entry_free (get_entry mt (unat page))"
  shows "read_page_entry mt (unat page) = (Inr (get_entry mt (unat page)), set_entry mt (unat page) (PageEntry_set_state (get_entry mt (unat page)) 1))"
    and "drop_guard (set_entry mt (unat page) (PageEntry_set_state (get_entry mt (unat page)) 1)) (Read page node) = mt"
proof -
  let ?w = "get_entry mt (unat page)"
  from assms(2) have s: "PageEntry_state ?w = 0" "\<not> PageEntry_pending_write ?w" by (simp_all add: entry_free_def)
  show "read_page_entry mt (unat page) = (Inr ?w, set_entry mt (unat page) (PageEntry_set_state ?w 1))"
    by (rule read_page_entry_free[OF s])
  have "PageEntry_set_state (PageEntry_set_state ?w 1) 0 = ?w"
    using s(1) by (simp add: set_state_set_state set_state_same)
  then show "drop_guard (set_entry mt (unat page) (PageEntry_set_state ?w 1)) (Read page node) = mt"
    using assms(1) by (simp add: get_entry_set_entry drop_read_iter_def compare_exchange_def Let_def set_entry_same)
qed

lemma with_read_guard_free:
  assumes "unat page < MapTable_capacity (map_table d)" and "entry_free (get_entry (map_table d) (unat page))"
  shows "with_read_guard d page f = (f (PageEntry_get_ref (get_entry (map_table d) (unat page))), d)"
  using assms by (simp add: with_read_guard_def read_drop_same del: drop_guard.simps)

lemma collect_user_records_wf: "leaf_wf p \<Longrightarrow> collect_user_records p = Inr (full_records p)"
  by (simp add: collect_user_records_def get_node_prefix_eq live_entries_eq full_records_def user_records_def o_def)

lemma collect_fence_keys_wf: "leaf_wf p \<Longrightarrow> collect_fence_keys p = fence_bounds p"
  using leaf_wfD(2,7,8)[of p] fence_in_page[of p] by (simp add: collect_fence_keys_def fence_bounds_def Let_def)

text \<open>A slot of the page table that is empty or names a well-formed page, and its records.\<close>

definition slot_ok :: "Db \<Rightarrow> nat \<Rightarrow> bool" where
  "slot_ok d slot \<longleftrightarrow> get_entry (map_table d) slot = 0 \<or> entry_free (get_entry (map_table d) slot) \<and>
    (case page_of_ref d (PageEntry_get_ref (get_entry (map_table d) slot)) of Inl _ \<Rightarrow> False | Inr p \<Rightarrow> leaf_wf p)"

definition slot_records :: "Db \<Rightarrow> nat \<Rightarrow> (bytes \<times> bytes) list" where
  "slot_records d slot =
    (if get_entry (map_table d) slot = 0 then []
     else
       case page_of_ref d (PageEntry_get_ref (get_entry (map_table d) slot)) of
         Inl _ \<Rightarrow> []
       | Inr p \<Rightarrow> full_records p)"

lemma scan_slots_spec:
  assumes "\<forall>slot \<in> set slots. slot < MapTable_capacity (map_table d) \<and> slot_ok d slot"
    and "MapTable_capacity (map_table d) \<le> 2 ^ 64"
  shows "scan_slots slots lower upper d =
    (Inr (filter (\<lambda>(k, _). lower \<le> k \<and> k < upper) (concat (map (slot_records d) slots))), d)"
  using assms(1)
proof (induction slots)
  case (Cons slot slots)
  let ?w = "get_entry (map_table d) slot"
  from Cons.prems have s: "slot < MapTable_capacity (map_table d)" "slot_ok d slot" by simp_all
  have u: "unat (word_of_nat slot :: u64) = slot"
    using s(1) assms(2) by (simp add: unat_of_nat)
  show ?case
  proof (cases "?w = 0")
    case True
    with Cons s show ?thesis by (simp add: has_entry_def slot_records_def)
  next
    case False
    with s(2) obtain p where p: "entry_free ?w" "page_of_ref d (PageEntry_get_ref ?w) = Inr p" "leaf_wf p"
      by (auto simp: slot_ok_def split: sum.splits)
    have "with_read_guard d (word_of_nat slot) f = (f (PageEntry_get_ref ?w), d)" for f :: "NodeRef \<Rightarrow> (bytes \<times> bytes) list result"
      using with_read_guard_free[of "word_of_nat slot" d f] s(1) p(1) u by simp
    with False s(1) p Cons show ?thesis
      by (simp add: has_entry_def slot_records_def records_between_def collect_user_records_wf)
  qed
qed simp


section \<open>Recovery\<close>

lemma expect_put_simps [simp]: "expect_put (Inr (), p) = (Inr (), p)"
  by (simp add: expect_put_def)

lemma refill_page_spec:
  assumes "NodeMeta_size (node_header p) = Some sz" and "length p = NodeSize_size_in_bytes sz"
    and "key_sorted es" and "\<forall>k \<in> set (map fst es). lo \<le> k \<and> k < hi"
    and "32 + length lo + length hi + records_size es \<le> length p"
  obtains q where "refill_page p (lo, hi) es = (Inr (), q)" "leaf_wf q" "full_records q = es"
    "fence_bounds q = Inr (lo, hi)" "length q = length p" "page_ident q = page_ident p"
proof -
  let ?os = "map (\<lambda>(k, v). \<lparr>owned_key = k, owned_value = v\<rparr>) es"
  have os: "map owned_pair ?os = es" by (simp add: o_def owned_pair_def split_beta)
  obtain q where q: "rebuild p lo hi ?os = (Inr (), q)" "leaf_wf q" "full_records q = map owned_pair ?os"
    "fence_bounds q = Inr (lo, hi)" "length q = length p" "page_ident q = page_ident p"
  proof (rule rebuild_spec[OF assms(1,2), of ?os lo hi])
    show "key_sorted (map owned_pair ?os)" using assms(3) os by simp
    show "\<forall>k \<in> set (map owned_key ?os). lo \<le> k \<and> k < hi" using assms(4) by (auto simp: split_beta)
    show "32 + length lo + length hi + records_size (map owned_pair ?os) \<le> length p" using assms(5) os by simp
  qed
  from q(1) have "refill_page p (lo, hi) es = (Inr (), q)"
    unfolding rebuild_def os refill_page_def
    by (auto split: prod.splits sum.splits)
  with q os that show thesis by simp
qed

lemma replay_record_fold:
  "snd (fold (replay_record statuses) rs (fs, es)) =
    fold (\<lambda>r es. apply_wal_op es (wal_key r) (wal_op r)) (filter (applies statuses) rs) es"
proof (induction rs arbitrary: fs es)
  case (Cons r rs)
  show ?case
    by (cases "applies statuses r"; cases "wal_op r")
      (simp_all add: replay_record_def[of statuses r] Cons apply_wal_op_def[of _ _ "TxnMarker _"])
qed simp

lemma apply_wal_op_sorted: "key_sorted es \<Longrightarrow> key_sorted (apply_wal_op es k op)"
proof (cases op)
  case Tombstone
  assume "key_sorted es"
  with Tombstone show ?thesis by (simp add: apply_wal_op_def sorted_wrt_map sorted_wrt_filter)
qed (simp_all add: apply_wal_op_def key_sorted_upsert)

lemma leaf_entry_nonzero: "PageEntry_leaf addr \<noteq> 0"
proof
  assume "PageEntry_leaf addr = 0"
  then have "bit (PageEntry_leaf addr) 15 = bit (0 :: u64) 15" by simp
  then show False by (simp add: PageEntry_leaf_def bit_simps bit_exp_int)
qed

lemma replay_page_fold:
  assumes "unat page < MapTable_capacity (map_table d)"
    and "get_entry (map_table d) (unat page) = PageEntry_leaf addr" and "unat addr < 2 ^ 48"
    and "get_page (io_engine d) addr = Inr p" and "leaf_wf p" and "NodeMeta_size (node_header p) = Some LeafPage"
    and "fence_bounds p = Inr (lo, hi)"
    and "\<forall>r \<in> set rs. wal_lower_fence r = lo \<and> wal_upper_fence r = hi"
    and "es = fold (\<lambda>r es. apply_wal_op es (wal_key r) (wal_op r)) (filter (applies statuses) rs) (full_records p)"
    and "es \<noteq> []" and "\<forall>k \<in> set (map fst es). lo \<le> k \<and> k < hi"
    and "32 + length lo + length hi + records_size es \<le> 4096"
  shows "\<exists>q io. replay_page statuses (page, rs) d = (Inr (), d\<lparr>io_engine := io\<rparr>) \<and>
    get_page io addr = Inr q \<and> leaf_wf q \<and> full_records q = es \<and> fence_bounds q = Inr (lo, hi)"
proof -
  let ?w = "get_entry (map_table d) (unat page)"
  let ?mt = "set_entry (map_table d) (unat page) (PageEntry_set_state ?w 1)"
  have free: "entry_free ?w" and ne: "?w \<noteq> 0" and ref: "PageEntry_get_ref ?w = Leaf addr"
    using assms(2,3) by (simp_all add: entry_free_def leaf_entry_nonzero)
  note R = read_drop_same[OF assms(1) free]
  have base: "fold (\<lambda>(k, v). upsert k v) (full_records p) [] = full_records p"
    using fold_upsert_sorted[of "[]" "full_records p"] full_records_sorted[OF assms(5)] by simp
  have fs: "fst (fold (replay_record statuses) rs (fs, es0)) \<in> {fs, Some (lo, hi)}" for fs es0
    using assms(8)
  proof (induction rs arbitrary: fs es0)
    case (Cons r rs)
    then show ?case
      by (cases "applies statuses r"; cases "wal_op r") (fastforce simp: replay_record_def[of statuses r])+
  qed simp
  obtain fs where fold: "fold (replay_record statuses) rs (None, full_records p) = (fs, es)" "fs \<in> {None, Some (lo, hi)}"
    using replay_record_fold[of statuses rs None "full_records p"] fs[of None "full_records p"] assms(9)
    by (cases "fold (replay_record statuses) rs (None, full_records p)") auto
  have so: "key_sorted es"
  proof -
    have "key_sorted (fold (\<lambda>r es. apply_wal_op es (wal_key r) (wal_op r)) xs es0)" if "key_sorted es0" for xs es0
      using that
    proof (induction xs arbitrary: es0)
      case (Cons x xs)
      from Cons.IH[OF apply_wal_op_sorted[OF Cons.prems]] show ?case by simp
    qed simp
    from this[OF full_records_sorted[OF assms(5)]] assms(9) show ?thesis by simp
  qed
  have len: "length p = NodeSize_size_in_bytes LeafPage" using get_page_InrD(4)[OF assms(4)] by simp
  obtain q where q: "refill_page p (lo, hi) es = (Inr (), q)" "leaf_wf q" "full_records q = es"
    "fence_bounds q = Inr (lo, hi)" "length q = length p"
    by (rule refill_page_spec[OF assms(6) len so assms(11)]) (use assms(12) len in simp_all)
  have aok: "addr_ok addr" by (rule get_page_InrD(1)[OF assms(4)])
  obtain io where io: "write_page (io_engine d) addr q = (Inr (), io)" "get_page io addr = Inr q"
    using write_page_ok[OF aok, of "io_engine d" q] get_page_after_write aok q(5) len by fastforce
  have "replay_on (d\<lparr>map_table := ?mt\<rparr>) statuses rs (Leaf addr) = (Inr (), d\<lparr>map_table := ?mt, io_engine := io\<rparr>)"
    using assms(4,5,7,10) fold base q(1) io(1)
    by (auto simp: replay_on_def disk_addr_of_ref_def collect_fence_keys_wf collect_user_records_wf)
  then have "replay_page statuses (page, rs) d = (Inr (), d\<lparr>io_engine := io\<rparr>)"
    using assms(1) ne R ref by (simp add: replay_page_def has_entry_def del: drop_guard.simps)
  with io(2) q show ?thesis by blast
qed

text \<open>C20: Recovery of a page that is on disk: the leaf is replaced by a well-formed one that holds the
  old records changed, in log order, by the redo records of committed and the undo records of the
  other transactions.\<close>

theorem replay_page_applies_log:
  assumes "unat page < MapTable_capacity (map_table d)"
    and "get_entry (map_table d) (unat page) = PageEntry_leaf addr" and "unat addr < 2 ^ 48"
    and "get_page (io_engine d) addr = Inr p" and "leaf_wf p" and "NodeMeta_size (node_header p) = Some LeafPage"
    and "fence_bounds p = Inr (lo, hi)"
    and "\<forall>r \<in> set rs. wal_lower_fence r = lo \<and> wal_upper_fence r = hi"
    and "es = fold (\<lambda>r es. apply_wal_op es (wal_key r) (wal_op r)) (filter (applies statuses) rs) (full_records p)"
    and "es \<noteq> []" and "\<forall>k \<in> set (map fst es). lo \<le> k \<and> k < hi"
    and "32 + length lo + length hi + records_size es \<le> 4096"
  shows "\<exists>q io. replay_page statuses (page, rs) d = (Inr (), d\<lparr>io_engine := io\<rparr>) \<and>
    get_page io addr = Inr q \<and> leaf_wf q \<and> full_records q = es \<and> fence_bounds q = Inr (lo, hi)"
  by (rule replay_page_fold[OF assms])

section \<open>Opening a database\<close>

text \<open>Recovery over an empty page table changes nothing.\<close>

lemma replay_pages_unmapped:
  assumes "\<forall>i < MapTable_capacity (map_table d). get_entry (map_table d) i = 0"
  shows "replay_pages statuses gs d = (Inr (), d)"
  using assms by (induction gs) (auto simp: replay_page_def has_entry_def)

lemma replay_wal_unmapped:
  assumes "\<forall>i < MapTable_capacity (map_table d). get_entry (map_table d) i = 0"
  shows "\<exists>w. replay_wal d = (Inr (), d\<lparr>wal := w\<rparr>) \<and> wal_records w = [] \<and> (wal_records (wal d) = [] \<longrightarrow> w = wal d)"
proof (cases "records_grouped (wal d) = []")
  case True
  have "records_grouped (wal d) \<noteq> []" if "wal_records (wal d) \<noteq> []"
  proof -
    have "fold (\<lambda>r m. AList.update (wal_page_id r) (f r m) m) rs m \<noteq> []" if "m \<noteq> []"
      for rs :: "WalRecord list" and m and f :: "WalRecord \<Rightarrow> (u64 \<times> WalRecord list) list \<Rightarrow> WalRecord list"
      using that
    proof (induction rs arbitrary: m)
      case (Cons r rs)
      have "AList.update (wal_page_id r) (f r m) m \<noteq> []" by (cases m) auto
      with Cons.IH show ?case by simp
    qed simp
    with that show ?thesis unfolding records_grouped_def by (cases "wal_records (wal d)") auto
  qed
  with True have "wal_records (wal d) = []" by blast
  with True show ?thesis by (auto simp: replay_wal_def intro!: exI[of _ "wal d"])
next
  case False
  then have "wal_records (wal d) \<noteq> []" by (auto simp: records_grouped_def)
  with False replay_pages_unmapped[OF assms] show ?thesis
    by (auto simp: replay_wal_def Let_def WalManager_clear_def)
qed

lemma MapTable_new_unmapped:
  "\<forall>i < MapTable_capacity (MapTable_new n). get_entry (MapTable_new n) i = 0"
  by (simp add: MapTable_new_def MapTable_capacity_def get_entry_def)

text \<open>The first write to the database, as far as it does not depend on the log.\<close>

lemma ensure_root_leaf_wal:
  "ensure_root_leaf_on_disk (d\<lparr>wal := w\<rparr>) = map_prod id (\<lambda>d. d\<lparr>wal := w\<rparr>) (ensure_root_leaf_on_disk d)"
  by (simp add: ensure_root_leaf_on_disk_def split: sum.split prod.split)

lemma ensure_root_leaf_map: "map_table (snd (ensure_root_leaf_on_disk d)) = map_table d"
  by (simp add: ensure_root_leaf_on_disk_def split: sum.split prod.split)

lemma ensure_root_leaf_wal_same: "wal (snd (ensure_root_leaf_on_disk d)) = wal d"
  by (simp add: ensure_root_leaf_on_disk_def split: sum.split prod.split)

text \<open>What \<open>open_root\<close> does over an empty page table.\<close>

lemma open_root_unmapped:
  assumes "map_table d = MapTable_new n"
  obtains w where "wal_records w = []" "wal_records (wal d) = [] \<longrightarrow> w = wal d"
    "open_root d = (case ensure_root_leaf_on_disk d of
       (Inl e, _) \<Rightarrow> Inl e
     | (Inr _, d) \<Rightarrow>
         if n = 0 then Inl (Panic PanicTodo)
         else Inr (d\<lparr>wal := w, map_table := (set_entry (MapTable_new n) 0 (PageEntry_leaf 0))\<lparr>next_free := 1\<rparr>,
           inner_nodes := set_leaf_root (inner_nodes d) 0\<rparr>))"
proof -
  obtain r d1 where e: "ensure_root_leaf_on_disk d = (r, d1)" by fastforce
  have m: "map_table d1 = MapTable_new n" "wal d1 = wal d"
    using ensure_root_leaf_map[of d] ensure_root_leaf_wal_same[of d] assms e by simp_all
  obtain w where w: "replay_wal d1 = (Inr (), d1\<lparr>wal := w\<rparr>)" "wal_records w = []" "wal_records (wal d) = [] \<longrightarrow> w = wal d"
    using replay_wal_unmapped[of d1] MapTable_new_unmapped m by auto
  have c: "MapTable_capacity (MapTable_new k) = k" for k by (simp add: MapTable_new_def MapTable_capacity_def)
  show thesis
    by (rule that[OF w(2,3)]) (use e m w(1) c in \<open>simp add: open_root_def init_leaf_entry_def split: sum.split\<close>)
qed

lemma ensure_root_leaf_tree: "inner_nodes (snd (ensure_root_leaf_on_disk d)) = inner_nodes d"
  by (simp add: ensure_root_leaf_on_disk_def split: sum.split prod.split)

lemma QuickStep_new_wal:
  assumes "QuickStep_new env args mem data log cfg = Inr d"
  shows "\<exists>w. QuickStep_new env args mem data log' cfg = Inr (d\<lparr>wal := w\<rparr>) \<and> wal_records w = []"
    and "get_root (inner_nodes d) = RootLeaf 0" and "get_entry (map_table d) 0 = PageEntry_leaf 0"
    and "\<forall>i \<in> {1..<MapTable_capacity (map_table d)}. get_entry (map_table d) i = 0"
proof -
  let ?cfg = "effective_config env args cfg"
  obtain c where c: "MiniPageBuffer_new (cache_size_lg ?cfg) = Inr c"
    using assms by (auto simp: QuickStep_new_def Let_def split: sum.splits)
  obtain t where t: "BPTree_new mem (unat (inner_node_upper_bound ?cfg)) = Inr t"
    using assms c by (auto simp: QuickStep_new_def Let_def split: sum.splits)
  define n where "n = unat (leaf_upper_bound ?cfg)"
  define d0 where "d0 w = \<lparr>inner_nodes = t, cache = c, io_engine = IoEngine_open data,
    map_table = MapTable_new n, wal = w,
    wal_leaf_checkpoint_threshold = cfg_leaf_checkpoint_threshold ?cfg,
    wal_global_record_threshold = cfg_global_record_threshold ?cfg,
    wal_global_byte_threshold = cfg_global_byte_threshold ?cfg,
    wal_checkpoint_requested = False, wal_checkpoint_stop = False,
    wal_checkpoint_thread = True, next_txn_id = 1, debug_state = Debug_init\<rparr>" for w
  have new: "QuickStep_new env args mem data l cfg = open_root (d0 (WalManager_open l))" for l
    by (simp only: QuickStep_new_def Let_def c t sum.case d0_def n_def)
  let ?mt = "(set_entry (MapTable_new n) 0 (PageEntry_leaf 0))\<lparr>next_free := 1\<rparr>"
  obtain r d1 where e: "ensure_root_leaf_on_disk (d0 (WalManager_open log)) = (r, d1)" by fastforce
  have e': "ensure_root_leaf_on_disk (d0 w) = (r, d1\<lparr>wal := w\<rparr>)" for w
    using ensure_root_leaf_wal[where d = "d0 (WalManager_open log)" and w = w] e by (simp add: d0_def)
  have opn: "\<exists>w. wal_records w = [] \<and> QuickStep_new env args mem data l cfg =
    (case r of
       Inl e \<Rightarrow> Inl e
     | Inr _ \<Rightarrow>
         if n = 0 then Inl (Panic PanicTodo)
         else Inr (d1\<lparr>wal := w, map_table := ?mt, inner_nodes := set_leaf_root (inner_nodes d1) 0\<rparr>))" for l
  proof (rule open_root_unmapped[of "d0 (WalManager_open l)" n])
    show "map_table (d0 (WalManager_open l)) = MapTable_new n" by (simp add: d0_def)
  qed (auto simp: new e' split: sum.split)
  have rn: "r = Inr () \<and> 0 < n" using opn[of log] assms by (cases r) (auto split: if_splits)
  with opn[of log] assms obtain w where
    d: "d = d1\<lparr>wal := w, map_table := ?mt, inner_nodes := set_leaf_root (inner_nodes d1) 0\<rparr>" by auto
  show "\<exists>w. QuickStep_new env args mem data log' cfg = Inr (d\<lparr>wal := w\<rparr>) \<and> wal_records w = []"
  proof -
    obtain w where "wal_records w = []" "QuickStep_new env args mem data log' cfg =
        Inr (d1\<lparr>wal := w, map_table := ?mt, inner_nodes := set_leaf_root (inner_nodes d1) 0\<rparr>)"
      using opn[of log'] rn by auto
    then show ?thesis by (intro exI[of _ w]) (simp add: d)
  qed
  show "get_root (inner_nodes d) = RootLeaf 0" by (simp add: d get_root_def set_leaf_root_def)
  have c: "MapTable_capacity ?mt = n" by (simp add: MapTable_new_def MapTable_capacity_def set_entry_def)
  show "get_entry (map_table d) 0 = PageEntry_leaf 0"
    "\<forall>i \<in> {1..<MapTable_capacity (map_table d)}. get_entry (map_table d) i = 0"
    using rn c by (simp_all add: d MapTable_new_def get_entry_def set_entry_def)
qed

lemma effective_config_sizes [simp]:
  "cache_size_lg (effective_config env args cfg) = cache_size_lg cfg"
  "inner_node_upper_bound (effective_config env args cfg) = inner_node_upper_bound cfg"
  "leaf_upper_bound (effective_config env args cfg) = leaf_upper_bound cfg"
proof -
  have "cache_size_lg (with_cli_overrides c args) = cache_size_lg c \<and>
    inner_node_upper_bound (with_cli_overrides c args) = inner_node_upper_bound c \<and>
    leaf_upper_bound (with_cli_overrides c args) = leaf_upper_bound c" for c
    by (induction c args rule: with_cli_overrides.induct) (simp_all split: prod.split option.split)
  moreover have "cache_size_lg (with_env_overrides env cfg) = cache_size_lg cfg"
    "inner_node_upper_bound (with_env_overrides env cfg) = inner_node_upper_bound cfg"
    "leaf_upper_bound (with_env_overrides env cfg) = leaf_upper_bound cfg"
    by (simp_all add: with_env_overrides_def Let_def split: option.split)
  ultimately show "cache_size_lg (effective_config env args cfg) = cache_size_lg cfg"
    "inner_node_upper_bound (effective_config env args cfg) = inner_node_upper_bound cfg"
    "leaf_upper_bound (effective_config env args cfg) = leaf_upper_bound cfg"
    by (simp_all add: effective_config_def)
qed

text \<open>The page a new data file starts with.\<close>

definition blank_leaf :: bytes where
  "blank_leaf = snd (format_leaf (replicate 4096 0) 0 LeafPage 0)"

lemma blank_leaf_facts:
  "format_leaf (replicate 4096 0) 0 LeafPage 0 = (Inr (), blank_leaf)"
  "leaf_wf blank_leaf" "full_records blank_leaf = []" "fence_bounds blank_leaf = Inr ([0], [255])"
  "length blank_leaf = 4096" "node_prefix blank_leaf = []" "leaf_space blank_leaf 4000"
  "NodeMeta_leaf (node_header blank_leaf) = 0" "NodeMeta_size (node_header blank_leaf) = Some LeafPage"
proof -
  have f: "format_leaf (replicate 4096 0) 0 LeafPage 0 = (fst (format_leaf (replicate 4096 0) 0 LeafPage 0), blank_leaf)"
    by (simp add: blank_leaf_def)
  have len: "length (replicate 4096 0 :: bytes) = NodeSize_size_in_bytes LeafPage" by simp
  note F = format_leaf_wf[OF len f]
  show "format_leaf (replicate 4096 0) 0 LeafPage 0 = (Inr (), blank_leaf)" using f F(1) by simp
  show "leaf_wf blank_leaf" "fence_bounds blank_leaf = Inr ([0], [255])" "NodeMeta_size (node_header blank_leaf) = Some LeafPage"
    by (rule F)+
  show "length blank_leaf = 4096" "NodeMeta_leaf (node_header blank_leaf) = 0" using F(5,7) by simp_all
  show "node_prefix blank_leaf = []" using node_prefix_fences[OF F(2,4)] by simp
  show "full_records blank_leaf = []" by (simp add: full_records_def F(3))
  show "leaf_space blank_leaf 4000" by (rule format_leaf_space[OF len f]) simp
qed

lemma new_root_leaf:
  assumes "io_engine d = IoEngine_open []"
  obtains io where "ensure_root_leaf_on_disk d = (Inr (), d\<lparr>io_engine := io\<rparr>)" "get_page io 0 = Inr blank_leaf"
proof -
  have "read_at (replicate 8192 0 :: bytes) 4096 4096 = replicate 4096 0"
    by (simp add: read_at_def)
  then have g: "get_page (io_engine d) 0 = Inr (replicate 4096 0)"
    by (simp add: assms get_page_def calc_offset_def IoEngine_open_def)
  have "u64_from_le_bytes (replicate 8 0) = 0" by code_simp
  then have rc: "record_count (replicate 4096 0) = 0"
    by (simp add: record_count_def node_header_def NodeMeta_record_count_def read_u64_def read_at_def)
  have aok: "addr_ok 0" by (simp add: addr_ok_def)
  obtain io where io: "write_page (io_engine d) 0 blank_leaf = (Inr (), io)"
    by (rule write_page_ok[OF aok, of "io_engine d" blank_leaf])
  show thesis
  proof (rule that)
    show "ensure_root_leaf_on_disk d = (Inr (), d\<lparr>io_engine := io\<rparr>)"
      using g rc blank_leaf_facts(1) io by (simp add: ensure_root_leaf_on_disk_def)
    show "get_page io 0 = Inr blank_leaf"
      by (rule get_page_after_write(1)[OF aok blank_leaf_facts(5) io])
  qed
qed

lemma open_empty_file:
  assumes "3 \<le> cache_size_lg cfg" "cache_size_lg cfg < 64" "0 < unat (inner_node_upper_bound cfg)"
    "unat (inner_node_upper_bound cfg) * 4096 < 2 ^ 32" "0 < unat (leaf_upper_bound cfg)"
    and "MiniPageBuffer_new (cache_size_lg cfg) = Inr c"
  obtains d t w where "QuickStep_new env args mem [] log cfg = Inr d"
    "inner_nodes d = set_leaf_root t 0" "BPTree_new mem (unat (inner_node_upper_bound cfg)) = Inr t" "cache d = c"
    "get_page (io_engine d) 0 = Inr blank_leaf"
    "map_table d = snd (init_leaf_entry (MapTable_new (unat (leaf_upper_bound cfg))) 0)"
    "wal_checkpoint_requested d = False" "next_txn_id d = 1"
    "(wal_leaf_checkpoint_threshold d, wal_global_record_threshold d, wal_global_byte_threshold d) =
      wal_thresholds (effective_config env args cfg)"
    "wal_records (WalManager_open log) = [] \<longrightarrow> wal d = WalManager_open log"
proof -
  let ?cfg = "effective_config env args cfg"
  have ms: "MapTable_capacity (MapTable_new n) = n" for n by (simp add: MapTable_new_def MapTable_capacity_def)
  obtain t where t: "BPTree_new mem (unat (inner_node_upper_bound cfg)) = Inr t"
    using assms(3,4) by (simp add: BPTree_new_def)
  define d0 where "d0 = \<lparr>inner_nodes = t, cache = c, io_engine = IoEngine_open [],
    map_table = MapTable_new (unat (leaf_upper_bound cfg)), wal = WalManager_open log,
    wal_leaf_checkpoint_threshold = cfg_leaf_checkpoint_threshold ?cfg,
    wal_global_record_threshold = cfg_global_record_threshold ?cfg,
    wal_global_byte_threshold = cfg_global_byte_threshold ?cfg,
    wal_checkpoint_requested = False, wal_checkpoint_stop = False,
    wal_checkpoint_thread = True, next_txn_id = 1, debug_state = Debug_init\<rparr>"
  obtain io where io: "ensure_root_leaf_on_disk d0 = (Inr (), d0\<lparr>io_engine := io\<rparr>)" "get_page io 0 = Inr blank_leaf"
    by (rule new_root_leaf[of d0]) (simp add: d0_def)
  let ?mt = "(set_entry (MapTable_new (unat (leaf_upper_bound cfg))) 0 (PageEntry_leaf 0))\<lparr>next_free := 1\<rparr>"
  obtain w where w: "wal_records (WalManager_open log) = [] \<longrightarrow> w = WalManager_open log"
    "open_root d0 = Inr (d0\<lparr>io_engine := io, wal := w, map_table := ?mt, inner_nodes := set_leaf_root t 0\<rparr>)"
    by (rule open_root_unmapped[of d0 "unat (leaf_upper_bound cfg)"]) (use io assms(5) in \<open>auto simp: d0_def\<close>)
  let ?d = "d0\<lparr>io_engine := io, wal := w, map_table := ?mt, inner_nodes := set_leaf_root t 0\<rparr>"
  have "QuickStep_new env args mem [] log cfg = Inr ?d"
    by (simp only: QuickStep_new_def Let_def assms(6) t sum.case effective_config_sizes d0_def[symmetric] w(2))
  then show thesis
  proof (rule that)
    show "wal_records (WalManager_open log) = [] \<longrightarrow> wal ?d = WalManager_open log" using w(1) by simp
  qed (use t io(2) assms(5) ms in \<open>simp_all add: d0_def wal_thresholds_def init_leaf_entry_def\<close>)
qed

text \<open>C32: Opening a database discards the log: recovery runs before the page table has any entry, so
  the log is cleared and its contents have no influence on the opened database.  The opened
  database has one page, the leaf at address 0 of the data file.\<close>

theorem open_discards_log:
  assumes "QuickStep_new env args mem data log cfg = Inr d"
  shows "wal_records (wal d) = [] \<and>
    (\<forall>log'. \<exists>w. QuickStep_new env args mem data log' cfg = Inr (d\<lparr>wal := w\<rparr>) \<and> wal_records w = []) \<and>
    get_root (inner_nodes d) = RootLeaf 0 \<and> get_entry (map_table d) 0 = PageEntry_leaf 0 \<and>
    (\<forall>i \<in> {1..<MapTable_capacity (map_table d)}. get_entry (map_table d) i = 0)"
proof -
  obtain w where "QuickStep_new env args mem data log cfg = Inr (d\<lparr>wal := w\<rparr>)" "wal_records w = []"
    using QuickStep_new_wal(1)[OF assms, of log] by blast
  moreover from this(1) assms have "d = d\<lparr>wal := w\<rparr>" by simp
  from arg_cong[OF this, of wal] have "wal d = w" by simp
  ultimately show ?thesis using QuickStep_new_wal[OF assms] by blast
qed

section \<open>Examples\<close>

text \<open>A new database with room for two pages.\<close>

definition sample_config :: QuickStepConfig where
  "sample_config = QuickStepConfig_new ''db'' 1 2 13"

lemma sample_open:
  obtains d c where "QuickStep_new (\<lambda>_. None) [] [] [] log sample_config = Inr d"
    "get_page (io_engine d) 0 = Inr blank_leaf" "MapTable_capacity (map_table d) = 2"
    "get_entry (map_table d) 0 = PageEntry_leaf 0" "get_entry (map_table d) 1 = 0"
    "MiniPageBuffer_new 13 = Inr c" "cache d = c" "get_root (inner_nodes d) = RootLeaf 0" "root_vlock (inner_nodes d) = 0"
    "wal_checkpoint_requested d = False" "wal_leaf_checkpoint_threshold d = 32" "wal_global_record_threshold d = 1024"
    "wal_global_byte_threshold d = 524288" "wal_records (WalManager_open log) = [] \<longrightarrow> wal d = WalManager_open log"
proof -
  obtain c where c: "MiniPageBuffer_new (cache_size_lg sample_config) = Inr c"
    using MiniPageBuffer_new_ok[of 13] by (auto simp: sample_config_def QuickStepConfig_new_def)
  obtain d t w where d: "QuickStep_new (\<lambda>_. None) [] [] [] log sample_config = Inr d"
    "inner_nodes d = set_leaf_root t 0" "BPTree_new [] (unat (inner_node_upper_bound sample_config)) = Inr t" "cache d = c"
    "get_page (io_engine d) 0 = Inr blank_leaf"
    "map_table d = snd (init_leaf_entry (MapTable_new (unat (leaf_upper_bound sample_config))) 0)"
    "wal_checkpoint_requested d = False" "next_txn_id d = 1"
    "(wal_leaf_checkpoint_threshold d, wal_global_record_threshold d, wal_global_byte_threshold d) =
      wal_thresholds (effective_config (\<lambda>_. None) [] sample_config)"
    "wal_records (WalManager_open log) = [] \<longrightarrow> wal d = WalManager_open log"
    by (rule open_empty_file[OF _ _ _ _ _ c, of "\<lambda>_. None" "[]" "[]" log])
      (simp_all add: sample_config_def QuickStepConfig_new_def)
  have thr: "wal_thresholds (effective_config (\<lambda>_. None) [] sample_config) = (32, 1024, 524288)"
    by (simp add: effective_config_def with_env_overrides_def read_env_usize_def wal_thresholds_def sample_config_def
        QuickStepConfig_new_def DEFAULT_WAL_LEAF_CHECKPOINT_THRESHOLD_def DEFAULT_WAL_GLOBAL_RECORD_THRESHOLD_def
        DEFAULT_WAL_GLOBAL_BYTE_THRESHOLD_def)
  have mt: "MapTable_capacity (map_table d) = 2" "get_entry (map_table d) 0 = PageEntry_leaf 0" "get_entry (map_table d) 1 = 0"
    using d(6) by (simp_all add: sample_config_def QuickStepConfig_new_def init_leaf_entry_def MapTable_new_def
        MapTable_capacity_def get_entry_def set_entry_def)
  have tr: "get_root (inner_nodes d) = RootLeaf 0" "root_vlock (inner_nodes d) = 0"
    using d(2,3) by (auto simp: BPTree_new_def get_root_def set_leaf_root_def split: if_splits)
  have c': "MiniPageBuffer_new 13 = Inr c" using c by (simp add: sample_config_def QuickStepConfig_new_def)
  show thesis
    by (rule that[OF d(1,5) mt c' d(4) tr d(7) _ _ _ d(10)]) (use d(9) thr in simp_all)
qed


theorem replay_page_applies_log_witness:
  "\<exists>d q io. get_page (io_engine d) 0 = Inr blank_leaf \<and> full_records blank_leaf = [] \<and>
    replay_page [(1, StatusCommitted)] (0, [put_record 0 [5] [1], put_record 0 [4] [7]]) d = (Inr (), d\<lparr>io_engine := io\<rparr>) \<and>
    get_page io 0 = Inr q \<and> full_records q = [([4], [7]), ([5], [1])]"
proof -
  obtain d :: Db where d: "get_page (io_engine d) 0 = Inr blank_leaf" "MapTable_capacity (map_table d) = 2"
    "get_entry (map_table d) 0 = PageEntry_leaf 0"
    by (rule sample_open[of "\<lparr>fbytes = [], fpos = 0\<rparr>"]) blast
  let ?rs = "[put_record 0 [5] [1], put_record 0 [4] [7]]"
  have es: "[([4], [7]), ([5], [1])] = fold (\<lambda>r es. apply_wal_op es (wal_key r) (wal_op r))
      (filter (applies [(1, StatusCommitted)]) ?rs) (full_records blank_leaf)"
    by (simp add: applies_def put_record_def blank_leaf_facts(3) apply_wal_op_def)
  have "\<exists>q io. replay_page [(1, StatusCommitted)] (0, ?rs) d = (Inr (), d\<lparr>io_engine := io\<rparr>) \<and>
    get_page io 0 = Inr q \<and> leaf_wf q \<and> full_records q = [([4], [7]), ([5], [1])] \<and> fence_bounds q = Inr ([0], [255])"
    by (rule replay_page_applies_log[OF _ _ _ d(1) blank_leaf_facts(2,9,4) _ es])
      (use d(2,3) in \<open>simp_all add: put_record_def\<close>)
  with d(1) blank_leaf_facts(3) show ?thesis by blast
qed

text \<open>A log with a committed transaction.\<close>

definition sample_commit :: WalRecord where
  "sample_commit = \<lparr>wal_page_id = TXN_META_PAGE_ID, wal_key = [], wal_lower_fence = [], wal_upper_fence = [],
    wal_kind = Redo, wal_txn_id = 1, wal_op = TxnMarker TxnCommit\<rparr>"

definition sample_log :: File where
  "sample_log = \<lparr>fbytes = manifest_buf WalManifest_new @
     enc_log [(0, [put_record 0 [5] [1]]), (TXN_META_PAGE_ID, [sample_commit])], fpos = 0\<rparr>"

theorem open_discards_log_witness:
  "wal_records (WalManager_open sample_log) = [put_record 0 [5] [1], sample_commit] \<and>
    (\<exists>d. QuickStep_new (\<lambda>_. None) [] [] [] sample_log sample_config = Inr d \<and> wal_records (wal d) = [] \<and>
      get_page (io_engine d) 0 = Inr blank_leaf \<and> full_records blank_leaf = [])"
proof -
  have "\<forall>g \<in> set [(0, [put_record 0 [5] [1]]), (TXN_META_PAGE_ID, [sample_commit])]. group_ok g"
    using single_group_ok[OF put_record_ok, of "[5]" "[1]" 0] single_group_ok[of sample_commit]
    by (simp add: record_ok_def sample_commit_def put_record_def)
  then have "wal_rep (WalManager_open sample_log) [(0, [put_record 0 [5] [1]]), (TXN_META_PAGE_ID, [sample_commit])]"
    by (rule open_rep(1)[where tail = "[]" and m = WalManifest_new, rotated]) (simp_all add: sample_log_def read_groups_Nil)
  moreover obtain d where d: "QuickStep_new (\<lambda>_. None) [] [] [] sample_log sample_config = Inr d"
    "get_page (io_engine d) 0 = Inr blank_leaf"
    by (rule sample_open) blast
  ultimately show ?thesis using open_discards_log[OF d(1)] blank_leaf_facts(3) by (simp add: wal_rep_def)
qed

end
