(* ===== verification/Transaction.thy ===== *)
theory Transaction
  imports Database
begin

text \<open>
  lib.rs, the transactions: \<open>QuickStepTx\<close> with its locks and its undo log.  The reference to the
  database is the state of the database, which every operation returns updated.  The operations
  are those of one thread; a handle of a page guard is dropped at every exit of the function that
  owns it.
\<close>

section \<open>State\<close>

datatype TxState = TxActive | TxCommitted | TxAborted

datatype UndoAction = UndoRestore u64 bytes bytes | UndoRemove u64 bytes

record Tx =
  tx_db :: Db
  lock_manager :: LockManager
  txn_id :: u64
  wal_entry_kind :: WalEntryKind
  undo_log :: "UndoAction list"
  tx_state :: TxState

text \<open>Sequencing of steps that may fail and of changes of the database.\<close>

definition andthen :: "'a result \<times> 's \<Rightarrow> ('a \<Rightarrow> 's \<Rightarrow> 'b result \<times> 's) \<Rightarrow> 'b result \<times> 's" where
  "andthen m k = (case m of (Inl e, s) \<Rightarrow> (Inl e, s) | (Inr x, s) \<Rightarrow> k x s)"

lemma andthen_simps [simp]: "andthen (Inl e, s) k = (Inl e, s)" "andthen (Inr x, s) k = k x s"
  by (simp_all add: andthen_def)

definition lift :: "'s \<Rightarrow> 'a result \<Rightarrow> 'a result \<times> 's" where
  "lift s r = (r, s)"

lemma lift_simps [simp]: "lift s (Inl e) = (Inl e, s)" "lift s (Inr x) = (Inr x, s)"
  by (simp_all add: lift_def)

definition with_wal :: "Tx \<Rightarrow> (WalState \<Rightarrow> 'a result \<times> WalState) \<Rightarrow> 'a result \<times> Tx" where
  "with_wal t f = (case f (wal (tx_db t)) of (r, w) \<Rightarrow> (r, t\<lparr>tx_db := (tx_db t)\<lparr>wal := w\<rparr>\<rparr>))"

definition with_tree :: "Tx \<Rightarrow> (BPTree \<Rightarrow> 'a result \<times> BPTree) \<Rightarrow> 'a result \<times> Tx" where
  "with_tree t f = (case f (inner_nodes (tx_db t)) of (r, b) \<Rightarrow> (r, t\<lparr>tx_db := (tx_db t)\<lparr>inner_nodes := b\<rparr>\<rparr>))"

definition with_debug :: "Tx \<Rightarrow> (Debug \<Rightarrow> Debug) \<Rightarrow> Tx" where
  "with_debug t f = t\<lparr>tx_db := (tx_db t)\<lparr>debug_state := f (debug_state (tx_db t))\<rparr>\<rparr>"

definition set_cache :: "Tx \<Rightarrow> MiniPageBuffer \<Rightarrow> Tx" where
  "set_cache t c = t\<lparr>tx_db := (tx_db t)\<lparr>cache := c\<rparr>\<rparr>"

text \<open>\<open>QuickStep::tx\<close>.\<close>

definition tx_begin :: "Db \<Rightarrow> Tx result" where
  "tx_begin d =
    (let id = next_txn_id d; d = d\<lparr>next_txn_id := id + 1\<rparr> in
     case append_txn_marker (wal d) TxnBegin Redo id of
       (Inl e, _) \<Rightarrow> Inl e
     | (Inr _, w) \<Rightarrow>
         Inr \<lparr>tx_db = d\<lparr>wal := w\<rparr>, lock_manager = LockManager_new, txn_id = id, wal_entry_kind = Redo,
           undo_log = [], tx_state = TxActive\<rparr>)"

section \<open>Page guards\<close>

definition acquire_write :: "Tx \<Rightarrow> u64 \<Rightarrow> u64 result \<times> Tx" where
  "acquire_write t page =
    (if MapTable_capacity (map_table (tx_db t)) \<le> unat page then (Inl UndefinedBehaviour, t)
     else
       case get_upgrade_or_acquire_write_lock (lock_manager t) (map_table (tx_db t)) page of
         (r, lm, mt) \<Rightarrow> (r, t\<lparr>lock_manager := lm, tx_db := (tx_db t)\<lparr>map_table := mt\<rparr>\<rparr>))"

text \<open>The drop of a handle at the end of a function with the result \<open>r\<close>.\<close>

definition release :: "u64 \<Rightarrow> 'a result \<times> Tx \<Rightarrow> 'a result \<times> Tx" where
  "release h rt =
    (let (r, t) = rt in
     case PageHandle_drop (lock_manager t) h of
       (Inl e, lm) \<Rightarrow> (Inl e, t\<lparr>lock_manager := lm\<rparr>)
     | (Inr _, lm) \<Rightarrow> (r, t\<lparr>lock_manager := lm\<rparr>))"

definition handle_ref :: "Tx \<Rightarrow> u64 \<Rightarrow> NodeRef result" where
  "handle_ref t h =
    (case get_write_guard (lock_manager t) h of Inl e \<Rightarrow> Inl e | Inr (_, node) \<Rightarrow> Inr (PageEntry_get_ref node))"

text \<open>The index of the mini-page behind a handle, where the code does not expect a leaf.\<close>

definition mini_index :: "Tx \<Rightarrow> u64 \<Rightarrow> fault \<Rightarrow> nat result" where
  "mini_index t h f =
    (case handle_ref t h of Inl e \<Rightarrow> Inl e | Inr (MiniPage idx) \<Rightarrow> Inr idx | Inr (Leaf _) \<Rightarrow> Inl f)"

definition tx_page :: "Tx \<Rightarrow> nat \<Rightarrow> bytes" where
  "tx_page t idx = get_meta_ref (cache (tx_db t)) idx"

definition set_page :: "Tx \<Rightarrow> nat \<Rightarrow> bytes \<Rightarrow> Tx" where
  "set_page t idx p = set_cache t (put_meta (cache (tx_db t)) idx p)"

section \<open>Promotion\<close>

definition promote_leaf_to_mini_page :: "Tx \<Rightarrow> u64 \<Rightarrow> u64 \<Rightarrow> unit result \<times> Tx" where
  "promote_leaf_to_mini_page t h disk_addr =
    (case alloc (cache (tx_db t)) LeafPage of
       (None, c) \<Rightarrow> (Inl (QSErr CacheExhausted), set_cache t c)
     | (Some cache_index, c) \<Rightarrow>
         let t = set_cache t c in
         case handle_load_leaf (lock_manager t) (io_engine (tx_db t)) h disk_addr of
           (Inl e, lm) \<Rightarrow> (Inl e, t\<lparr>lock_manager := lm\<rparr>)
         | (Inr disk_leaf, lm) \<Rightarrow>
             case handle_set_mini_page lm (map_table (tx_db t)) h cache_index of
               (Inl e, lm, mt) \<Rightarrow> (Inl e, t\<lparr>lock_manager := lm, tx_db := (tx_db t)\<lparr>map_table := mt\<rparr>\<rparr>)
             | (Inr _, lm, mt) \<Rightarrow>
                 let t = t\<lparr>lock_manager := lm, tx_db := (tx_db t)\<lparr>map_table := mt\<rparr>\<rparr>;
                     t = set_page t cache_index disk_leaf;
                     node_meta = tx_page t cache_index
                 in
                   if record_count node_meta < 2 then (Inl (Panic PanicAssert), t)
                   else (Inr (), set_page t cache_index (mark_page_hot node_meta)))"

lemma locks_set_page [simp]: "lock_manager (set_page t i p) = lock_manager t" "lock_manager (set_cache t c) = lock_manager t"
  by (simp_all add: set_page_def set_cache_def)

lemma write_locked_is_mini: "PageEntry_get_ref (PageEntry_new_write_locked i) = MiniPage (unat (drop_bit 16 (PageEntry_new_write_locked i)))"
proof -
  have "\<not> bit (PageEntry_new_write_locked i) 15"
    by (simp add: PageEntry_new_write_locked_def bit_set_state bit_simps bit_WRITE_LOCK_STATE)
  then show ?thesis by (simp add: get_ref_bits)
qed

lemma handle_set_mini_slot:
  "handle_set_mini_page lm mt h i = (Inr u, lm', mt') \<Longrightarrow>
    \<exists>s page. get_slot lm' h = Some s \<and> guard_inner (slot_guard s) = Write page (PageEntry_new_write_locked i)"
  by (auto simp: handle_set_mini_page_def Let_def split: option.splits GuardWrapper.splits)

lemma promote_gives_mini:
  assumes "promote_leaf_to_mini_page t h addr = (Inr u, t')"
  shows "\<exists>idx. handle_ref t' h = Inr (MiniPage idx)"
proof -
  obtain ci0 c where a: "alloc (cache (tx_db t)) LeafPage = (ci0, c)" by fastforce
  with assms obtain ci where ci: "ci0 = Some ci" by (cases ci0) (auto simp: promote_leaf_to_mini_page_def)
  obtain r lm where l: "handle_load_leaf (lock_manager t) (io_engine (tx_db t)) h addr = (r, lm)" by fastforce
  obtain r2 lm2 mt where s: "handle_set_mini_page lm (map_table (tx_db t)) h ci = (r2, lm2, mt)"
    by (metis surj_pair)
  have db: "io_engine (tx_db (set_cache t c)) = io_engine (tx_db t)" "map_table (tx_db (set_cache t c)) = map_table (tx_db t)"
    by (simp_all add: set_cache_def)
  from assms a ci l s db have "lock_manager t' = lm2" "r2 = Inr ()"
    by (auto simp: promote_leaf_to_mini_page_def Let_def split: sum.splits if_splits)
  with handle_set_mini_slot s obtain sl page where "get_slot (lock_manager t') h = Some sl"
    "guard_inner (slot_guard sl) = Write page (PageEntry_new_write_locked ci)" by metis
  then show ?thesis by (simp add: handle_ref_def get_write_guard_def write_locked_is_mini)
qed

function ensure_mini_page :: "Tx \<Rightarrow> u64 \<Rightarrow> unit result \<times> Tx" where
  "ensure_mini_page t h =
    (case handle_ref t h of
       Inl e \<Rightarrow> (Inl e, t)
     | Inr (MiniPage _) \<Rightarrow> (Inr (), t)
     | Inr (Leaf addr) \<Rightarrow>
         case promote_leaf_to_mini_page t h addr of
           (Inl e, t) \<Rightarrow> (Inl e, t)
         | (Inr _, t) \<Rightarrow> ensure_mini_page t h)"
  by pat_completeness auto

termination
  by (relation "measure (\<lambda>(t, h). case handle_ref t h of Inr (Leaf _) \<Rightarrow> 1 | _ \<Rightarrow> 0)")
    (auto dest!: promote_gives_mini[OF sym])

declare ensure_mini_page.simps [simp del]

definition handle_try_put :: "Tx \<Rightarrow> u64 \<Rightarrow> bytes \<Rightarrow> bytes \<Rightarrow> TryPutResult result \<times> Tx" where
  "handle_try_put t h key val =
    (case guard_try_put (lock_manager t) h (cache (tx_db t)) key val of (r, c) \<Rightarrow> (r, set_cache t c))"

lemma try_put_needs_promotion:
  "handle_try_put t h key val = (Inr (NeedsPromotion addr), t') \<Longrightarrow> handle_ref t h = Inr (Leaf addr) \<and> t' = set_cache t (cache (tx_db t))"
  by (auto simp: handle_try_put_def guard_try_put_def handle_ref_def
      split: sum.splits prod.splits NodeRef.splits fault.splits)

lemma handle_ref_set_cache [simp]: "handle_ref (set_cache t c) h = handle_ref t h"
  by (simp add: handle_ref_def)

function try_put_with_promotion :: "Tx \<Rightarrow> u64 \<Rightarrow> bytes \<Rightarrow> bytes \<Rightarrow> TryPutResult result \<times> Tx" where
  "try_put_with_promotion t h key val =
    (case handle_try_put t h key val of
       (Inr (NeedsPromotion addr), t) \<Rightarrow>
         (case promote_leaf_to_mini_page t h addr of
            (Inl e, t) \<Rightarrow> (Inl e, t)
          | (Inr _, t) \<Rightarrow> try_put_with_promotion t h key val)
     | other \<Rightarrow> other)"
  by pat_completeness auto

termination
  by (relation "measure (\<lambda>(t, h, key, val). case handle_ref t h of Inr (Leaf _) \<Rightarrow> 1 | _ \<Rightarrow> 0)")
    (auto dest!: promote_gives_mini[OF sym] try_put_needs_promotion[OF sym])

declare try_put_with_promotion.simps [simp del]

section \<open>Values and fences of a page\<close>

definition existing_value :: "Tx \<Rightarrow> u64 \<Rightarrow> bytes \<Rightarrow> bytes option result" where
  "existing_value t h key =
    (case handle_ref t h of
       Inl e \<Rightarrow> Inl e
     | Inr r \<Rightarrow> (case page_of_ref (tx_db t) r of Inl e \<Rightarrow> Inl e | Inr p \<Rightarrow> node_get p key))"

definition leaf_snapshot :: "Tx \<Rightarrow> u64 \<Rightarrow> (u64 \<times> bytes \<times> bytes) result" where
  "leaf_snapshot t h =
    (case handle_ref t h of
       Inl e \<Rightarrow> Inl e
     | Inr (MiniPage idx) \<Rightarrow>
         (case fence_bounds (tx_page t idx) of
            Inl e \<Rightarrow> Inl e
          | Inr (lower, upper) \<Rightarrow> Inr (NodeMeta_leaf (node_header (tx_page t idx)), lower, upper))
     | Inr (Leaf addr) \<Rightarrow>
         (case get_page (io_engine (tx_db t)) addr of
            Inl e \<Rightarrow> Inl e
          | Inr leaf \<Rightarrow>
              case collect_fence_keys leaf of Inl e \<Rightarrow> Inl e | Inr (lower, upper) \<Rightarrow> Inr (addr, lower, upper)))"

section \<open>Checkpoints\<close>

definition flush_handle :: "Tx \<Rightarrow> u64 \<Rightarrow> unit result \<times> Tx" where
  "flush_handle t h =
    (case merge_to_disk (lock_manager t) h (cache (tx_db t)) (io_engine (tx_db t)) of
       (r, c, io) \<Rightarrow> (r, t\<lparr>tx_db := (tx_db t)\<lparr>cache := c, io_engine := io\<rparr>\<rparr>))"

definition maybe_checkpoint_leaf :: "Tx \<Rightarrow> u64 \<Rightarrow> u64 \<Rightarrow> unit result \<times> Tx" where
  "maybe_checkpoint_leaf t h page_id =
    (if \<not> should_checkpoint_page (wal (tx_db t)) page_id (wal_leaf_checkpoint_threshold (tx_db t)) then (Inr (), t)
     else
       andthen (ensure_mini_page t h) (\<lambda>_ t.
       andthen (flush_handle t h) (\<lambda>_ t.
       with_wal t (\<lambda>w. checkpoint_page w page_id))))"

definition checkpoint_candidate :: "Db \<Rightarrow> u64 option" where
  "checkpoint_candidate d =
    (case global_checkpoint_candidate (wal d) (wal_global_record_threshold d) (wal_global_byte_threshold d) of
       Some page \<Rightarrow> Some page
     | None \<Rightarrow> if wal_checkpoint_requested d then global_checkpoint_candidate (wal d) 0 0 else None)"

definition maybe_global_checkpoint :: "Tx \<Rightarrow> unit result \<times> Tx" where
  "maybe_global_checkpoint t =
    (case checkpoint_candidate (tx_db t) of
       None \<Rightarrow> (Inr (), t)
     | Some page_id \<Rightarrow>
         andthen (acquire_write t page_id) (\<lambda>h t.
           release h (
             andthen (ensure_mini_page t h) (\<lambda>_ t.
             andthen (flush_handle t h) (\<lambda>_ t.
             andthen (with_wal t (\<lambda>w. checkpoint_page w page_id)) (\<lambda>_ t.
               (Inr (), t\<lparr>tx_db := (tx_db t)\<lparr>wal_checkpoint_requested := False\<rparr>\<rparr>)))))))"

section \<open>Undo\<close>

definition log_put_undo :: "Tx \<Rightarrow> u64 \<Rightarrow> bytes \<Rightarrow> bytes option \<Rightarrow> Tx" where
  "log_put_undo t page_id key undo_value =
    (case undo_value of
       Some v \<Rightarrow> t\<lparr>undo_log := undo_log t @ [UndoRestore page_id key v]\<rparr>
     | None \<Rightarrow> t\<lparr>undo_log := undo_log t @ [UndoRemove page_id key]\<rparr>)"

definition log_delete_undo :: "Tx \<Rightarrow> u64 \<Rightarrow> bytes \<Rightarrow> bytes option \<Rightarrow> Tx" where
  "log_delete_undo t page_id key undo_value =
    (case undo_value of
       Some v \<Rightarrow> t\<lparr>undo_log := undo_log t @ [UndoRestore page_id key v]\<rparr>
     | None \<Rightarrow> t)"

text \<open>A fallible operation on a page; \<open>map_err\<close> turns its error into one of the crate.\<close>

definition map_err :: "qs_error \<Rightarrow> 'a result \<Rightarrow> 'a result" where
  "map_err e r = (case r of Inl InsufficientSpace \<Rightarrow> Inl (QSErr e) | _ \<Rightarrow> r)"

definition apply_undo_action :: "Tx \<Rightarrow> UndoAction \<Rightarrow> unit result \<times> Tx" where
  "apply_undo_action t action =
    (let page_id = (case action of UndoRestore p _ _ \<Rightarrow> p | UndoRemove p _ \<Rightarrow> p) in
     andthen (acquire_write t page_id) (\<lambda>h t.
       release h (
         andthen (ensure_mini_page t h) (\<lambda>_ t.
         andthen (lift t (mini_index t h (Panic PanicUnreachable))) (\<lambda>index t.
           case action of
             UndoRestore _ key v \<Rightarrow>
               (case remove_key_physical (tx_page t index) key of
                  (Inl e, p) \<Rightarrow> (Inl e, set_page t index p)
                | (Inr _, p) \<Rightarrow>
                    case try_put p key v of (r, p) \<Rightarrow> (map_err SplitFailed r, set_page t index p))
           | UndoRemove _ key \<Rightarrow>
               (case remove_key_physical (tx_page t index) key of
                  (Inl e, p) \<Rightarrow> (Inl e, set_page t index p)
                | (Inr _, p) \<Rightarrow> (Inr (), set_page t index p)))))))"

text \<open>The loop that pops the undo log, over its reversal.\<close>

fun undo_all :: "UndoAction list \<Rightarrow> Tx \<Rightarrow> unit result \<times> Tx" where
  "undo_all [] t = (Inr (), t)"
| "undo_all (action # actions) t =
    andthen (apply_undo_action (t\<lparr>undo_log := rev actions\<rparr>) action) (\<lambda>_ t. undo_all actions t)"

definition apply_undo_actions :: "Tx \<Rightarrow> unit result \<times> Tx" where
  "apply_undo_actions t = undo_all (rev (undo_log t)) t"

section \<open>The end of a transaction\<close>

definition commit_in_place :: "Tx \<Rightarrow> unit result \<times> Tx" where
  "commit_in_place t =
    (if tx_state t \<noteq> TxActive then (Inr (), t)
     else
       andthen (with_wal t (\<lambda>w. append_txn_marker w TxnCommit (wal_entry_kind t) (txn_id t))) (\<lambda>_ t.
         (Inr (), t\<lparr>undo_log := [], tx_state := TxCommitted\<rparr>)))"

text \<open>An error of the roll-back is the panic of \<open>expect\<close>.\<close>

definition expect_ok :: "'a result \<times> 's \<Rightarrow> 'a result \<times> 's" where
  "expect_ok rs = (case rs of (Inl (QSErr _), s) \<Rightarrow> (Inl (Panic PanicExpect), s) | _ \<Rightarrow> rs)"

definition abort_in_place :: "Tx \<Rightarrow> unit result \<times> Tx" where
  "abort_in_place t =
    (if tx_state t \<noteq> TxActive then (Inr (), t)
     else
       andthen (expect_ok (apply_undo_actions t)) (\<lambda>_ t.
       andthen (with_wal t (\<lambda>w. append_txn_marker w TxnAbort (wal_entry_kind t) (txn_id t))) (\<lambda>_ t.
         (Inr (), t\<lparr>undo_log := [], tx_state := TxAborted\<rparr>))))"

text \<open>The drop of a transaction aborts it when it is still active, then its locks are released.\<close>

definition tx_drop :: "Tx \<Rightarrow> unit result \<times> Db" where
  "tx_drop t =
    (case (if tx_state t = TxActive then abort_in_place t else (Inr (), t)) of
       (r, t) \<Rightarrow> (r, (tx_db t)\<lparr>map_table := LockManager_drop (lock_manager t) (map_table (tx_db t))\<rparr>))"

definition tx_commit :: "Tx \<Rightarrow> unit result \<times> Db" where
  "tx_commit t =
    (case commit_in_place t of
       (Inl e, t) \<Rightarrow> (Inl e, snd (tx_drop t))
     | (Inr _, t) \<Rightarrow> tx_drop t)"

definition tx_abort :: "Tx \<Rightarrow> unit result \<times> Db" where
  "tx_abort t =
    (case abort_in_place t of
       (Inl e, t) \<Rightarrow> (Inl e, tx_db t)
     | (Inr _, t) \<Rightarrow> tx_drop t)"

section \<open>Lookup\<close>

definition tx_get :: "Tx \<Rightarrow> bytes \<Rightarrow> bytes option result \<times> Tx" where
  "tx_get t key =
    (case read_traverse_leaf (inner_nodes (tx_db t)) key of
       Inl e \<Rightarrow> (Inl e, t)
     | Inr res \<Rightarrow>
         let page = read_page res in
         if MapTable_capacity (map_table (tx_db t)) \<le> unat page then (Inl UndefinedBehaviour, t)
         else
           case get_or_acquire_read_lock (lock_manager t) (map_table (tx_db t)) page of
             (Inl e, lm, mt) \<Rightarrow> (Inl e, t\<lparr>lock_manager := lm, tx_db := (tx_db t)\<lparr>map_table := mt\<rparr>\<rparr>)
           | (Inr page_guard, lm, mt) \<Rightarrow>
               let t = t\<lparr>lock_manager := lm, tx_db := (tx_db t)\<lparr>map_table := mt\<rparr>\<rparr>;
                   (r, g) = PageGuard_get (cache (tx_db t)) (io_engine (tx_db t)) page_guard key
               in
                 (r, case get_slot lm page of
                       None \<Rightarrow> t
                     | Some s \<Rightarrow> t\<lparr>lock_manager := set_slot lm page (s\<lparr>slot_guard := g\<rparr>)\<rparr>))"

section \<open>Logging a put\<close>

definition append_wal_put :: "Tx \<Rightarrow> u64 \<Rightarrow> bytes \<Rightarrow> bytes \<Rightarrow> bytes option \<Rightarrow> unit result \<times> Tx" where
  "append_wal_put t h key val undo_value =
    (let page_id = h in
     andthen (lift t (leaf_snapshot t h)) (\<lambda>(_, lower, upper) t.
     andthen (with_wal t (\<lambda>w. append_put w page_id key val lower upper (wal_entry_kind t) (txn_id t))) (\<lambda>_ t.
     andthen (case undo_value of
         Some prev \<Rightarrow> with_wal t (\<lambda>w. append_put w page_id key prev lower upper Undo (txn_id t))
       | None \<Rightarrow> with_wal t (\<lambda>w. append_tombstone w page_id key lower upper Undo (txn_id t))) (\<lambda>_ t.
     maybe_checkpoint_leaf (log_put_undo t page_id key undo_value) h page_id))))"

section \<open>New mini-pages\<close>

text \<open>The loop that allocates, and evicts when there is no space; it need not end.\<close>

definition db_env :: "Db \<Rightarrow> CacheEnv" where
  "db_env d = \<lparr>ev_cache = cache d, ev_map = map_table d, ev_io = io_engine d, ev_wal = wal d, ev_debug = debug_state d\<rparr>"

definition set_db_env :: "Db \<Rightarrow> CacheEnv \<Rightarrow> Db" where
  "set_db_env d env = d\<lparr>cache := ev_cache env, map_table := ev_map env, io_engine := ev_io env, wal := ev_wal env,
    debug_state := ev_debug env\<rparr>"

partial_function (option) alloc_or_evict :: "NodeSize \<Rightarrow> Db \<Rightarrow> (nat result \<times> Db) option" where
  "alloc_or_evict sz d =
    (case alloc (cache d) sz of
       (Some idx, c) \<Rightarrow> Some (Inr idx, d\<lparr>cache := c\<rparr>)
     | (None, c) \<Rightarrow>
         case evict (db_env (d\<lparr>cache := c\<rparr>)) of
           None \<Rightarrow> None
         | Some (Inl e, env) \<Rightarrow> Some (Inl e, set_db_env d env)
         | Some (Inr _, env) \<Rightarrow> alloc_or_evict sz (set_db_env d env))"

text \<open>\<open>NodeMeta::init\<close>: the disk address, the entry of the page table, the header and the lock.\<close>

definition NodeMeta_init :: "Tx \<Rightarrow> nat \<Rightarrow> NodeSize \<Rightarrow> u64 option \<Rightarrow> u64 result \<times> Tx" where
  "NodeMeta_init t index sz disk_addr =
    (let d = tx_db t;
         (addr, io) = (case disk_addr of Some a \<Rightarrow> (a, io_engine d) | None \<Rightarrow> get_new_addr (io_engine d));
         t = t\<lparr>tx_db := d\<lparr>io_engine := io\<rparr>\<rparr>
     in
       case create_page_entry (map_table d) index of
         (Inl e, mt) \<Rightarrow> (Inl e, t\<lparr>tx_db := (tx_db t)\<lparr>map_table := mt\<rparr>\<rparr>)
       | (Inr (page, node), mt) \<Rightarrow>
           let page_id = word_of_nat page;
               t = t\<lparr>tx_db := (tx_db t)\<lparr>map_table := mt\<rparr>\<rparr>;
               t = set_page t index (set_node_header (tx_page t index) (NodeMeta_init_header addr sz page_id))
           in
             case insert_write_lock (lock_manager t) (map_table (tx_db t)) page_id node of
               (r, lm, mt) \<Rightarrow> (r, t\<lparr>lock_manager := lm, tx_db := (tx_db t)\<lparr>map_table := mt\<rparr>\<rparr>))"

definition new_mini_page :: "Tx \<Rightarrow> NodeSize \<Rightarrow> u64 option \<Rightarrow> (u64 result \<times> Tx) option" where
  "new_mini_page t sz disk_addr =
    (case alloc_or_evict sz (tx_db t) of
       None \<Rightarrow> None
     | Some (Inl e, d) \<Rightarrow> Some (Inl e, t\<lparr>tx_db := d\<rparr>)
     | Some (Inr idx, d) \<Rightarrow>
         Some (andthen (NodeMeta_init (t\<lparr>tx_db := d\<rparr>) idx sz disk_addr) (\<lambda>h t.
           case handle_ref t h of
             Inl e \<Rightarrow> (Inl e, t)
           | Inr (Leaf _) \<Rightarrow> (Inr h, t)
           | Inr (MiniPage index) \<Rightarrow>
               (case ensure_fence_keys (tx_page t index) of
                  (Inl e, p) \<Rightarrow> (Inl e, set_page t index p)
                | (Inr _, p) \<Rightarrow> (Inr h, set_page t index p)))))"

section \<open>Splits\<close>

definition lock_bundle_for_split :: "Tx \<Rightarrow> bytes \<Rightarrow> (WriteLockBundle \<times> u64) result \<times> Tx" where
  "lock_bundle_for_split t key =
    (case read_traverse_leaf (inner_nodes (tx_db t)) key of
       Inl e \<Rightarrow> (Inl e, t)
     | Inr res \<Rightarrow>
         andthen (with_tree t (\<lambda>b. write_lock b (overflow_point res) OpSplit key)) (\<lambda>bundle t.
           (Inr (bundle, read_page res), t)))"

definition plan_leaf_split :: "Tx \<Rightarrow> u64 \<Rightarrow> LeafSplitPlan result" where
  "plan_leaf_split t h =
    (case mini_index t h (Panic PanicUnreachable) of
       Inl e \<Rightarrow> Inl e
     | Inr idx \<Rightarrow> LeafSplitPlan_from_node (tx_page t idx))"

text \<open>
  The copy of the left page into the right one, after which the identity of the right page is
  read, and the distribution of the records.
\<close>

definition apply_leaf_split :: "Tx \<Rightarrow> u64 \<Rightarrow> u64 \<Rightarrow> LeafSplitPlan \<Rightarrow> LeafSplitOutcome result \<times> Tx" where
  "apply_leaf_split t left right plan =
    (case mini_index t left (QSErr SplitFailed) of
       Inl e \<Rightarrow> (Inl e, t)
     | Inr left_index \<Rightarrow>
         case mini_index t right (QSErr SplitFailed) of
           Inl e \<Rightarrow> (Inl e, t)
         | Inr right_index \<Rightarrow>
             case NodeMeta_size (node_header (tx_page t left_index)) of
               None \<Rightarrow> (Inl UndefinedBehaviour, t)
             | Some sz \<Rightarrow>
                 let copy_bytes = NodeSize_size_in_bytes sz;
                     t = set_page t right_index (write_at (tx_page t right_index) 0 (take copy_bytes (tx_page t left_index)));
                     left_meta = tx_page t left_index;
                     right_meta = tx_page t right_index;
                     right_page_id = NodeMeta_page_id (node_header right_meta);
                     right_disk_addr = NodeMeta_leaf (node_header right_meta)
                 in
                   case LeafSplitPlan_apply plan left_meta right_meta of
                     (r, left_meta, right_meta) \<Rightarrow>
                       (case map_err SplitFailed r of
                          Inl e \<Rightarrow> (Inl e, set_page (set_page t left_index left_meta) right_index right_meta)
                        | Inr outcome \<Rightarrow>
                            let right_meta = set_node_header right_meta
                              (NodeMeta_set_identity (node_header right_meta) right_page_id right_disk_addr)
                            in (Inr outcome, set_page (set_page t left_index left_meta) right_index right_meta)))"

record PendingParentSplit =
  pending_left :: ChildPointer
  pending_pivot :: bytes
  pending_right :: ChildPointer
  pending_level :: nat

text \<open>The loop of \<open>bubble_split_up\<close>, by the index in the chain.\<close>

fun bubble_split_up :: "BPTree \<Rightarrow> WriteLockBundle \<Rightarrow> nat \<Rightarrow> PendingParentSplit \<Rightarrow> unit result \<times> BPTree" where
  "bubble_split_up b bundle 0 pending =
    (if \<not> root_lock bundle then (Inl (Panic PanicExpect), b)
     else
       case as_inner (pending_left pending) of
         Inl e \<Rightarrow> (Inl e, b)
       | Inr l \<Rightarrow>
           case as_inner (pending_right pending) of
             Inl e \<Rightarrow> (Inl e, b)
           | Inr r \<Rightarrow> promote_inner_root b l r (pending_pivot pending) (pending_level pending))"
| "bubble_split_up b bundle (Suc idx) pending =
    (let (level, node) = chain bundle ! idx in
     case guard_insert_entry b node level (pending_left pending) (pending_pivot pending) (pending_right pending) of
       (Inr _, b) \<Rightarrow> (Inr (), b)
     | (Inl (QSErr NodeFull), b) \<Rightarrow>
         (case split_inner_node b node level (pending_left pending) (pending_pivot pending) (pending_right pending) of
            (Inl e, b) \<Rightarrow> (Inl e, b)
          | (Inr (split_pivot, right_node), b) \<Rightarrow>
              bubble_split_up b bundle idx
                \<lparr>pending_left = ChildInner node, pending_pivot = split_pivot,
                 pending_right = ChildInner right_node, pending_level = level\<rparr>)
     | (Inl e, b) \<Rightarrow> (Inl e, b))"

definition insert_into_parents_after_leaf_split ::
    "BPTree \<Rightarrow> WriteLockBundle \<Rightarrow> u64 \<Rightarrow> bytes \<Rightarrow> u64 \<Rightarrow> unit result \<times> BPTree" where
  "insert_into_parents_after_leaf_split b bundle left_leaf pivot right_leaf =
    (if chain bundle = [] then
       if \<not> root_lock bundle then (Inl (Panic PanicExpect), b)
       else promote_leaf_root b left_leaf right_leaf pivot
     else
       let parent_idx = length (chain bundle) - 1;
           (level, node) = chain bundle ! parent_idx
       in
         case guard_insert_entry b node level (ChildLeaf left_leaf) pivot (ChildLeaf right_leaf) of
           (Inr _, b) \<Rightarrow> (Inr (), b)
         | (Inl (QSErr NodeFull), b) \<Rightarrow>
             (case split_inner_node b node level (ChildLeaf left_leaf) pivot (ChildLeaf right_leaf) of
                (Inl e, b) \<Rightarrow> (Inl e, b)
              | (Inr (split_pivot, right_node), b) \<Rightarrow>
                  bubble_split_up b bundle parent_idx
                    \<lparr>pending_left = ChildInner node, pending_pivot = split_pivot,
                     pending_right = ChildInner right_node, pending_level = level\<rparr>)
         | (Inl e, b) \<Rightarrow> (Inl e, b))"

definition drop_bundle :: "WriteLockBundle \<Rightarrow> 'a result \<times> Tx \<Rightarrow> 'a result \<times> Tx" where
  "drop_bundle bundle rt =
    (let (r, t) = rt in (r, t\<lparr>tx_db := (tx_db t)\<lparr>inner_nodes := bundle_drop bundle (inner_nodes (tx_db t))\<rparr>\<rparr>))"

text \<open>
  The split consumes the handle of the left page and returns the one of the page the key belongs
  to; the other handle and the bundle are dropped.
\<close>

definition split_current_leaf :: "Tx \<Rightarrow> u64 \<Rightarrow> bytes \<Rightarrow> (u64 result \<times> Tx) option" where
  "split_current_leaf t left key =
    (case lock_bundle_for_split t key of
       (Inl e, t) \<Rightarrow> Some (release left (Inl e, t))
     | (Inr (bundle, page_id), t) \<Rightarrow>
         if page_id \<noteq> left then Some (release left (drop_bundle bundle (Inl (Panic PanicAssert), t)))
         else
           case new_mini_page t LeafPage None of
             None \<Rightarrow> None
           | Some (Inl e, t) \<Rightarrow> Some (release left (drop_bundle bundle (Inl e, t)))
           | Some (Inr right, t) \<Rightarrow>
               Some (
                 case
                   andthen (lift t (plan_leaf_split t left)) (\<lambda>plan t.
                   andthen (apply_leaf_split t left right plan) (\<lambda>outcome t.
                   andthen (with_tree (with_debug t (record_split_event left right (out_pivot_key outcome)
                       (left_count outcome) (right_count outcome))) (\<lambda>b. insert_into_parents_after_leaf_split b bundle left
                       (out_pivot_key outcome) right)) (\<lambda>_ t.
                   (Inr (out_pivot_key outcome), t))))
                 of
                   (Inl e, t) \<Rightarrow> release left (release right (drop_bundle bundle (Inl e, t)))
                 | (Inr pivot, t) \<Rightarrow>
                     if pivot \<le> key then release left (drop_bundle bundle (Inr right, t))
                     else release right (drop_bundle bundle (Inr left, t))))"

section \<open>Put\<close>

partial_function (option) put_loop ::
    "Tx \<Rightarrow> u64 \<Rightarrow> bytes \<Rightarrow> bytes \<Rightarrow> bytes option \<Rightarrow> (unit result \<times> Tx) option" where
  "put_loop t h key val undo_value =
    (case try_put_with_promotion t h key val of
       (Inl e, t) \<Rightarrow> Some (release h (Inl e, t))
     | (Inr Success, t) \<Rightarrow>
         Some (release h (andthen (append_wal_put t h key val undo_value) (\<lambda>_ t. maybe_global_checkpoint t)))
     | (Inr (NeedsPromotion _), t) \<Rightarrow> Some (release h (Inl (Panic PanicUnreachable), t))
     | (Inr NeedsSplit, t) \<Rightarrow>
         (case split_current_leaf t h key of
            None \<Rightarrow> None
          | Some (Inl e, t) \<Rightarrow> Some (Inl e, t)
          | Some (Inr h, t) \<Rightarrow> put_loop t h key val undo_value))"

definition tx_put :: "Tx \<Rightarrow> bytes \<Rightarrow> bytes \<Rightarrow> (unit result \<times> Tx) option" where
  "tx_put t key val =
    (case read_traverse_leaf (inner_nodes (tx_db t)) key of
       Inl e \<Rightarrow> Some (Inl e, t)
     | Inr res \<Rightarrow>
         case acquire_write t (read_page res) of
           (Inl e, t) \<Rightarrow> Some (Inl e, t)
         | (Inr h, t) \<Rightarrow>
             case existing_value t h key of
               Inl e \<Rightarrow> Some (release h (Inl e, t))
             | Inr undo_value \<Rightarrow> put_loop t h key val undo_value)"

section \<open>Merges\<close>

text \<open>
  The loop of \<open>remove_parent_after_merge\<close> above the parent of the leaves, by the index in the
  chain.  The guard of the node itself is passed as the child to remove, as in the code.
\<close>

definition demote_if_locked :: "BPTree \<Rightarrow> WriteLockBundle \<Rightarrow> ChildPointer \<Rightarrow> nat \<Rightarrow> unit result \<times> BPTree" where
  "demote_if_locked b bundle child level =
    (if root_lock bundle then demote_root_after_merge b child level else (Inr (), b))"

fun merge_up :: "BPTree \<Rightarrow> WriteLockBundle \<Rightarrow> nat \<Rightarrow> ChildPointer \<Rightarrow> unit result \<times> BPTree" where
  "merge_up b bundle idx child =
    (let (parent_level, node) = chain bundle ! idx in
     case remove_child_after_merge b node parent_level child (ChildInner node) of
       (Inl e, b) \<Rightarrow> (Inl e, b)
     | (Inr None, b) \<Rightarrow> (Inr (), b)
     | (Inr (Some child_ptr), b) \<Rightarrow>
         case idx of
           0 \<Rightarrow> demote_if_locked b bundle child_ptr parent_level
         | Suc idx \<Rightarrow> merge_up b bundle idx child_ptr)"

declare merge_up.simps [simp del]

text \<open>The bundle is returned, since the guard of an emptied parent is popped and released.\<close>

definition remove_parent_after_merge ::
    "BPTree \<Rightarrow> WriteLockBundle \<Rightarrow> u64 \<Rightarrow> u64 \<Rightarrow> unit result \<times> BPTree \<times> WriteLockBundle" where
  "remove_parent_after_merge b bundle survivor removed =
    (if chain bundle = [] then (Inr (), b, bundle)
     else
       let parent_idx = length (chain bundle) - 1;
           (level, node) = chain bundle ! parent_idx
       in
         case remove_child_after_merge b node level (ChildLeaf survivor) (ChildLeaf removed) of
           (Inl e, b) \<Rightarrow> (Inl e, b, bundle)
         | (Inr None, b) \<Rightarrow> (Inr (), b, bundle)
         | (Inr (Some child), b) \<Rightarrow>
             if parent_idx = 0 then (case demote_if_locked b bundle child level of (r, b) \<Rightarrow> (r, b, bundle))
             else
               let b = inner_unlock node b;
                   bundle = bundle\<lparr>chain := butlast (chain bundle)\<rparr>
               in (case merge_up b bundle (parent_idx - 1) child of (r, b) \<Rightarrow> (r, b, bundle)))"

text \<open>The result carries the outcome of the last step and the guards that are still held.\<close>

definition merge_leaf_pages ::
    "Tx \<Rightarrow> u64 \<Rightarrow> u64 \<Rightarrow> WriteLockBundle \<Rightarrow> (unit result \<times> WriteLockBundle) result \<times> Tx" where
  "merge_leaf_pages t left right bundle =
    andthen (ensure_mini_page t left) (\<lambda>_ t.
    andthen (ensure_mini_page t right) (\<lambda>_ t.
    andthen (lift t (mini_index t left (Panic PanicUnreachable))) (\<lambda>left_index t.
    andthen (lift t (mini_index t right (Panic PanicUnreachable))) (\<lambda>right_index t.
      let left_meta = tx_page t left_index; right_meta = tx_page t right_index in
      case LeafMergePlan_from_nodes left_meta right_meta of
        Inl e \<Rightarrow> (Inl e, t)
      | Inr plan \<Rightarrow>
          case LeafMergePlan_apply plan left_meta right_meta of
            (r, left_meta, right_meta) \<Rightarrow>
              let t = set_page (set_page t left_index left_meta) right_index right_meta in
              case map_err MergeFailed r of
                Inl e \<Rightarrow> (Inl e, t)
              | Inr merged_count \<Rightarrow>
                  let t = with_debug t (record_merge_event left right merged_count) in
                  case remove_parent_after_merge (inner_nodes (tx_db t)) bundle left right of
                    (r, b, bundle) \<Rightarrow>
                      (Inr (r, bundle), t\<lparr>tx_db := (tx_db t)\<lparr>inner_nodes := b\<rparr>\<rparr>)))))"

definition first_user_key :: "Tx \<Rightarrow> u64 \<Rightarrow> bytes result \<times> Tx" where
  "first_user_key t h =
    andthen (ensure_mini_page t h) (\<lambda>_ t.
    andthen (lift t (mini_index t h (Panic PanicUnreachable))) (\<lambda>index t.
      let p = tx_page t index in
      case get_node_prefix p of
        Inl e \<Rightarrow> (Inl e, t)
      | Inr pre \<Rightarrow>
          case find (\<lambda>entry. \<not> KVMeta_fence (entry_meta entry)) (entries p) of
            None \<Rightarrow> (Inl (QSErr MergeFailed), t)
          | Some entry \<Rightarrow> (Inr (pre @ key_suffix entry), t)))"

definition tx_debug_merge_leaves :: "Tx \<Rightarrow> u64 \<Rightarrow> u64 \<Rightarrow> unit result \<times> Tx" where
  "tx_debug_merge_leaves t left right =
    andthen (acquire_write t left) (\<lambda>lh t.
      release lh (andthen (acquire_write t right) (\<lambda>rh t.
        release rh (
          andthen (first_user_key t lh) (\<lambda>merge_key t.
          case read_traverse_leaf (inner_nodes (tx_db t)) merge_key of
            Inl e \<Rightarrow> (Inl e, t)
          | Inr read_res \<Rightarrow>
              andthen (with_tree t (\<lambda>b. write_lock b (underflow_point read_res) OpMerge merge_key)) (\<lambda>bundle t.
                case merge_leaf_pages t lh rh bundle of
                  (Inl e, t) \<Rightarrow> drop_bundle bundle (Inl e, t)
                | (Inr (r, bundle), t) \<Rightarrow> drop_bundle bundle (r, t)))))))"

definition try_auto_merge :: "Tx \<Rightarrow> u64 \<Rightarrow> unit result \<times> Tx" where
  "try_auto_merge t page_id =
    (case debug_root_leaf_parent (inner_nodes (tx_db t)) of
       Inl e \<Rightarrow> (Inl e, t)
     | Inr None \<Rightarrow> (Inr (), t)
     | Inr (Some (_, children)) \<Rightarrow>
         if length children < 2 then (Inr (), t)
         else
           case position (\<lambda>child. child = page_id) children of
             None \<Rightarrow> (Inr (), t)
           | Some idx \<Rightarrow>
               if idx + 1 < length children then tx_debug_merge_leaves t (children ! idx) (children ! (idx + 1))
               else if 0 < idx then tx_debug_merge_leaves t (children ! (idx - 1)) (children ! idx)
               else (Inr (), t))"

section \<open>Delete\<close>

text \<open>The part of \<open>delete\<close> that works on the page: the old value and the number of entries.\<close>

definition delete_on_page :: "bytes \<Rightarrow> bytes \<Rightarrow> (bytes \<times> nat) option result \<times> bytes" where
  "delete_on_page p key =
    (case node_get p key of
       Inl e \<Rightarrow> (Inl e, p)
     | Inr None \<Rightarrow> (Inr None, p)
     | Inr (Some v) \<Rightarrow>
         case mark_tombstone p key of
           (Inl e, p) \<Rightarrow> (Inl e, p)
         | (Inr removed, p) \<Rightarrow> (Inr (if removed then Some (v, user_entry_count p) else None), p))"

definition tx_delete :: "Tx \<Rightarrow> bytes \<Rightarrow> bool result \<times> Tx" where
  "tx_delete t key =
    (case read_traverse_leaf (inner_nodes (tx_db t)) key of
       Inl e \<Rightarrow> (Inl e, t)
     | Inr res \<Rightarrow>
         andthen (acquire_write t (read_page res)) (\<lambda>h t.
           release h (
             andthen (ensure_mini_page t h) (\<lambda>_ t.
             andthen (lift t (mini_index t h (Panic PanicUnreachable))) (\<lambda>index t.
               case delete_on_page (tx_page t index) key of
                 (Inl e, p) \<Rightarrow> (Inl e, set_page t index p)
               | (Inr None, p) \<Rightarrow> (Inr False, set_page t index p)
               | (Inr (Some (deleted_value, user_entries)), p) \<Rightarrow>
                   let t = set_page t index p; page_id = h in
                   andthen (lift t (leaf_snapshot t h)) (\<lambda>(_, lower, upper) t.
                   andthen (with_wal t (\<lambda>w. append_tombstone w page_id key lower upper (wal_entry_kind t) (txn_id t))) (\<lambda>_ t.
                   andthen (with_wal t (\<lambda>w. append_put w page_id key deleted_value lower upper Undo (txn_id t))) (\<lambda>_ t.
                   andthen (maybe_checkpoint_leaf (log_delete_undo t page_id key (Some deleted_value)) h page_id) (\<lambda>_ t.
                   andthen (maybe_global_checkpoint t) (\<lambda>_ t.
                   andthen (if user_entries \<le> AUTO_MERGE_MIN_ENTRIES then try_auto_merge t page_id else (Inr (), t)) (\<lambda>_ t.
                     (Inr True, t))))))))))))"

section \<open>Test helpers\<close>

definition tx_debug_truncate_leaf :: "Tx \<Rightarrow> u64 \<Rightarrow> nat \<Rightarrow> bool \<Rightarrow> unit result \<times> Tx" where
  "tx_debug_truncate_leaf t page_id keep auto_merge =
    andthen (acquire_write t page_id) (\<lambda>h t.
      release h (
        andthen (ensure_mini_page t h) (\<lambda>_ t.
        andthen (lift t (mini_index t h (Panic PanicUnreachable))) (\<lambda>index t.
          case collect_user_records (tx_page t index) of
            Inl e \<Rightarrow> (Inl e, t)
          | Inr records \<Rightarrow>
              if length records \<le> keep then (Inr (), t)
              else
                let records = take keep records in
                case reset_user_entries (tx_page t index) of
                  (Inl e, p) \<Rightarrow> (Inl e, set_page t index p)
                | (Inr _, p) \<Rightarrow>
                    case replay_entries p records of
                      (r, p) \<Rightarrow>
                        let t = set_page t index p in
                        case map_err MergeFailed r of
                          Inl e \<Rightarrow> (Inl e, t)
                        | Inr _ \<Rightarrow>
                            if auto_merge \<and> length records \<le> AUTO_MERGE_MIN_ENTRIES
                            then try_auto_merge t page_id else (Inr (), t)))))"

definition tx_debug_flush_leaf :: "Tx \<Rightarrow> u64 \<Rightarrow> unit result \<times> Tx" where
  "tx_debug_flush_leaf t page_id =
    andthen (acquire_write t page_id) (\<lambda>h t.
      release h (
        andthen (ensure_mini_page t h) (\<lambda>_ t.
        andthen (flush_handle t h) (\<lambda>_ t.
        with_wal t (\<lambda>w. checkpoint_page w page_id)))))"

section \<open>Operations of the database\<close>

text \<open>An operation in a transaction of its own, which is committed whatever its result.\<close>

definition in_transaction :: "Db \<Rightarrow> (Tx \<Rightarrow> 'a result \<times> Tx) \<Rightarrow> 'a result \<times> Db" where
  "in_transaction d f =
    (case tx_begin d of
       Inl e \<Rightarrow> (Inl e, d)
     | Inr t \<Rightarrow>
         case f t of
           (Inl (Panic e), t) \<Rightarrow> (Inl (Panic e), snd (tx_drop t))
         | (Inl UndefinedBehaviour, t) \<Rightarrow> (Inl UndefinedBehaviour, tx_db t)
         | (res, t) \<Rightarrow> (case tx_commit t of (Inl e, d) \<Rightarrow> (Inl e, d) | (Inr _, d) \<Rightarrow> (res, d)))"

definition QuickStep_delete :: "Db \<Rightarrow> bytes \<Rightarrow> bool result \<times> Db" where
  "QuickStep_delete d key = in_transaction d (\<lambda>t. tx_delete t key)"

definition QuickStep_debug_truncate_leaf :: "Db \<Rightarrow> u64 \<Rightarrow> nat \<Rightarrow> bool \<Rightarrow> unit result \<times> Db" where
  "QuickStep_debug_truncate_leaf d page_id keep auto_merge =
    in_transaction d (\<lambda>t. tx_debug_truncate_leaf t page_id keep auto_merge)"

definition QuickStep_debug_merge_leaves :: "Db \<Rightarrow> u64 \<Rightarrow> u64 \<Rightarrow> unit result \<times> Db" where
  "QuickStep_debug_merge_leaves d left right = in_transaction d (\<lambda>t. tx_debug_merge_leaves t left right)"

definition QuickStep_debug_flush_leaf :: "Db \<Rightarrow> u64 \<Rightarrow> unit result \<times> Db" where
  "QuickStep_debug_flush_leaf d page_id = in_transaction d (\<lambda>t. tx_debug_flush_leaf t page_id)"

definition QuickStep_debug_flush_root_leaf :: "Db \<Rightarrow> unit result \<times> Db" where
  "QuickStep_debug_flush_root_leaf d = QuickStep_debug_flush_leaf d 0"

end
