(* ===== verification/Olc.thy ===== *)
theory Olc
  imports BTree
begin

text \<open>
  btree.rs, the version locks under interleaving.  The root and every inner node have a version
  word: a reader remembers it, looks at the data and compares the word again, a writer takes the
  lock by a compare-and-exchange that adds two and releases it by adding two more.  The steps are
  the atomic accesses of any number of threads in any order, built from the operations of
  \<open>BTree\<close>; \<open>version_lock\<close> is what they have in common for the root and for a node.
\<close>

section \<open>Operations of a version lock\<close>

record ('t, 'c) lock_ops =
  op_read :: "'t \<Rightarrow> u64 result"
  op_upgrade :: "'t \<Rightarrow> u64 \<Rightarrow> unit result \<times> 't"
  op_check :: "'t \<Rightarrow> u64 \<Rightarrow> unit result"
  op_unlock :: "'t \<Rightarrow> 't"
  op_content :: "'t \<Rightarrow> 'c"
  op_store :: "'c \<Rightarrow> 't \<Rightarrow> 't"

text \<open>The lock of the root protects the packed root word.\<close>

definition root_ops :: "(BPTree, u64) lock_ops" where
  "root_ops = \<lparr>op_read = read_root, op_upgrade = root_upgrade, op_check = root_check, op_unlock = root_unlock,
    op_content = root, op_store = (\<lambda>r t. t\<lparr>root := r\<rparr>)\<rparr>"

text \<open>The lock of an inner node protects the rest of the node.\<close>

definition inner_ops :: "u32 \<Rightarrow> (BPTree, BPNode) lock_ops" where
  "inner_ops node =
    \<lparr>op_read = (\<lambda>t. case read_inner t node of Inl e \<Rightarrow> Inl e | Inr (version, _) \<Rightarrow> Inr version),
     op_upgrade = (\<lambda>t version. inner_upgrade t (version, node)),
     op_check = (\<lambda>t version. inner_check t (version, node)),
     op_unlock = inner_unlock node,
     op_content = (\<lambda>t. (get_node t node)\<lparr>vlock := 0\<rparr>),
     op_store = (\<lambda>n t. set_node t node (n\<lparr>vlock := vlock (get_node t node)\<rparr>))\<rparr>"

section \<open>Threads\<close>

text \<open>
  A thread between two operations, with a read guard or with a write guard.  Beside its version a
  read guard keeps, for the proofs, the number of write locks taken when it was made and the
  contents its owner has seen.
\<close>

datatype 'c actor = NoGuard | HoldsRead u64 nat "'c list" | HoldsWrite

record ('t, 'c) olc_state =
  shared :: 't
  actors :: "nat \<Rightarrow> 'c actor"
  acquired :: nat

inductive olc_step :: "('t, 'c) lock_ops \<Rightarrow> ('t, 'c) olc_state \<Rightarrow> ('t, 'c) olc_state \<Rightarrow> bool" for ops where
  begin_read: "actors s i = NoGuard \<Longrightarrow> op_read ops (shared s) = Inr v \<Longrightarrow>
    olc_step ops s (s\<lparr>actors := (actors s)(i := HoldsRead v (acquired s) [])\<rparr>)"
| look: "actors s i = HoldsRead v e xs \<Longrightarrow>
    olc_step ops s (s\<lparr>actors := (actors s)(i := HoldsRead v e (op_content ops (shared s) # xs))\<rparr>)"
| give_up: "actors s i = HoldsRead v e xs \<Longrightarrow> olc_step ops s (s\<lparr>actors := (actors s)(i := NoGuard)\<rparr>)"
| upgrade: "actors s i = HoldsRead v e xs \<Longrightarrow> op_upgrade ops (shared s) v = (Inr (), t) \<Longrightarrow>
    olc_step ops s (s\<lparr>shared := t, actors := (actors s)(i := HoldsWrite), acquired := acquired s + 1\<rparr>)"
| store: "actors s i = HoldsWrite \<Longrightarrow> olc_step ops s (s\<lparr>shared := op_store ops c (shared s)\<rparr>)"
| unlock: "actors s i = HoldsWrite \<Longrightarrow>
    olc_step ops s (s\<lparr>shared := op_unlock ops (shared s), actors := (actors s)(i := NoGuard)\<rparr>)"

definition olc_init :: "'t \<Rightarrow> ('t, 'c) olc_state" where
  "olc_init t = \<lparr>shared = t, actors = (\<lambda>_. NoGuard), acquired = 0\<rparr>"

definition write_holders :: "('t, 'c) olc_state \<Rightarrow> nat set" where
  "write_holders s = {i. actors s i = HoldsWrite}"

section \<open>The invariant\<close>

text \<open>
  The version counts the write locks: four for every one that was taken, less two while the last
  one is held, modulo the width of the word.
\<close>

definition version_word :: "nat \<Rightarrow> bool \<Rightarrow> u64" where
  "version_word n held = word_of_nat (4 * n - (if held then 2 else 0))"

lemma version_word_locked:
  assumes "held \<Longrightarrow> 0 < n"
  shows "is_locked_or_obsolete (version_word n held) = held"
proof -
  let ?k = "4 * n - (if held then 2 else 0)"
  have "(word_of_nat ?k :: u64) AND 3 = take_bit 2 (word_of_nat ?k)" by (simp only: take_bit_eq_mask mask_eq_exp_minus_1) simp
  moreover have "unat (take_bit 2 (word_of_nat ?k) :: u64) = ?k mod 4"
    by (simp only: unsigned_take_bit_eq unat_of_nat) (simp add: take_bit_eq_mod mod_mod_cancel)
  moreover have "?k mod 4 = (if held then 2 else 0)"
  proof (cases held)
    case True
    with assms obtain m where "n = Suc m" by (cases n) auto
    with True have "?k = 2 + 4 * m" by simp
    moreover have "(2 + 4 * m) mod 4 = 2" by (simp only: mod_mult_self2) simp
    ultimately show ?thesis using True by simp
  qed simp
  ultimately have "((word_of_nat ?k :: u64) AND 3 = 0) = (\<not> held)"
    by (metis unat_eq_zero zero_neq_numeral)
  then show ?thesis by (simp add: is_locked_or_obsolete_def version_word_def)
qed

lemma version_word_next:
  "version_word n False + 2 = version_word (n + 1) True" "0 < n \<Longrightarrow> version_word n True + 2 = version_word n False"
proof -
  show "version_word n False + 2 = version_word (n + 1) True" by (simp add: version_word_def)
  assume "0 < n"
  then obtain m where "n = Suc m" by (cases n) auto
  then show "version_word n True + 2 = version_word n False" by (simp add: version_word_def)
qed

lemma version_word_inj:
  assumes "version_word n False = version_word m False" and "n \<le> m" and "m < n + 2 ^ 62"
  shows "n = m"
proof -
  have "unat (version_word n False) = unat (version_word m False)" using assms(1) by simp
  then have "(4 * n) mod 2 ^ 64 = (4 * m) mod 2 ^ 64"
    by (simp only: version_word_def unat_of_nat if_False diff_zero) simp
  then have "(2 ^ 64 :: nat) dvd 4 * m - 4 * n"
    using assms(2) mod_eq_dvd_iff_nat[of "4 * n" "4 * m" "2 ^ 64"] by simp
  moreover have "4 * m - 4 * n < (2 ^ 64 :: nat)" using assms(2,3) by simp
  ultimately have "4 * m - 4 * n = 0" by (metis nat_dvd_not_less not_gr_zero)
  with assms(2) show ?thesis by simp
qed

text \<open>What a read guard says: as long as no write lock was taken since it was made, its owner has
  only seen the present content.\<close>

definition guard_ok :: "('t \<Rightarrow> 'c) \<Rightarrow> ('t, 'c) olc_state \<Rightarrow> 'c actor \<Rightarrow> bool" where
  "guard_ok content s a \<longleftrightarrow>
    (case a of
       HoldsRead v e xs \<Rightarrow> v = version_word e False \<and> e \<le> acquired s \<and>
         (e = acquired s \<longrightarrow> write_holders s = {} \<and> (\<forall>x \<in> set xs. x = content (shared s)))
     | _ \<Rightarrow> True)"

definition olc_inv :: "('t \<Rightarrow> bool) \<Rightarrow> ('t \<Rightarrow> u64) \<Rightarrow> ('t \<Rightarrow> 'c) \<Rightarrow> ('t, 'c) olc_state \<Rightarrow> bool" where
  "olc_inv valid ver content s \<longleftrightarrow>
    valid (shared s) \<and> (\<exists>w. write_holders s \<subseteq> {w}) \<and> (write_holders s \<noteq> {} \<longrightarrow> 0 < acquired s) \<and>
    ver (shared s) = version_word (acquired s) (write_holders s \<noteq> {}) \<and> (\<forall>i. guard_ok content s (actors s i))"

lemma olc_invD:
  assumes "olc_inv valid ver content s"
  shows "valid (shared s)" "\<exists>w. write_holders s \<subseteq> {w}" "write_holders s \<noteq> {} \<Longrightarrow> 0 < acquired s"
    "ver (shared s) = version_word (acquired s) (write_holders s \<noteq> {})" "guard_ok content s (actors s i)"
    "is_locked_or_obsolete (ver (shared s)) = (write_holders s \<noteq> {})"
  using assms version_word_locked[of "write_holders s \<noteq> {}" "acquired s"] by (auto simp: olc_inv_def)

lemma guard_ok_cong:
  assumes "guard_ok content s a" and "acquired s' = acquired s" and "write_holders s' = write_holders s"
    and "write_holders s = {} \<Longrightarrow> content (shared s') = content (shared s)"
  shows "guard_ok content s' a"
  using assms by (cases a) (simp_all add: guard_ok_def)

lemma guard_ok_later: "guard_ok content s a \<Longrightarrow> acquired s < acquired s' \<Longrightarrow> guard_ok content s' a"
  by (cases a) (simp_all add: guard_ok_def)

lemma guard_ok_held: "guard_ok content s a \<Longrightarrow> write_holders s \<noteq> {} \<Longrightarrow> acquired s' = acquired s \<Longrightarrow> guard_ok content s' a"
  by (cases a) (auto simp: guard_ok_def)

lemma olc_invI:
  assumes "valid (shared s)" "write_holders s \<subseteq> {w}" "write_holders s \<noteq> {} \<Longrightarrow> 0 < acquired s"
    "ver (shared s) = version_word (acquired s) (write_holders s \<noteq> {})" "\<And>i. guard_ok content s (actors s i)"
  shows "olc_inv valid ver content s"
  using assms by (auto simp: olc_inv_def)

text \<open>A change of the guard of one thread that takes and gives no write lock.\<close>

lemma olc_inv_actor:
  assumes inv: "olc_inv valid ver content s" and i: "actors s i \<noteq> HoldsWrite" "a \<noteq> HoldsWrite"
    and a: "guard_ok content s a"
  shows "olc_inv valid ver content (s\<lparr>actors := (actors s)(i := a)\<rparr>)"
proof -
  let ?s = "s\<lparr>actors := (actors s)(i := a)\<rparr>"
  have w: "write_holders ?s = write_holders s" using i by (auto simp: write_holders_def)
  have "guard_ok content ?s (actors ?s j)" for j
    using guard_ok_cong[OF a _ w] guard_ok_cong[OF olc_invD(5)[OF inv, of j] _ w] by simp
  moreover obtain h where "write_holders s \<subseteq> {h}" using olc_invD(2)[OF inv] by blast
  ultimately show ?thesis using w olc_invD(1,3,4)[OF inv] by (intro olc_invI[where w = h]) simp_all
qed

section \<open>The contract\<close>

locale version_lock =
  fixes ops :: "('t, 'c) lock_ops" and ver :: "'t \<Rightarrow> u64" and valid :: "'t \<Rightarrow> bool"
  assumes read_law: "valid t \<Longrightarrow> op_read ops t = Inr v \<Longrightarrow> v = ver t \<and> \<not> is_locked_or_obsolete v"
    and upgrade_law: "valid t \<Longrightarrow> op_upgrade ops t v = (Inr (), t') \<Longrightarrow>
      ver t = v \<and> ver t' = v + 2 \<and> op_content ops t' = op_content ops t \<and> valid t'"
    and check_law: "valid t \<Longrightarrow> op_check ops t v = Inr () \<Longrightarrow> ver t = v"
    and unlock_law: "valid t \<Longrightarrow> ver (op_unlock ops t) = ver t + 2 \<and>
      op_content ops (op_unlock ops t) = op_content ops t \<and> valid (op_unlock ops t)"
    and store_law: "valid t \<Longrightarrow> ver (op_store ops c t) = ver t \<and> valid (op_store ops c t)"
begin

text \<open>The steps keep the invariant.\<close>

lemma step_keeps:
  assumes inv: "olc_inv valid ver (op_content ops) s" and step: "olc_step ops s s'"
  shows "olc_inv valid ver (op_content ops) s'"
  using step
proof cases
  case (begin_read i v)
  note r = read_law[OF olc_invD(1)[OF inv] begin_read(3)]
  with olc_invD(6)[OF inv] have e: "write_holders s = {}" by blast
  have "v = version_word (acquired s) False" using r e olc_invD(4)[OF inv] by simp
  then have "guard_ok (op_content ops) s (HoldsRead v (acquired s) [])" using e by (simp add: guard_ok_def)
  from olc_inv_actor[OF inv _ _ this, of i] begin_read(2) show ?thesis by (simp add: begin_read(1))
next
  case (look i v e xs)
  have "guard_ok (op_content ops) s (HoldsRead v e (op_content ops (shared s) # xs))"
    using olc_invD(5)[OF inv, of i] look(2) by (simp add: guard_ok_def)
  from olc_inv_actor[OF inv _ _ this, of i] look(2) show ?thesis by (simp add: look(1))
next
  case (give_up i v e xs)
  from olc_inv_actor[OF inv, of i NoGuard] give_up(2) show ?thesis by (simp add: give_up(1) guard_ok_def)
next
  case (upgrade i v e xs t)
  note u = upgrade_law[OF olc_invD(1)[OF inv] upgrade(3)]
  have "v = version_word e False" using olc_invD(5)[OF inv, of i] upgrade(2) by (simp add: guard_ok_def)
  with u have "\<not> is_locked_or_obsolete (ver (shared s))" using version_word_locked[of False e] by simp
  then have e: "write_holders s = {}" using olc_invD(6)[OF inv] by simp
  then have w: "write_holders s' = {i}" by (auto simp: upgrade(1) write_holders_def)
  have "ver t = version_word (acquired s + 1) True"
    using u olc_invD(4)[OF inv] e version_word_next(1)[of "acquired s"] by simp
  moreover have "guard_ok (op_content ops) s' (actors s' j)" for j
    using guard_ok_later[OF olc_invD(5)[OF inv, of j], of s'] by (simp add: upgrade(1) guard_ok_def)
  ultimately show ?thesis using w u by (intro olc_invI[where w = i]) (simp_all add: upgrade(1))
next
  case (store i c)
  note st = store_law[OF olc_invD(1)[OF inv], of c]
  have w: "write_holders s' = write_holders s" "write_holders s \<noteq> {}" using store(2) by (auto simp: store(1) write_holders_def)
  have "guard_ok (op_content ops) s' (actors s' j)" for j
    using guard_ok_held[OF olc_invD(5)[OF inv, of j] w(2), of s'] by (simp add: store(1))
  moreover obtain h where "write_holders s \<subseteq> {h}" using olc_invD(2)[OF inv] by blast
  ultimately show ?thesis using w st olc_invD(3,4)[OF inv] by (intro olc_invI[where w = h]) (simp_all add: store(1))
next
  case (unlock i)
  note un = unlock_law[OF olc_invD(1)[OF inv]]
  have i: "i \<in> write_holders s" using unlock(2) by (simp add: write_holders_def)
  then have ne: "write_holders s \<noteq> {}" by blast
  from i olc_invD(2)[OF inv] have "write_holders s = {i}" by blast
  then have w: "write_holders s' = {}" by (auto simp: unlock(1) write_holders_def)
  have "ver (op_unlock ops (shared s)) = version_word (acquired s) False"
    using un olc_invD(3,4)[OF inv] ne version_word_next(2)[of "acquired s"] by simp
  moreover have "guard_ok (op_content ops) s' (actors s' j)" for j
    using guard_ok_held[OF olc_invD(5)[OF inv, of j] ne, of s'] by (simp add: unlock(1) guard_ok_def)
  ultimately show ?thesis using w un by (intro olc_invI[where w = i]) (simp_all add: unlock(1))
qed

lemma reach_olc_inv:
  assumes "valid t" and "ver t = 0" and "(olc_step ops)\<^sup>*\<^sup>* (olc_init t) s"
  shows "olc_inv valid ver (op_content ops) s"
  using assms(3)
proof (induction rule: rtranclp_induct)
  case base
  show ?case using assms(1,2) by (simp add: olc_inv_def olc_init_def write_holders_def guard_ok_def version_word_def)
next
  case (step s s')
  then show ?case by (blast intro: step_keeps)
qed

text \<open>A guard whose version is still the present one.\<close>

lemma validated_guard:
  assumes inv: "olc_inv valid ver (op_content ops) s" and i: "actors s i = HoldsRead v e xs"
    and v: "ver (shared s) = v" and few: "acquired s < e + 2 ^ 62"
  shows "write_holders s = {} \<and> (\<forall>x \<in> set xs. x = op_content ops (shared s))"
proof -
  have g: "v = version_word e False" "e \<le> acquired s" "e = acquired s \<longrightarrow> write_holders s = {} \<and> (\<forall>x \<in> set xs. x = op_content ops (shared s))"
    using olc_invD(5)[OF inv, of i] i by (simp_all add: guard_ok_def)
  have "write_holders s = {}"
    using olc_invD(6)[OF inv] version_word_locked[of False e] g(1) v by simp
  with olc_invD(4)[OF inv] g(1) v have "version_word e False = version_word (acquired s) False" by simp
  from version_word_inj[OF this g(2) few] g(3) show ?thesis by blast
qed

end

section \<open>The locks of the tree\<close>

interpretation root_version: version_lock root_ops root_vlock "\<lambda>_. True"
  by unfold_locales
    (auto simp: root_ops_def read_root_def root_upgrade_def root_check_def root_unlock_def split: if_splits)

interpretation node_version: version_lock "inner_ops node" "\<lambda>t. vlock (get_node t node)" "\<lambda>t. unat node < length (slab t)"
  for node
  by unfold_locales
    (auto simp: inner_ops_def read_inner_def inner_upgrade_def inner_check_def inner_unlock_def get_node_def set_node_def
      Let_def split: if_splits)

text \<open>C15: A validated look at the root saw one consistent root.  In every interleaving of threads that read
  and change the root under its version lock, when a thread that holds a read guard finds its
  version unchanged, no thread has the write lock and everything it has seen under the guard is the
  present root, unless \<open>2 ^ 62\<close> write locks were taken in between and the version wrapped around.\<close>

theorem root_read_validated:
  assumes "root_vlock t = 0" and "(olc_step root_ops)\<^sup>*\<^sup>* (olc_init t) s"
    and "actors s i = HoldsRead v e xs" and "root_check (shared s) v = Inr ()" and "acquired s < e + 2 ^ 62"
  shows "write_holders s = {} \<and> (\<forall>x \<in> set xs. x = root (shared s))"
proof -
  have "root_vlock (shared s) = v" using assms(4) by (simp add: root_check_def split: if_splits)
  from root_version.validated_guard[OF root_version.reach_olc_inv[OF TrueI assms(1,2)] assms(3) this assms(5)]
  show ?thesis by (simp add: root_ops_def)
qed

text \<open>C16: The version word of a node is its write lock: in every interleaving at most one thread holds
  the write lock of an inner node, the word is marked exactly while one does, and a read guard of the
  node can be made exactly while none does.  While a thread holds the lock, no read guard made before
  can be validated or upgraded.\<close>

theorem node_write_exclusive:
  assumes "unat node < length (slab t)" and "vlock (get_node t node) = 0"
    and "(olc_step (inner_ops node))\<^sup>*\<^sup>* (olc_init t) s"
  shows "(\<exists>i. write_holders s \<subseteq> {i}) \<and>
    (is_locked_or_obsolete (vlock (get_node (shared s) node)) \<longleftrightarrow> write_holders s \<noteq> {}) \<and>
    read_inner (shared s) node =
      (if write_holders s = {} then Inr (vlock (get_node (shared s) node), node) else Inl BPRestart) \<and>
    (\<forall>i. actors s i = HoldsWrite \<longrightarrow> write_holders s = {i} \<and>
      (\<forall>j v e xs. actors s j = HoldsRead v e xs \<longrightarrow>
        inner_check (shared s) (v, node) = Inl BPRestart \<and> fst (inner_upgrade (shared s) (v, node)) \<noteq> Inr ()))"
proof -
  note inv = node_version.reach_olc_inv[OF assms]
  have stale: "inner_check (shared s) (v, node) = Inl BPRestart \<and> fst (inner_upgrade (shared s) (v, node)) \<noteq> Inr ()"
    if "write_holders s \<noteq> {}" "actors s j = HoldsRead v e xs" for j v e xs
  proof -
    have "vlock (get_node (shared s) node) \<noteq> v"
      using olc_invD(5)[OF inv, of j] that olc_invD(6)[OF inv] version_word_locked[of False e]
      by (auto simp: guard_ok_def)
    then show ?thesis by (auto simp: inner_check_def inner_upgrade_def Let_def)
  qed
  have read: "read_inner (shared s) node =
      (if write_holders s = {} then Inr (vlock (get_node (shared s) node), node) else Inl BPRestart)"
    using olc_invD(1,6)[OF inv] by (simp add: read_inner_def Let_def)
  have "write_holders s = {i}" if "actors s i = HoldsWrite" for i
  proof -
    obtain w where "write_holders s \<subseteq> {w}" using olc_invD(2)[OF inv] by blast
    moreover have "i \<in> write_holders s" using that by (simp add: write_holders_def)
    ultimately show ?thesis by blast
  qed
  with stale have "\<forall>i. actors s i = HoldsWrite \<longrightarrow> write_holders s = {i} \<and>
      (\<forall>j v e xs. actors s j = HoldsRead v e xs \<longrightarrow>
        inner_check (shared s) (v, node) = Inl BPRestart \<and> fst (inner_upgrade (shared s) (v, node)) \<noteq> Inr ())"
    by (metis insert_not_empty)
  with read olc_invD(2,6)[OF inv] show ?thesis by simp
qed

definition leaf_tree :: BPTree where
  "leaf_tree = \<lparr>slab = [BPNode_blank], cap = 1, root = 7, root_vlock = 0, node_next_free = 1, node_free_list = - 1\<rparr>"

theorem root_read_validated_witness:
  "\<exists>s. (olc_step root_ops)\<^sup>*\<^sup>* (olc_init leaf_tree) s \<and> actors s 0 = HoldsRead 0 0 [7] \<and>
    root_check (shared s) 0 = Inr () \<and> write_holders s = {} \<and> root (shared s) = 7"
proof -
  define s1 where "s1 = (olc_init leaf_tree :: (BPTree, u64) olc_state)\<lparr>actors := (\<lambda>_. NoGuard)(0 := HoldsRead 0 0 [])\<rparr>"
  define s2 where "s2 = s1\<lparr>actors := (actors s1)(0 := HoldsRead 0 0 [7])\<rparr>"
  have "olc_step root_ops (olc_init leaf_tree) s1"
    using olc_step.begin_read[of "olc_init leaf_tree" 0 root_ops 0]
    by (simp add: s1_def olc_init_def root_ops_def read_root_def leaf_tree_def is_locked_or_obsolete_def)
  moreover have "olc_step root_ops s1 s2"
    using olc_step.look[of s1 0 0 0 "[]" root_ops]
    by (simp add: s2_def) (simp add: s1_def olc_init_def root_ops_def leaf_tree_def)
  ultimately have r: "(olc_step root_ops)\<^sup>*\<^sup>* (olc_init leaf_tree) s2" by simp
  have a: "actors s2 0 = HoldsRead 0 0 [7]" by (simp add: s2_def)
  have c: "root_check (shared s2) 0 = Inr ()"
    by (simp add: s2_def s1_def olc_init_def leaf_tree_def root_check_def)
  have v: "root_vlock leaf_tree = 0" by (simp add: leaf_tree_def)
  from root_read_validated[OF v r a c] r a c show ?thesis by (auto simp: s2_def s1_def olc_init_def)
qed

theorem node_write_exclusive_witness:
  "\<exists>s. (olc_step (inner_ops 0))\<^sup>*\<^sup>* (olc_init leaf_tree) s \<and> write_holders s = {3} \<and>
    is_locked_or_obsolete (vlock (get_node (shared s) 0)) \<and> read_inner (shared s) 0 = Inl BPRestart"
proof -
  define s1 where "s1 = (olc_init leaf_tree :: (BPTree, BPNode) olc_state)\<lparr>actors := (\<lambda>_. NoGuard)(3 := HoldsRead 0 0 [])\<rparr>"
  define t2 where "t2 = snd (inner_upgrade leaf_tree (0, 0))"
  define s2 where "s2 = s1\<lparr>shared := t2, actors := (actors s1)(3 := HoldsWrite), acquired := 1\<rparr>"
  have n: "vlock (get_node leaf_tree 0) = 0" "unat (0 :: u32) < length (slab leaf_tree)"
    by (simp_all add: leaf_tree_def get_node_def BPNode_blank_def)
  have "olc_step (inner_ops 0) (olc_init leaf_tree) s1"
    using olc_step.begin_read[of "olc_init leaf_tree" 3 "inner_ops 0" 0] n
    by (simp add: s1_def olc_init_def inner_ops_def read_inner_def is_locked_or_obsolete_def)
  moreover have "inner_upgrade leaf_tree (0, 0) = (Inr (), t2)" by (simp add: t2_def inner_upgrade_def n)
  then have "olc_step (inner_ops 0) s1 s2"
    using olc_step.upgrade[of s1 3 0 0 "[]" "inner_ops 0" t2] by (simp add: s2_def s1_def olc_init_def inner_ops_def)
  ultimately have r: "(olc_step (inner_ops 0))\<^sup>*\<^sup>* (olc_init leaf_tree) s2" by simp
  have a: "actors s2 3 = HoldsWrite" by (simp add: s2_def)
  note X = node_write_exclusive[OF n(2,1) r]
  from X a have "write_holders s2 = {3}" by blast
  with X r show ?thesis by (intro exI[of _ s2]) simp
qed

end
