(* ===== verification/Node_Remove.thy ===== *)
theory Node_Remove
  imports Page_Op
begin

text \<open>
  node.rs, the physical removal of a record: \<open>remove_entry\<close> and \<open>remove_key_physical\<close> on the lowest
  record of a page.  Records are carved downwards, so the lowest record is the one put last, and
  keys that are removed in the reverse order of their puts always name the lowest record.  Removing
  another record does not close the gap that it leaves; \<open>Node_Ops.remove_corrupts_neighbour\<close> shows
  what becomes of the other records.
\<close>

section \<open>Removing the lowest record\<close>

text \<open>The index in the old page of the record at an index of the page without the record \<open>m\<close>.\<close>

definition skip :: "nat \<Rightarrow> nat \<Rightarrow> nat" where
  "skip m j = (if j < m then j else Suc j)"

lemma erase_loop_lowest:
  "(\<And>i. i \<in> set is \<Longrightarrow> target \<le> KVMeta_offset (get_kv_meta p i)) \<Longrightarrow> erase_loop is target len mo p = (mo, p)"
  by (induction "is") (auto simp: Let_def not_less[symmetric])

lemma shift_meta_left_spec:
  assumes "m + 1 < record_count p" and "kv_slot (record_count p) \<le> length p"
  defines "q \<equiv> shift_meta_left p m"
  shows "length q = length p" "node_header q = node_header p"
    "j + 1 < record_count p \<Longrightarrow> get_kv_meta q j = get_kv_meta p (skip m j)"
    "kv_slot (record_count p) \<le> i \<Longrightarrow> i + k \<le> length p \<Longrightarrow> read_at q i k = read_at p i k"
proof -
  let ?n = "record_count p"
  let ?len = "8 * (?n - m - 1)"
  have q: "q = copy_within p (kv_slot (m + 1)) (kv_slot m) ?len"
    using assms(1) by (simp add: q_def shift_meta_left_def Let_def)
  have b: "kv_slot (m + 1) + ?len = kv_slot ?n" "kv_slot m + ?len = kv_slot (?n - 1)" "kv_slot (?n - 1) \<le> length p"
    using assms(1,2) by (simp_all add: kv_slot_def)
  show l: "length q = length p" using b assms(2) unfolding q by (intro length_copy_within) simp_all
  have r: "read_at q i k = read_at p i k" if "i + k \<le> kv_slot m \<or> kv_slot (?n - 1) \<le> i" "i + k \<le> length p" for i k
    using that b assms(2) unfolding q by (intro read_copy_within_disjoint) auto
  have s: "16 \<le> kv_slot m" "16 \<le> length p" using kv_slot_ge[of m] b(2,3) by simp_all
  then show "node_header q = node_header p" by (simp add: node_header_def read_u64_def r)
  show "read_at q i k = read_at p i k" if "kv_slot ?n \<le> i" "i + k \<le> length p"
    using that by (intro r) (auto simp: kv_slot_def)
  assume j: "j + 1 < ?n"
  show "get_kv_meta q j = get_kv_meta p (skip m j)"
  proof (cases "j < m")
    case True
    then have "kv_slot j + 8 \<le> kv_slot m" by (simp add: kv_slot_def)
    with True b(2,3) show ?thesis by (simp add: get_kv_meta_def read_u64_def r skip_def)
  next
    case False
    then have e: "kv_slot m \<le> kv_slot j" "kv_slot j + 8 \<le> kv_slot m + ?len" "kv_slot (m + 1) + (kv_slot j - kv_slot m) = kv_slot (Suc j)"
      using j by (simp_all add: kv_slot_def)
    have "read_at q (kv_slot j) 8 = read_at p (kv_slot (m + 1) + (kv_slot j - kv_slot m)) 8"
      unfolding q by (rule read_copy_within) (use e b assms(2) in simp_all)
    with e(3) False show ?thesis by (simp add: get_kv_meta_def read_u64_def skip_def)
  qed
qed

lemma remove_lowest_entry:
  assumes wf: "leaf_wf p" and m: "1 \<le> m" "m + 1 < record_count p"
    and low: "\<And>i. i < record_count p \<Longrightarrow> KVMeta_offset (get_kv_meta p m) \<le> KVMeta_offset (get_kv_meta p i)"
  obtains q where "remove_entry p m = (Inr True, q)" "length q = length p" "record_count q = record_count p - 1"
    "page_ident q = page_ident p"
    "\<forall>j. j + 1 < record_count p \<longrightarrow> get_kv_meta q j = get_kv_meta p (skip m j)"
    "\<forall>j. j + 1 < record_count p \<longrightarrow> stored_key q j = stored_key p (skip m j)"
    "\<forall>j. j + 1 < record_count p \<longrightarrow> stored_val q j = stored_val p (skip m j)"
proof -
  let ?n = "record_count p"
  define s where "s = shift_meta_left p m"
  note S = shift_meta_left_spec[OF m(2) leaf_wfD(3)[OF wf], folded s_def]
  have len: "16 \<le> length p" "kv_slot ?n \<le> length p" using leaf_wfD(3)[OF wf] kv_slot_ge[of ?n] by simp_all
  have nf: "\<not> KVMeta_fence (get_kv_meta p m)" by (rule leaf_wfD(9)[OF wf m])
  have er: "erase_kv_in_buffer p (get_kv_meta p m) = (KVMeta_offset (get_kv_meta p m) +
      (KVMeta_key_size (get_kv_meta p m) + KVMeta_val_size (get_kv_meta p m)), p)"
    using erase_loop_lowest[of "[0..<?n]" "KVMeta_offset (get_kv_meta p m)" p] low by (simp add: erase_kv_in_buffer_def Let_def)
  have rs: "record_count s = ?n" "length s = length p" by (rule record_count_cong[OF S(2)], rule S(1))
  define q where "q = set_record_count s (NodeMeta_record_count (node_header s) - 1)"
  have dec: "dec_record_count s = (Inr (), q)" unfolding q_def by (rule dec_record_count_eq) (use rs m in simp)
  have rem: "remove_entry p m = (Inr True, q)"
    using m(2) nf er dec by (simp add: remove_entry_def s_def Let_def)
  have lq: "length q = length p" "page_ident q = page_ident p"
    using rs len page_ident_cong[OF S(2)] by (simp_all add: q_def)
  have rc: "record_count q = ?n - 1"
  proof -
    let ?c = "NodeMeta_record_count (node_header s)"
    have n: "unat ?c = ?n" using rs(1) by (simp add: record_count_def)
    then have "?c \<noteq> 0" using m by auto
    then have "unat (?c - 1) = ?n - 1" using n by (simp add: unat_minus_one)
    moreover have "?n - 1 < 512" using record_count_small[of "node_header p"] by (simp add: record_count_def)
    ultimately show ?thesis using len rs by (simp add: q_def unsigned_take_bit_eq take_bit_nat_eq_self)
  qed
  have meta: "get_kv_meta q j = get_kv_meta p (skip m j)" if "j + 1 < ?n" for j
  proof -
    have "kv_slot j + 8 \<le> length s" using that kv_slot_mono[of j ?n] len rs by simp
    with S(3)[OF that] show ?thesis by (simp add: q_def set_record_count_def)
  qed
  have rd: "read_at q i k = read_at p i k" if "kv_slot ?n \<le> i" "i + k \<le> length p" for i k
    using S(4)[OF that] that kv_slot_ge[of ?n] rs(2) len by (simp add: q_def set_record_count_def read_at_set_node_header)
  have sv: "stored_key q j = stored_key p (skip m j) \<and> stored_val q j = stored_val p (skip m j)" if "j + 1 < ?n" for j
  proof -
    let ?kv = "get_kv_meta p (skip m j)"
    have "skip m j < ?n" using that by (simp add: skip_def)
    note W = leaf_wfD(4,5)[OF wf this]
    have "read_at q (KVMeta_offset ?kv) (KVMeta_key_size ?kv) = read_at p (KVMeta_offset ?kv) (KVMeta_key_size ?kv)"
      "read_at q (KVMeta_offset ?kv + KVMeta_key_size ?kv) (KVMeta_val_size ?kv) =
        read_at p (KVMeta_offset ?kv + KVMeta_key_size ?kv) (KVMeta_val_size ?kv)"
      using W by (auto intro!: rd simp: kv_end_def kv_len_def)
    then show ?thesis
      by (simp add: stored_key_def stored_val_def get_stored_key_from_meta_def get_val_from_meta_def meta[OF that])
  qed
  show thesis by (rule that[OF rem lq(1) rc lq(2)]) (use meta sv in blast)+
qed

lemma upt_skip: "1 \<le> m \<Longrightarrow> m + 1 < n \<Longrightarrow> map (skip m) [1..<n - 2] = [1..<m] @ [Suc m..<n - 1]"
proof -
  assume m: "1 \<le> m" "m + 1 < n"
  have "[1..<n - 2] = [1..<m] @ [m..<n - 2]" using m upt_add_eq_append[of 1 m "n - 2 - m"] by simp
  moreover have "map (skip m) [1..<m] = [1..<m]" by (rule map_idI) (simp add: skip_def)
  moreover have "map (skip m) [m..<n - 2] = map Suc [m..<n - 2]" by (rule map_cong) (simp_all add: skip_def)
  moreover have "map Suc [m..<n - 2] = [Suc m..<n - 1]" 
  proof -
    have "Suc (n - 2) = n - 1" using m by simp
    then show ?thesis by (simp only: map_Suc_upt)
  qed
  ultimately show ?thesis by simp
qed

lemma remove_lowest_leaf:
  assumes wf: "leaf_wf p" and m: "1 \<le> m" "m + 1 < record_count p"
    and q: "length q = length p" "record_count q = record_count p - 1"
      "\<forall>j. j + 1 < record_count p \<longrightarrow> get_kv_meta q j = get_kv_meta p (skip m j)"
      "\<forall>j. j + 1 < record_count p \<longrightarrow> stored_key q j = stored_key p (skip m j)"
      "\<forall>j. j + 1 < record_count p \<longrightarrow> stored_val q j = stored_val p (skip m j)"
  shows "leaf_wf q" "user_records q = filter (\<lambda>(k, _). k \<noteq> stored_key p m) (user_records p)"
    "fence_bounds q = fence_bounds p" "node_prefix q = node_prefix p"
proof -
  let ?n = "record_count p" and ?f = "\<lambda>p i. (stored_key p i, stored_val p i)"
  have ur: "user_range q = [1..<?n - 2]" by (simp add: user_range_def q(2) numeral_2_eq_2)
  have "map (?f q) [1..<?n - 2] = map (?f p) (map (skip m) [1..<?n - 2])"
    unfolding map_map by (rule map_cong[OF refl]) (use q(4,5) in auto)
  then have us: "user_records q = map (?f p) [1..<m] @ map (?f p) [Suc m..<?n - 1]"
    by (simp only: user_records_def ur upt_skip[OF m] map_append)
  note old = user_records_split[OF m]
  have so: "key_sorted (user_records p)"
    using leaf_wfD(11)[OF wf] by (simp add: user_records_def o_def)
  have lt: "\<forall>x \<in> set (map (?f p) [1..<m]). fst x < stored_key p m" "\<forall>x \<in> set (map (?f p) [Suc m..<?n - 1]). stored_key p m < fst x"
    using leaf_wf_keys_less[OF wf] m by auto
  have "filter (\<lambda>(k, _). k \<noteq> stored_key p m) (map (?f p) [1..<m]) = map (?f p) [1..<m]"
    "filter (\<lambda>(k, _). k \<noteq> stored_key p m) (map (?f p) [Suc m..<?n - 1]) = map (?f p) [Suc m..<?n - 1]"
    using lt by (auto simp: filter_id_conv)
  then show rec: "user_records q = filter (\<lambda>(k, _). k \<noteq> stored_key p m) (user_records p)"
    by (simp only: us old filter_append filter.simps) simp
  have sk: "sorted_wrt (<) (map (stored_key q) (user_range q))"
  proof -
    have "map (stored_key q) (user_range q) = map fst (user_records q)" by (simp add: user_records_def o_def)
    also have "\<dots> = map fst (filter (\<lambda>(k, _). k \<noteq> stored_key p m) (user_records p))" by (simp add: rec)
    also have "sorted_wrt (<) \<dots>" using so by (simp add: sorted_wrt_map sorted_wrt_filter)
    finally show ?thesis .
  qed
  have sm: "skip m j < ?n" "skip m i = skip m j \<longleftrightarrow> i = j" if "j + 1 < ?n" for i j
    using that by (auto simp: skip_def)
  have ends: "skip m 0 = 0" "skip m (record_count q - 1) = ?n - 1" "record_count q - 1 + 1 < ?n" "0 + 1 < ?n"
    using m q(2) by (auto simp: skip_def)
  have ends': "get_kv_meta q 0 = get_kv_meta p 0" "get_kv_meta q (record_count q - 1) = get_kv_meta p (?n - 1)"
    using q(3)[rule_format, OF ends(3)] q(3)[rule_format, OF ends(4)] ends(1,2) by simp_all
  have usr: "1 \<le> skip m i \<and> skip m i + 1 < ?n" if "1 \<le> i" "i + 1 < ?n - 1" for i
    using that by (auto simp: skip_def)
  show wq: "leaf_wf q"
    unfolding leaf_wf_def set_upt set_user_range
  proof (intro conjI ballI impI)
    show "length q \<le> 4096" "2 \<le> record_count q" using leaf_wfD(1)[OF wf] q(1,2) m by simp_all
    show ks: "kv_slot (record_count q) \<le> length q" using leaf_wfD(3)[OF wf] q(1,2) by (simp add: kv_slot_def)
    show "KVMeta_fence (get_kv_meta q 0)" "KVMeta_fence (get_kv_meta q (record_count q - 1))"
      using ends' leaf_wfD(7,8)[OF wf] by simp_all
    show "sorted_wrt (<) (map (stored_key q) (user_range q))" by (rule sk)
  next
    fix i assume "i \<in> {0..<record_count q}"
    then have i: "i + 1 < ?n" using q(2) by auto
    have "kv_slot (record_count q) \<le> kv_slot ?n" using q(2) by (simp add: kv_slot_def)
    from order.trans[OF this leaf_wfD(4)[OF wf sm(1)[OF i]]] q(3) i
    show "kv_slot (record_count q) \<le> KVMeta_offset (get_kv_meta q i)" by simp
    from leaf_wfD(5)[OF wf sm(1)[OF i]] q(1,3) i show "kv_end (get_kv_meta q i) \<le> length q" by simp
  next
    fix i j assume "i \<in> {0..<record_count q}" "j \<in> {0..<record_count q}" and ne: "i \<noteq> j"
    then have i: "i + 1 < ?n" "j + 1 < ?n" using q(2) by auto
    have "skip m i \<noteq> skip m j" using sm(2)[OF i(2), of i] ne by simp
    from leaf_wfD(6)[OF wf sm(1)[OF i(1)] sm(1)[OF i(2)] this] q(3) i
    show "kv_end (get_kv_meta q i) \<le> KVMeta_offset (get_kv_meta q j) \<or> kv_end (get_kv_meta q j) \<le> KVMeta_offset (get_kv_meta q i)"
      by simp
  next
    fix i assume "i \<in> {i. 1 \<le> i \<and> i + 1 < record_count q}"
    then have i: "1 \<le> i" "i + 1 < ?n - 1" using q(2) by auto
    then have j: "i + 1 < ?n" by simp
    show "\<not> KVMeta_fence (get_kv_meta q i)" "KVMeta_look_ahead (get_kv_meta q i) = get_lookahead (stored_key q i)"
      using leaf_wfD(9,10)[OF wf, of "skip m i"] usr[OF i] q(3,4) j by simp_all
  qed
  have fk: "stored_key q 0 = stored_key p 0" "stored_key q (record_count q - 1) = stored_key p (?n - 1)"
    using q(4)[rule_format, OF ends(3)] q(4)[rule_format, OF ends(4)] ends(1,2) by simp_all
  then show "fence_bounds q = fence_bounds p" unfolding fence_bounds_eq[OF wq] fence_bounds_eq[OF wf] by simp
  show "node_prefix q = node_prefix p" using fk by (simp add: node_prefix_def)
qed

section \<open>Records in the order they were put\<close>

text \<open>The offsets of the user records by key, and those of the fences.\<close>

definition user_offsets :: "bytes \<Rightarrow> (bytes \<times> nat) list" where
  "user_offsets p = map (\<lambda>i. (node_prefix p @ stored_key p i, KVMeta_offset (get_kv_meta p i))) (user_range p)"

definition fence_offsets :: "bytes \<Rightarrow> nat list" where
  "fence_offsets p = [KVMeta_offset (get_kv_meta p 0), KVMeta_offset (get_kv_meta p (record_count p - 1))]"

text \<open>
  The keys \<open>ks\<close> are those of the lowest records, the lowest first: a put of a fresh key adds its
  key in front, and removals in that order take the lowest record each time.
\<close>

fun stack_ok :: "(bytes \<times> nat) list \<Rightarrow> nat list \<Rightarrow> bytes list \<Rightarrow> bool" where
  "stack_ok al fs [] = True"
| "stack_ok al fs (k # ks) \<longleftrightarrow>
    (\<exists>x. map_of al k = Some x \<and> (\<forall>(k', y) \<in> set al. k' \<noteq> k \<longrightarrow> x < y) \<and> (\<forall>y \<in> set fs. x < y)) \<and>
    stack_ok (filter (\<lambda>(k', _). k' \<noteq> k) al) fs ks"

definition stacked :: "bytes \<Rightarrow> bytes list \<Rightarrow> bool" where
  "stacked p ks \<longleftrightarrow> stack_ok (user_offsets p) (fence_offsets p) ks"

lemma upsert_filter:
  assumes "key_sorted es" and "map_of es k = None"
  shows "filter (\<lambda>(k', _). k' \<noteq> k) (upsert k v es) = es"
proof -
  have f: "k \<notin> fst ` set es" using assms(2) by (simp add: map_of_eq_None_iff)
  from f show ?thesis
    by (induction k v es rule: upsert.induct) (auto simp: filter_id_conv image_iff split: prod.splits)
qed

lemma stack_ok_put:
  assumes "stack_ok al fs ks" and "key_sorted al" and "map_of al k = None"
    and "\<forall>(_, y) \<in> set al. x < y" and "\<forall>y \<in> set fs. x < y"
  shows "stack_ok (upsert k x al) fs (k # ks)"
proof -
  have "set (upsert k x al) \<subseteq> insert (k, x) (set al)" by (induction k x al rule: upsert.induct) auto
  with assms map_of_upsert[of k x al] upsert_filter[OF assms(2,3), of x] show ?thesis by auto
qed

lemma node_records_insert:
  assumes idx: "1 \<le> idx" "idx < record_count p" and n: "record_count q = record_count p + 1"
    and f: "\<And>j. j \<le> record_count p \<Longrightarrow> g j = (if j < idx then f j else if j = idx then x else f (j - 1))"
  shows "map g (user_range q) = map f [1..<idx] @ x # map f [idx..<record_count p - 1]"
    "map f (user_range p) = map f [1..<idx] @ map f [idx..<record_count p - 1]"
proof -
  let ?n = "record_count p"
  have "[1..<record_count q - 1] = [1..<idx] @ idx # map Suc [idx..<?n - 1]"
    using idx n upt_split3[of 1 idx ?n] by (simp add: map_Suc_upt)
  moreover have "map g [1..<idx] = map f [1..<idx]" "map g (map Suc [idx..<?n - 1]) = map f [idx..<?n - 1]" "g idx = x"
    using idx by (auto simp: f)
  ultimately show "map g (user_range q) = map f [1..<idx] @ x # map f [idx..<?n - 1]"
    by (simp only: user_range_def map_append list.map)
  show "map f (user_range p) = map f [1..<idx] @ map f [idx..<?n - 1]"
    using idx upt_add_eq_append[of 1 idx "?n - 1 - idx"] by (simp add: user_range_def flip: map_append)
qed

lemma user_offsets_keys: "map fst (user_offsets p) = map fst (full_records p)"
  by (simp add: user_offsets_def full_records_def user_records_def o_def)

lemma key_sorted_offsets: "leaf_wf p \<Longrightarrow> key_sorted (user_offsets p)"
  using full_records_sorted[of p] by (simp only: user_offsets_keys)

lemma user_offsets_map: "map_of (user_offsets p) k = Some x \<Longrightarrow>
    \<exists>m. 1 \<le> m \<and> m + 1 < record_count p \<and> k = node_prefix p @ stored_key p m \<and> x = KVMeta_offset (get_kv_meta p m)"
  by (drule map_of_SomeD) (auto simp: user_offsets_def set_user_range)

lemma stacked_cong:
  assumes "record_count q = record_count p" and "node_prefix q = node_prefix p"
    and "\<And>i. i < record_count p \<Longrightarrow> stored_key q i = stored_key p i"
    and "\<And>i. i < record_count p \<Longrightarrow> get_kv_meta q i = get_kv_meta p i" and "2 \<le> record_count p"
  shows "stacked q ks = stacked p ks"
proof -
  have "user_offsets q = user_offsets p" "fence_offsets q = fence_offsets p"
    using assms by (auto simp: user_offsets_def fence_offsets_def user_range_def)
  then show ?thesis by (simp add: stacked_def)
qed

lemma offsets_put_new:
  assumes wf: "leaf_wf p" and idx: "1 \<le> idx" "idx < record_count p"
    and less: "\<And>i. 1 \<le> i \<Longrightarrow> i < idx \<Longrightarrow> stored_key p i < k"
    and greater: "\<And>i. idx \<le> i \<Longrightarrow> i + 1 < record_count p \<Longrightarrow> k < stored_key p i"
    and room: "leaf_room p (length k + length v)" and ne: "k \<noteq> [] \<or> v \<noteq> []"
    and put: "put_new p idx k v = (r, q)" and pre: "node_prefix q = node_prefix p"
  obtains x where "user_offsets q = upsert (node_prefix p @ k) x (user_offsets p)" "fence_offsets q = fence_offsets p"
    "\<forall>(_, y) \<in> set (user_offsets p). x < y" "\<forall>y \<in> set (fence_offsets p). x < y"
proof -
  let ?n = "record_count p"
  obtain q' mo where q': "put_new p idx k v = (Inr (), q')" "find_min_offset p = Inr mo"
    "kv_slot (?n + 1) + length k + length v \<le> mo" "record_count q' = ?n + 1"
    "\<forall>j. j \<le> ?n \<longrightarrow> get_kv_meta q' j = (if j < idx then get_kv_meta p j
        else if j = idx then KVMeta_new (length k) (length v) (mo - (length k + length v)) KVInsert False True (get_lookahead k)
        else get_kv_meta p (j - 1))"
    by (rule put_new_spec[OF wf idx room])
  have q: "q' = q" using put q'(1) by simp
  define x where "x = mo - (length k + length v)"
  note mo = find_min_offset_le[OF q'(2)]
  have up: "mo \<le> 4096" "length p \<le> 4096"
    using mo[of 0] leaf_wfD(1)[OF wf] leaf_wfD(5)[OF wf, of 0] idx by (auto simp: kv_end_def)
  have lt: "x < KVMeta_offset (get_kv_meta p i)" if "i < ?n" for i
  proof -
    have "0 < length k + length v" using ne by auto
    with mo[OF that] q'(3) show ?thesis unfolding x_def by linarith
  qed
  note R = put_new_records[OF wf idx room put]
  have new: "KVMeta_offset (KVMeta_new (length k) (length v) x KVInsert False True (get_lookahead k)) = x"
    using q'(3) up by (simp add: x_def)
  let ?f = "\<lambda>p i. (node_prefix p @ stored_key p i, KVMeta_offset (get_kv_meta p i))"
  have f: "?f q j = (if j < idx then ?f p j else if j = idx then (node_prefix p @ k, x) else ?f p (j - 1))" if "j \<le> ?n" for j
    using that R(5)[OF that] q'(5)[unfolded q, folded x_def] new by (simp add: pre)
  note I = node_records_insert[of idx p q "?f q" "?f p", OF idx R(3) f]
  have "upsert (node_prefix p @ k) x (map (?f p) [1..<idx] @ map (?f p) [idx..<?n - 1]) =
      map (?f p) [1..<idx] @ (node_prefix p @ k, x) # map (?f p) [idx..<?n - 1]"
    using less greater by (intro upsert_absent) auto
  then have u: "user_offsets q = upsert (node_prefix p @ k) x (user_offsets p)" using I by (simp add: user_offsets_def)
  have fo: "fence_offsets q = fence_offsets p"
    using q'(5)[unfolded q] idx by (simp add: fence_offsets_def R(3))
  show thesis
    by (rule that[OF u fo]) (use lt leaf_wfD(2)[OF wf] in \<open>auto simp: user_offsets_def fence_offsets_def set_user_range\<close>)
qed

lemma stacked_put:
  assumes wf: "leaf_wf p" and key: "prefix (node_prefix p) key" and fits: "put_fits p key v"
    and new: "map_of (full_records p) key = None" and ne: "key \<noteq> node_prefix p \<or> v \<noteq> []"
    and put: "try_put p key v = (r, q)" and st: "stacked p ks"
  shows "stacked q (key # ks)"
proof -
  obtain k where k: "key = node_prefix p @ k" using key by (auto simp: prefix_def)
  have n: "map_of (user_records p) k = None" using new by (simp add: k full_records_def map_of_prefix)
  have room: "leaf_room p (length k + length v)" using fits n by (simp add: put_fits_def suffix_fits_def k)
  have s: "try_put_with_suffix p k v = (r, q)"
    using put leaf_wfD(2)[OF wf] by (simp add: try_put_def get_node_prefix_eq[OF wf] k)
  have pre: "node_prefix q = node_prefix p" by (rule try_put_spec(5)[OF wf key fits put])
  show ?thesis using wf
  proof (cases rule: leaf_binary_search_cases[where k = k])
    case (found m)
    with leaf_search_map(1)[OF wf found(1)] n show ?thesis by simp
  next
    case (absent l)
    have p': "put_new p l k v = (r, q)" using s absent(1) by (simp add: try_put_with_suffix_def)
    have ne': "k \<noteq> [] \<or> v \<noteq> []" using ne by (auto simp: k)
    obtain x where x: "user_offsets q = upsert key x (user_offsets p)" "fence_offsets q = fence_offsets p"
      "\<forall>(_, y) \<in> set (user_offsets p). x < y" "\<forall>y \<in> set (fence_offsets p). x < y"
      using offsets_put_new[OF wf absent(2-5) room ne' p' pre] k by blast
    have "map_of (user_offsets p) key = None" using new by (simp add: map_of_eq_None_iff user_offsets_keys flip: set_map)
    from stack_ok_put[OF st[unfolded stacked_def] key_sorted_offsets[OF wf] this x(3,4)]
    show ?thesis by (simp only: stacked_def x(1,2))
  qed
qed

lemma filter_prefix:
  "map (\<lambda>(k, v). (ps @ k, v)) (filter (\<lambda>(k, _). k \<noteq> s) kvs) = filter (\<lambda>(k, _). k \<noteq> ps @ s) (map (\<lambda>(k, v). (ps @ k, v)) kvs)"
  by (induction kvs) auto

lemma stack_head_lowest:
  assumes wf: "leaf_wf p" and st: "stacked p (key # ks)"
  obtains m where "1 \<le> m" "m + 1 < record_count p" "key = node_prefix p @ stored_key p m"
    "\<And>i. i < record_count p \<Longrightarrow> KVMeta_offset (get_kv_meta p m) \<le> KVMeta_offset (get_kv_meta p i)"
proof -
  let ?n = "record_count p"
  obtain x where x: "map_of (user_offsets p) key = Some x" "\<forall>(k', y) \<in> set (user_offsets p). k' \<noteq> key \<longrightarrow> x < y"
    "\<forall>y \<in> set (fence_offsets p). x < y"
    using st by (auto simp: stacked_def)
  obtain m where m: "1 \<le> m" "m + 1 < ?n" "key = node_prefix p @ stored_key p m" "x = KVMeta_offset (get_kv_meta p m)"
    using user_offsets_map[OF x(1)] by blast
  have low: "KVMeta_offset (get_kv_meta p m) \<le> KVMeta_offset (get_kv_meta p i)" if "i < ?n" for i
  proof (cases "1 \<le> i \<and> i + 1 < ?n")
    case True
    then have "(node_prefix p @ stored_key p i, KVMeta_offset (get_kv_meta p i)) \<in> set (user_offsets p)"
      by (auto simp: user_offsets_def set_user_range)
    moreover have "i = m" if "stored_key p i = stored_key p m"
      using that leaf_wf_keys_less[OF wf, of i m] leaf_wf_keys_less[OF wf, of m i] True m by (cases i m rule: linorder_cases) auto
    ultimately show ?thesis using x(2) m(3,4) by (cases "i = m") fastforce+
  next
    case False
    with that have "i = 0 \<or> i = ?n - 1" by auto
    with x(3) m(4) show ?thesis by (auto simp: fence_offsets_def)
  qed
  show thesis by (rule that[OF m(1-3) low])
qed

lemma leaf_search_stored:
  assumes wf: "leaf_wf p" and m: "1 \<le> m" "m + 1 < record_count p"
  shows "leaf_binary_search p (stored_key p m) = Inr m"
  using wf
proof (cases rule: leaf_binary_search_cases[where k = "stored_key p m"])
  case (found i)
  then show ?thesis using leaf_wf_keys_less[OF wf, of i m] leaf_wf_keys_less[OF wf, of m i] m
    by (cases i m rule: linorder_cases) auto
next
  case (absent l)
  then show ?thesis using absent(4)[of m] absent(5)[of m] m by (cases "m < l") auto
qed

lemma offsets_remove:
  assumes wf: "leaf_wf p" and m: "1 \<le> m" "m + 1 < record_count p"
    and q: "record_count q = record_count p - 1" "node_prefix q = node_prefix p"
      "\<forall>j. j + 1 < record_count p \<longrightarrow> get_kv_meta q j = get_kv_meta p (skip m j)"
      "\<forall>j. j + 1 < record_count p \<longrightarrow> stored_key q j = stored_key p (skip m j)"
  shows "user_offsets q = filter (\<lambda>(k', _). k' \<noteq> node_prefix p @ stored_key p m) (user_offsets p)"
    "fence_offsets q = fence_offsets p"
proof -
  let ?n = "record_count p" and ?f = "\<lambda>p i. (node_prefix p @ stored_key p i, KVMeta_offset (get_kv_meta p i))"
  let ?key = "node_prefix p @ stored_key p m"
  have ur: "user_range q = [1..<?n - 2]" by (simp add: user_range_def q(1) numeral_2_eq_2)
  have "map (?f q) [1..<?n - 2] = map (?f p) (map (skip m) [1..<?n - 2])"
    unfolding map_map by (rule map_cong[OF refl]) (use q(2-4) in auto)
  then have a: "user_offsets q = map (?f p) [1..<m] @ map (?f p) [Suc m..<?n - 1]"
    by (simp only: user_offsets_def ur upt_skip[OF m] map_append)
  have "[1..<?n - 1] = [1..<m] @ m # [Suc m..<?n - 1]" using m upt_split3[of 1 m "?n - 1"] by simp
  then have b: "user_offsets p = map (?f p) [1..<m] @ ?f p m # map (?f p) [Suc m..<?n - 1]"
    by (simp only: user_offsets_def user_range_def map_append list.map)
  have "stored_key p i \<noteq> stored_key p m" if "i \<in> {1..<m} \<union> {Suc m..<?n - 1}" for i
    using that less_diff_conv[of i ?n 1] leaf_wf_keys_less[OF wf, of i m] leaf_wf_keys_less[OF wf, of m i] m by auto
  then have "filter (\<lambda>(k', _). k' \<noteq> ?key) (map (?f p) [1..<m]) = map (?f p) [1..<m]"
    "filter (\<lambda>(k', _). k' \<noteq> ?key) (map (?f p) [Suc m..<?n - 1]) = map (?f p) [Suc m..<?n - 1]"
    by (simp_all add: filter_id_conv)
  then show "user_offsets q = filter (\<lambda>(k', _). k' \<noteq> ?key) (user_offsets p)"
    by (simp only: a b filter_append filter.simps) simp
  have e: "skip m 0 = 0" "skip m (?n - 1 - 1) = ?n - 1" "?n - 1 - 1 + 1 < ?n" "0 + 1 < ?n" using m by (auto simp: skip_def)
  have "get_kv_meta q 0 = get_kv_meta p 0" "get_kv_meta q (?n - 1 - 1) = get_kv_meta p (?n - 1)"
    using q(3)[rule_format, OF e(4)] q(3)[rule_format, OF e(3)] e(1,2) by simp_all
  then show "fence_offsets q = fence_offsets p" by (simp only: fence_offsets_def q(1))
qed

text \<open>Removing the key on top of the stack takes that record away and nothing else.\<close>

lemma stacked_remove:
  assumes wf: "leaf_wf p" and st: "stacked p (key # ks)"
  obtains q where "remove_key_physical p key = (Inr True, q)" "leaf_wf q"
    "full_records q = filter (\<lambda>(k, _). k \<noteq> key) (full_records p)" "fence_bounds q = fence_bounds p"
    "node_prefix q = node_prefix p" "length q = length p" "page_ident q = page_ident p" "stacked q ks"
proof -
  let ?n = "record_count p"
  obtain m where m: "1 \<le> m" "m + 1 < ?n" "key = node_prefix p @ stored_key p m"
    "\<And>i. i < ?n \<Longrightarrow> KVMeta_offset (get_kv_meta p m) \<le> KVMeta_offset (get_kv_meta p i)"
    by (rule stack_head_lowest[OF wf st]) blast
  obtain q where q: "remove_entry p m = (Inr True, q)" "length q = length p" "record_count q = ?n - 1" "page_ident q = page_ident p"
    "\<forall>j. j + 1 < ?n \<longrightarrow> get_kv_meta q j = get_kv_meta p (skip m j)"
    "\<forall>j. j + 1 < ?n \<longrightarrow> stored_key q j = stored_key p (skip m j)"
    "\<forall>j. j + 1 < ?n \<longrightarrow> stored_val q j = stored_val p (skip m j)"
    by (rule remove_lowest_entry[OF wf m(1,2,4)])
  note L = remove_lowest_leaf[OF wf m(1,2) q(2,3,5-7)] and O = offsets_remove[OF wf m(1,2) q(3) _ q(5,6)]
  have rem: "remove_key_physical p key = (Inr True, q)"
    by (simp add: remove_key_physical_def get_node_prefix_eq[OF wf] m(3) leaf_search_stored[OF wf m(1,2)] q(1))
  have full: "full_records q = filter (\<lambda>(k, _). k \<noteq> key) (full_records p)"
    by (simp only: full_records_def L(2,4) m(3) filter_prefix)
  have "stacked q ks" using st O[OF L(4)] by (simp add: stacked_def m(3))
  then show thesis by (rule that[OF rem L(1) full L(3,4) q(2,4)])
qed

end
