(* ===== verification/Tx_Pages.thy ===== *)
theory Tx_Pages
  imports Transaction Node_Remove
begin

text \<open>
  lib.rs, the page operations of a transaction on a database whose root is a leaf: the page as the
  transaction sees it through its guard (\<open>tx_view\<close>, \<open>locked\<close>), the promotion of a leaf to the cache,
  the records a put appends to the log, and the effect of \<open>put\<close> and \<open>get\<close>.
\<close>

section \<open>Appending to the log\<close>

lemma append_record_spec:
  obtains w' where "append_record w r = (Inr (), w')" "wal_records w' = wal_records w @ [r]"
    "total_records w' = total_records w + 1" "total_bytes w' = total_bytes w + group_bytes (wal_page_id r, [r])"
    "\<And>p. stat_count (stats_of (leaf_counts w') p) = stat_count (stats_of (leaf_counts w) p) + (if p = wal_page_id r then 1 else 0)"
    "fst ` set (leaf_counts w') = insert (wal_page_id r) (fst ` set (leaf_counts w))"
proof -
  have n: "\<exists>f. write_group f0 pid [r] = (Inr (GROUP_HEADER_LEN + record_size r), f)" for f0 pid
    by (simp add: write_group_def write_record_payload_def record_size_def Let_def split: WalOp.split)
  then obtain f where f: "write_group (f_seek_end (wal_file w)) (wal_page_id r) [r] = (Inr (GROUP_HEADER_LEN + record_size r), f)"
    by blast
  let ?w = "snd (append_record w r)"
  have "append_record w r = (Inr (), ?w)" "wal_records ?w = wal_records w @ [r]" "total_records ?w = total_records w + 1"
    "total_bytes ?w = total_bytes w + group_bytes (wal_page_id r, [r])"
    using f by (simp_all add: append_record_def Let_def group_bytes_def)
  moreover have "stat_count (stats_of (leaf_counts ?w) p) =
      stat_count (stats_of (leaf_counts w) p) + (if p = wal_page_id r then 1 else 0)" for p
    using f by (simp add: append_record_def Let_def stats_of_update count_record_def)
  moreover have "fst ` set (leaf_counts ?w) = insert (wal_page_id r) (fst ` set (leaf_counts w))"
    using f by (simp add: append_record_def Let_def count_record_def dom_update)
  ultimately show thesis by (rule that)
qed

section \<open>The page a transaction sees\<close>

text \<open>Hot pages have the records of the page.\<close>

lemma mark_page_hot_leaf:
  assumes "leaf_wf p"
  shows "leaf_wf (mark_page_hot p)" "full_records (mark_page_hot p) = full_records p"
    "fence_bounds (mark_page_hot p) = fence_bounds p" "node_prefix (mark_page_hot p) = node_prefix p"
    "find_min_offset (mark_page_hot p) = find_min_offset p" "record_count (mark_page_hot p) = record_count p"
    "length (mark_page_hot p) = length p" "node_header (mark_page_hot p) = NodeMeta_mark_hot (node_header p)"
    "user_records (mark_page_hot p) = user_records p"
    "i < record_count p \<Longrightarrow> get_kv_meta (mark_page_hot p) i = get_kv_meta p i"
proof -
  have rc: "NodeMeta_record_count (NodeMeta_mark_hot (node_header p)) = NodeMeta_record_count (node_header p)" by simp
  note H = set_header_leaf[OF assms rc, folded mark_page_hot_def] and R = set_header_records[OF assms rc, folded mark_page_hot_def]
  show "leaf_wf (mark_page_hot p)" "full_records (mark_page_hot p) = full_records p"
    "fence_bounds (mark_page_hot p) = fence_bounds p" "node_prefix (mark_page_hot p) = node_prefix p"
    "find_min_offset (mark_page_hot p) = find_min_offset p" "user_records (mark_page_hot p) = user_records p"
    by (rule H)+
  show "record_count (mark_page_hot p) = record_count p"
    "length (mark_page_hot p) = length p" "node_header (mark_page_hot p) = NodeMeta_mark_hot (node_header p)"
    "i < record_count p \<Longrightarrow> get_kv_meta (mark_page_hot p) i = get_kv_meta p i"
    by (rule R, simp?)+
qed

lemma mark_page_hot_fits: "leaf_wf p \<Longrightarrow> put_fits (mark_page_hot p) key v = put_fits p key v"
  by (simp add: put_fits_def suffix_fits_def leaf_room_def mark_page_hot_leaf split: option.split sum.split)

lemma mark_page_hot_disk: "leaf_wf p \<Longrightarrow> NodeMeta_leaf (node_header (mark_page_hot p)) = NodeMeta_leaf (node_header p)"
  by (simp add: mark_page_hot_leaf header_fields field_with_other)

text \<open>A cache that can take one more leaf.\<close>

definition room_for_leaf :: "MiniPageBuffer \<Rightarrow> bool" where
  "room_for_leaf c \<longleftrightarrow>
    (case alloc c LeafPage of
       (None, _) \<Rightarrow> False
     | (Some i, c') \<Rightarrow> i < 2 ^ 48 \<and> 8 * i + 4096 \<le> length (backing c'))"

text \<open>
  The page \<open>p\<close> behind a reference and the page \<open>dp\<close> on disk it comes from: both are well-formed,
  every key on disk is a key of the page, and a leaf a guard has cached is the one on disk.  A page
  that is not in the cache is the one on disk, and there is room for it in the cache.
\<close>

definition page_data :: "Db \<Rightarrow> NodeRef \<Rightarrow> bytes option \<Rightarrow> bytes \<Rightarrow> bytes \<Rightarrow> bool" where
  "page_data d r cached p dp \<longleftrightarrow>
    page_of_ref d r = Inr p \<and> leaf_wf p \<and> length p = 4096 \<and>
    get_page (io_engine d) (NodeMeta_leaf (node_header p)) = Inr dp \<and> leaf_wf dp \<and> node_prefix dp = node_prefix p \<and>
    set (map fst (full_records dp)) \<subseteq> set (map fst (full_records p)) \<and> cached \<in> {None, Some dp} \<and>
    (case r of
       Leaf a \<Rightarrow> a = NodeMeta_leaf (node_header p) \<and> room_for_leaf (cache d)
     | MiniPage i \<Rightarrow> 8 * i + 4096 \<le> length (backing (cache d)))"

lemma page_dataD:
  assumes "page_data d r cached p dp"
  shows "page_of_ref d r = Inr p" "leaf_wf p" "length p = 4096"
    "get_page (io_engine d) (NodeMeta_leaf (node_header p)) = Inr dp" "leaf_wf dp" "node_prefix dp = node_prefix p"
    "set (map fst (full_records dp)) \<subseteq> set (map fst (full_records p))" "cached \<in> {None, Some dp}"
    "r = Leaf a \<Longrightarrow> a = NodeMeta_leaf (node_header p) \<and> room_for_leaf (cache d) \<and> dp = p"
    "r = MiniPage i \<Longrightarrow> 8 * i + 4096 \<le> length (backing (cache d)) \<and> get_meta_ref (cache d) i = p"
  using assms by (auto simp: page_data_def page_of_ref_def)

text \<open>The page behind a handle, and the page behind a guard that no handle borrows.\<close>

definition locked :: "Tx \<Rightarrow> u64 \<Rightarrow> bytes \<Rightarrow> bytes \<Rightarrow> bool" where
  "locked t page p dp \<longleftrightarrow> unat page < MapTable_capacity (map_table (tx_db t)) \<and>
    (\<exists>s w. get_slot (lock_manager t) page = Some s \<and> guard_inner (slot_guard s) = Write page w \<and> borrowed s \<and>
      page_data (tx_db t) (PageEntry_get_ref w) (guard_leaf (slot_guard s)) p dp)"

definition tx_view :: "Tx \<Rightarrow> u64 \<Rightarrow> bytes \<Rightarrow> bytes \<Rightarrow> bool" where
  "tx_view t page p dp \<longleftrightarrow> unat page < MapTable_capacity (map_table (tx_db t)) \<and>
    (let w = get_entry (map_table (tx_db t)) (unat page) in
     case get_slot (lock_manager t) page of
       None \<Rightarrow> entry_free w \<and> page_data (tx_db t) (PageEntry_get_ref w) None p dp
     | Some s \<Rightarrow> \<not> borrowed s \<and>
         (case guard_inner (slot_guard s) of
            Write h node \<Rightarrow> h = page \<and> page_data (tx_db t) (PageEntry_get_ref node) (guard_leaf (slot_guard s)) p dp
          | Read h node \<Rightarrow> h = page \<and> PageEntry_state w = 1 \<and>
              page_data (tx_db t) (PageEntry_get_ref node) (guard_leaf (slot_guard s)) p dp))"

text \<open>What the page operations leave alone: everything but the locks, the page table and the cache.\<close>

definition keeps :: "Tx \<Rightarrow> Tx \<Rightarrow> bool" where
  "keeps t t' \<longleftrightarrow> (\<exists>lm mt c. t' = t\<lparr>lock_manager := lm, tx_db := (tx_db t)\<lparr>map_table := mt, cache := c\<rparr>\<rparr>)"

lemma keeps_refl: "keeps t t"
  unfolding keeps_def
  by (rule exI[of _ "lock_manager t"], rule exI[of _ "map_table (tx_db t)"], rule exI[of _ "cache (tx_db t)"]) simp

lemma keeps_trans: "keeps t t' \<Longrightarrow> keeps t' t'' \<Longrightarrow> keeps t t''"
  unfolding keeps_def by (elim exE) (simp, blast)

lemma keepsD:
  assumes "keeps t t'"
  shows "wal (tx_db t') = wal (tx_db t)" "inner_nodes (tx_db t') = inner_nodes (tx_db t)" "undo_log t' = undo_log t"
    "txn_id t' = txn_id t" "wal_entry_kind t' = wal_entry_kind t" "tx_state t' = tx_state t"
    "wal_leaf_checkpoint_threshold (tx_db t') = wal_leaf_checkpoint_threshold (tx_db t)"
    "wal_global_record_threshold (tx_db t') = wal_global_record_threshold (tx_db t)"
    "wal_global_byte_threshold (tx_db t') = wal_global_byte_threshold (tx_db t)"
    "wal_checkpoint_requested (tx_db t') = wal_checkpoint_requested (tx_db t)" "io_engine (tx_db t') = io_engine (tx_db t)"
  using assms by (auto simp: keeps_def)

lemma page_data_map [simp]: "page_data (d\<lparr>map_table := mt\<rparr>) r l p dp = page_data d r l p dp"
  by (simp add: page_data_def page_of_ref_def split: NodeRef.split)

section \<open>Taking and giving back a page\<close>

lemma acquire_view:
  assumes v: "tx_view t page p dp"
  obtains t' where "acquire_write t page = (Inr page, t')" "locked t' page p dp" "keeps t t'"
proof -
  let ?mt = "map_table (tx_db t)" and ?lm = "lock_manager t"
  let ?w = "get_entry ?mt (unat page)"
  have c: "unat page < MapTable_capacity ?mt" using v by (simp add: tx_view_def)
  define t' where "t' = snd (acquire_write t page)"
  have acq: "acquire_write t page = (fst (get_upgrade_or_acquire_write_lock ?lm ?mt page), t')"
    and t': "t' = t\<lparr>lock_manager := fst (snd (get_upgrade_or_acquire_write_lock ?lm ?mt page)),
      tx_db := (tx_db t)\<lparr>map_table := snd (snd (get_upgrade_or_acquire_write_lock ?lm ?mt page))\<rparr>\<rparr>"
    using c by (simp_all add: t'_def acquire_write_def split: prod.split)
  have k: "keeps t t'"
    unfolding keeps_def t' by (rule exI, rule exI, rule exI[of _ "cache (tx_db t)"]) simp
  show thesis
  proof (cases "get_slot ?lm page")
    case None
    then have e: "entry_free ?w" "page_data (tx_db t) (PageEntry_get_ref ?w) None p dp"
      using v by (simp_all add: tx_view_def Let_def)
    then have s0: "PageEntry_state ?w = 0" by (simp add: entry_free_def)
    note A = acquire_write_fresh[OF None s0]
    show thesis
      by (rule that[OF _ _ k]) (use A acq e(2) c in \<open>simp_all add: t' locked_def\<close>)
  next
    case (Some s)
    show thesis
    proof (cases "guard_inner (slot_guard s)")
      case (Write h node)
      then have h: "h = page" "\<not> borrowed s" "page_data (tx_db t) (PageEntry_get_ref node) (guard_leaf (slot_guard s)) p dp"
        using v Some by (simp_all add: tx_view_def Let_def)
      note A = acquire_write_held[OF Some, of node]
      show thesis
        by (rule that[OF _ _ k]) (use A acq h c Write in \<open>simp_all add: t' locked_def\<close>)
    next
      case (Read h node)
      then have h: "h = page" "\<not> borrowed s" "PageEntry_state ?w = 1"
        "page_data (tx_db t) (PageEntry_get_ref node) (guard_leaf (slot_guard s)) p dp"
        using v Some by (simp_all add: tx_view_def Let_def)
      have A: "get_upgrade_or_acquire_write_lock ?lm ?mt page =
        (Inr page, set_slot ?lm page (s\<lparr>slot_guard := (slot_guard s)\<lparr>guard_inner := Write page node\<rparr>, borrowed := True\<rparr>),
         set_entry ?mt (unat page) (PageEntry_set_state ?w WRITE_LOCK_STATE))"
        using upgrade_only_reader[OF h(3), of node] Some Read h(1,2)
        by (simp add: get_upgrade_or_acquire_write_lock_def ensure_write_def PageHandle_acquire_def Let_def)
      show thesis
        by (rule that[OF _ _ k]) (use A acq h(4) c in \<open>simp_all add: t' locked_def\<close>)
    qed
  qed
qed

lemma release_view:
  assumes "locked t page p dp"
  obtains t' where "release page (r, t) = (r, t')" "tx_view t' page p dp" "keeps t t'"
proof -
  from assms obtain s w where s: "get_slot (lock_manager t) page = Some s" "guard_inner (slot_guard s) = Write page w"
    "borrowed s" "page_data (tx_db t) (PageEntry_get_ref w) (guard_leaf (slot_guard s)) p dp"
    and c: "unat page < MapTable_capacity (map_table (tx_db t))"
    by (auto simp: locked_def)
  let ?t = "t\<lparr>lock_manager := set_slot (lock_manager t) page (s\<lparr>borrowed := False\<rparr>)\<rparr>"
  show thesis
  proof (rule that[of ?t])
    show "keeps t ?t"
      unfolding keeps_def by (rule exI, rule exI[of _ "map_table (tx_db t)"], rule exI[of _ "cache (tx_db t)"]) simp
  qed (use s c in \<open>simp_all add: release_def PageHandle_drop_def tx_view_def\<close>)
qed

section \<open>Promotion and puts on a page\<close>

lemma lockedE:
  assumes "locked t page p dp"
  obtains s w where "get_slot (lock_manager t) page = Some s" "guard_inner (slot_guard s) = Write page w" "borrowed s"
    "unat page < MapTable_capacity (map_table (tx_db t))"
    "page_data (tx_db t) (PageEntry_get_ref w) (guard_leaf (slot_guard s)) p dp" "handle_ref t page = Inr (PageEntry_get_ref w)"
  using assms by (auto simp: locked_def handle_ref_def get_write_guard_def)

lemma locked_refE:
  assumes "locked t page p dp" and "handle_ref t page = Inr r"
  obtains s w where "get_slot (lock_manager t) page = Some s" "guard_inner (slot_guard s) = Write page w" "borrowed s"
    "unat page < MapTable_capacity (map_table (tx_db t))" "PageEntry_get_ref w = r"
    "page_data (tx_db t) r (guard_leaf (slot_guard s)) p dp"
proof -
  obtain s w where s: "get_slot (lock_manager t) page = Some s" "guard_inner (slot_guard s) = Write page w" "borrowed s"
    "unat page < MapTable_capacity (map_table (tx_db t))"
    "page_data (tx_db t) (PageEntry_get_ref w) (guard_leaf (slot_guard s)) p dp" "handle_ref t page = Inr (PageEntry_get_ref w)"
    by (rule lockedE[OF assms(1)])
  show thesis by (rule that[of s w]) (use s assms(2) in simp_all)
qed

lemma locked_ref:
  assumes "locked t page p dp"
  obtains (mini) i where "handle_ref t page = Inr (MiniPage i)" | (leaf) a where "handle_ref t page = Inr (Leaf a)"
proof -
  obtain s w where "handle_ref t page = Inr (PageEntry_get_ref w)" by (rule lockedE[OF assms])
  with mini leaf show thesis by (cases "PageEntry_get_ref w") simp_all
qed

lemma lockedD:
  assumes "locked t page p dp"
  shows "leaf_wf p" "length p = 4096" "set (map fst (full_records dp)) \<subseteq> set (map fst (full_records p))"
    "handle_ref t page = Inr r \<Longrightarrow> page_of_ref (tx_db t) r = Inr p" "handle_ref t page = Inr (MiniPage i) \<Longrightarrow> tx_page t i = p"
    "node_prefix dp = node_prefix p"
proof -
  obtain s :: LockSlot and w where s: "page_data (tx_db t) (PageEntry_get_ref w) (guard_leaf (slot_guard s)) p dp"
    "handle_ref t page = Inr (PageEntry_get_ref w)"
    by (rule lockedE[OF assms])
  show "leaf_wf p" "length p = 4096" "set (map fst (full_records dp)) \<subseteq> set (map fst (full_records p))"
    "node_prefix dp = node_prefix p"
    by (rule page_dataD[OF s(1)])+
  show "handle_ref t page = Inr r \<Longrightarrow> page_of_ref (tx_db t) r = Inr p" using page_dataD(1)[OF s(1)] s(2) by simp
  show "handle_ref t page = Inr (MiniPage i) \<Longrightarrow> tx_page t i = p"
    using page_dataD(10)[OF s(1)] s(2) by (simp add: tx_page_def)
qed

lemma promote_spec:
  assumes l: "locked t page p dp" and leaf: "handle_ref t page = Inr (Leaf a)"
  obtains t' i where "promote_leaf_to_mini_page t page a = (Inr (), t')" "locked t' page (mark_page_hot p) dp" "keeps t t'"
    "handle_ref t' page = Inr (MiniPage i)"
proof -
  obtain s w where s: "get_slot (lock_manager t) page = Some s" "guard_inner (slot_guard s) = Write page w" "borrowed s"
    "unat page < MapTable_capacity (map_table (tx_db t))" "PageEntry_get_ref w = Leaf a"
    "page_data (tx_db t) (Leaf a) (guard_leaf (slot_guard s)) p dp"
    by (rule locked_refE[OF l leaf])
  note D = page_dataD(1-8)[OF s(6)] and L = page_dataD(9)[OF s(6) refl]
  obtain i c where al: "alloc (cache (tx_db t)) LeafPage = (Some i, c)" "i < 2 ^ 48" "8 * i + 4096 \<le> length (backing c)"
    using L by (auto simp: room_for_leaf_def split: prod.splits option.splits)
  have wf: "leaf_wf p" and len: "length p = 4096" by (rule D)+
  have disk: "get_page (io_engine (tx_db t)) a = Inr p" using D(4) L by simp
  let ?lm = "set_slot (lock_manager t) page (s\<lparr>slot_guard := (slot_guard s)\<lparr>guard_leaf := Some p\<rparr>\<rparr>)"
  have load: "handle_load_leaf (lock_manager t) (io_engine (tx_db t)) page a = (Inr p, ?lm)"
  proof (cases "guard_leaf (slot_guard s)")
    case None
    with s(1) disk show ?thesis by (simp add: handle_load_leaf_def guard_load_leaf_def)
  next
    case (Some x)
    then have "x = p" using D(8) L by auto
    moreover have "s\<lparr>slot_guard := (slot_guard s)\<lparr>guard_leaf := Some p\<rparr>\<rparr> = s" using Some \<open>x = p\<close> by simp
    ultimately show ?thesis using s(1) Some by (simp only: handle_load_leaf_def guard_load_leaf_def) simp
  qed
  let ?s' = "s\<lparr>slot_guard := (slot_guard s)\<lparr>guard_leaf := Some p, guard_inner := Write page (PageEntry_new_write_locked i)\<rparr>\<rparr>"
  let ?lm' = "set_slot (lock_manager t) page ?s'"
  let ?mt = "set_entry (map_table (tx_db t)) (unat page) (PageEntry_new_write_locked i)"
  have mini: "handle_set_mini_page ?lm (map_table (tx_db t)) page i = (Inr (), ?lm', ?mt)"
    using s(2) by (simp add: handle_set_mini_page_def Let_def)
  let ?c = "put_meta (put_meta c i p) i (mark_page_hot p)"
  have g1: "get_meta_ref (put_meta c i p) i = p" "length (backing (put_meta c i p)) = length (backing c)"
    by (rule get_put_meta[OF al(3) len])+
  have hl: "length (mark_page_hot p) = 4096" using mark_page_hot_leaf(7)[OF wf] len by simp
  have g2: "get_meta_ref ?c i = mark_page_hot p" "length (backing ?c) = length (backing c)"
    using get_put_meta[of i "put_meta c i p", OF _ hl] al(3) g1(2) by simp_all
  let ?t = "t\<lparr>lock_manager := ?lm', tx_db := (tx_db t)\<lparr>map_table := ?mt, cache := ?c\<rparr>\<rparr>"
  have "promote_leaf_to_mini_page t page a = (Inr (), ?t)"
    using al(1) load mini leaf_wfD(2)[OF wf] g1
    by (simp add: promote_leaf_to_mini_page_def set_page_def set_cache_def tx_page_def)
  moreover have "locked ?t page (mark_page_hot p) dp"
    using s(3,4) D L g2 al(2,3) hl mark_page_hot_leaf[OF wf] mark_page_hot_disk[OF wf]
    by (simp add: locked_def page_data_def page_of_ref_def)
  moreover have "keeps t ?t" unfolding keeps_def by blast
  moreover have "handle_ref ?t page = Inr (MiniPage i)" using al(2) by (simp add: handle_ref_def get_write_guard_def)
  ultimately show thesis by (rule that)
qed

lemma ensure_mini_page_spec:
  assumes l: "locked t page p dp"
  obtains t' q i where "ensure_mini_page t page = (Inr (), t')" "locked t' page q dp" "keeps t t'"
    "handle_ref t' page = Inr (MiniPage i)" "q = p \<or> q = mark_page_hot p"
proof -
  show thesis
    using l
  proof (cases rule: locked_ref)
    case (mini i)
    then have e: "ensure_mini_page t page = (Inr (), t)" by (subst ensure_mini_page.simps) simp
    show thesis by (rule that[OF e l keeps_refl mini]) simp
  next
    case (leaf a)
    obtain t' i where P: "promote_leaf_to_mini_page t page a = (Inr (), t')" "locked t' page (mark_page_hot p) dp" "keeps t t'"
      "handle_ref t' page = Inr (MiniPage i)"
      by (rule promote_spec[OF l leaf])
    have "ensure_mini_page t' page = (Inr (), t')" using P(4) by (subst ensure_mini_page.simps) simp
    with leaf P(1) have e: "ensure_mini_page t page = (Inr (), t')" by (subst ensure_mini_page.simps) simp
    show thesis by (rule that[OF e P(2-4)]) simp
  qed
qed

text \<open>A change of the page in the cache.\<close>

lemma locked_set_page:
  assumes l: "locked t page p dp" and i: "handle_ref t page = Inr (MiniPage i)"
    and q: "leaf_wf q" "length q = 4096" "NodeMeta_leaf (node_header q) = NodeMeta_leaf (node_header p)"
      "node_prefix q = node_prefix p" "set (map fst (full_records dp)) \<subseteq> set (map fst (full_records q))"
  shows "locked (set_page t i q) page q dp" "keeps t (set_page t i q)" "tx_page t i = p" "tx_page (set_page t i q) i = q"
    "handle_ref (set_page t i q) page = Inr (MiniPage i)"
proof -
  obtain s w where s: "get_slot (lock_manager t) page = Some s" "guard_inner (slot_guard s) = Write page w" "borrowed s"
    "unat page < MapTable_capacity (map_table (tx_db t))" "PageEntry_get_ref w = MiniPage i"
    "page_data (tx_db t) (MiniPage i) (guard_leaf (slot_guard s)) p dp"
    by (rule locked_refE[OF l i])
  note D = page_dataD(1-8)[OF s(6)] and M = page_dataD(10)[OF s(6) refl]
  let ?c = "put_meta (cache (tx_db t)) i q"
  have g: "get_meta_ref ?c i = q" "length (backing ?c) = length (backing (cache (tx_db t)))"
    using get_put_meta[of i "cache (tx_db t)" q] M q(2) by simp_all
  show "locked (set_page t i q) page q dp"
    using s D M g q by (auto simp: locked_def page_data_def page_of_ref_def set_page_def set_cache_def)
  show "keeps t (set_page t i q)"
    unfolding keeps_def set_page_def set_cache_def
    by (rule exI[of _ "lock_manager t"], rule exI[of _ "map_table (tx_db t)"], rule exI[of _ ?c]) simp
  show "tx_page t i = p" using M by (simp add: tx_page_def)
  show "tx_page (set_page t i q) i = q" using g by (simp add: tx_page_def set_page_def set_cache_def)
  show "handle_ref (set_page t i q) page = Inr (MiniPage i)" using i by (simp add: handle_ref_def)
qed

lemma upsert_keys: "set (map fst (upsert k v es)) = insert k (set (map fst es))"
  by (induction es rule: upsert.induct) auto

lemma handle_try_put_spec:
  assumes l: "locked t page p dp" and i: "handle_ref t page = Inr (MiniPage i)"
    and key: "prefix (node_prefix p) key" and fits: "put_fits p key v"
  obtains t' q where "handle_try_put t page key v = (Inr Success, t')" "locked t' page q dp" "keeps t t'"
    "full_records q = upsert key v (full_records p)" "fence_bounds q = fence_bounds p" "node_prefix q = node_prefix p"
    "\<exists>r. try_put p key v = (Inr (), r) \<and> q = mark_page_hot r"
proof -
  note p = lockedD(1-3)[OF l] lockedD(5)[OF l i]
  obtain r q where q: "try_put p key v = (r, q)" by fastforce
  note S = try_put_spec[OF p(1) key fits q] and H = mark_page_hot_leaf
  let ?q = "mark_page_hot q"
  have h: "leaf_wf ?q" "length ?q = 4096" "NodeMeta_leaf (node_header ?q) = NodeMeta_leaf (node_header p)"
    "node_prefix ?q = node_prefix p" "full_records ?q = upsert key v (full_records p)" "fence_bounds ?q = fence_bounds p"
    using S p(2) H[OF S(2)] mark_page_hot_disk[OF S(2)] page_identD(2)[OF S(7)] by simp_all
  have sub: "set (map fst (full_records dp)) \<subseteq> set (map fst (full_records ?q))"
    unfolding h(5) upsert_keys using p(3) by blast
  note L = locked_set_page[OF l i h(1-4) sub]
  have "handle_try_put t page key v = (Inr Success, set_page t i ?q)"
    using q S(1) i p(4)
    by (auto simp: handle_try_put_def guard_try_put_def handle_ref_def set_page_def tx_page_def split: sum.splits prod.splits)
  then show thesis by (rule that) (use L h S(1) q in auto)
qed

lemma try_put_with_promotion_spec:
  assumes l: "locked t page p dp" and key: "prefix (node_prefix p) key" and fits: "put_fits p key v"
  obtains t' q where "try_put_with_promotion t page key v = (Inr Success, t')" "locked t' page q dp" "keeps t t'"
    "full_records q = upsert key v (full_records p)" "fence_bounds q = fence_bounds p" "node_prefix q = node_prefix p"
    "\<exists>p0 r. p0 \<in> {p, mark_page_hot p} \<and> try_put p0 key v = (Inr (), r) \<and> q = mark_page_hot r"
proof -
  have wf: "leaf_wf p" by (rule lockedD(1)[OF l])
  show thesis
    using l
  proof (cases rule: locked_ref)
    case (mini i)
    obtain t' q where Q: "handle_try_put t page key v = (Inr Success, t')" "locked t' page q dp" "keeps t t'"
      "full_records q = upsert key v (full_records p)" "fence_bounds q = fence_bounds p" "node_prefix q = node_prefix p"
      "\<exists>r. try_put p key v = (Inr (), r) \<and> q = mark_page_hot r"
      by (rule handle_try_put_spec[OF l mini key fits])
    have e: "try_put_with_promotion t page key v = (Inr Success, t')" using Q(1) by (subst try_put_with_promotion.simps) simp
    show thesis by (rule that[OF e Q(2-6)]) (use Q(7) in auto)
  next
    case (leaf a)
    have np: "handle_try_put t page key v = (Inr (NeedsPromotion a), t)"
      using leaf by (auto simp: handle_try_put_def guard_try_put_def handle_ref_def set_cache_def split: sum.splits prod.splits)
    obtain t1 i where P: "promote_leaf_to_mini_page t page a = (Inr (), t1)" "locked t1 page (mark_page_hot p) dp" "keeps t t1"
      "handle_ref t1 page = Inr (MiniPage i)"
      by (rule promote_spec[OF l leaf])
    have kf: "prefix (node_prefix (mark_page_hot p)) key" "put_fits (mark_page_hot p) key v"
      using key fits mark_page_hot_leaf[OF wf] mark_page_hot_fits[OF wf] by simp_all
    obtain t' q where Q: "handle_try_put t1 page key v = (Inr Success, t')" "locked t' page q dp" "keeps t1 t'"
      "full_records q = upsert key v (full_records (mark_page_hot p))" "fence_bounds q = fence_bounds (mark_page_hot p)"
      "node_prefix q = node_prefix (mark_page_hot p)" "\<exists>r. try_put (mark_page_hot p) key v = (Inr (), r) \<and> q = mark_page_hot r"
      by (rule handle_try_put_spec[OF P(2,4) kf])
    have "try_put_with_promotion t1 page key v = (Inr Success, t')" using Q(1) by (subst try_put_with_promotion.simps) simp
    with np P(1) have e: "try_put_with_promotion t page key v = (Inr Success, t')" by (subst try_put_with_promotion.simps) simp
    show thesis by (rule that[OF e Q(2) keeps_trans[OF P(3) Q(3)]]) (use Q(4-7) mark_page_hot_leaf[OF wf] in auto)
  qed
qed

lemma existing_value_spec:
  assumes "locked t page p dp" and "prefix (node_prefix p) key"
  shows "existing_value t page key = Inr (map_of (full_records p) key)"
proof -
  obtain r where r: "handle_ref t page = Inr r" by (rule locked_ref[OF assms(1)])
  from lockedD(4)[OF assms(1) r] r node_get_spec[OF lockedD(1)[OF assms(1)] assms(2)] show ?thesis
    by (simp add: existing_value_def)
qed

lemma leaf_snapshot_spec:
  assumes l: "locked t page p dp" and "fence_bounds p = Inr (lo, hi)"
  obtains a where "leaf_snapshot t page = Inr (a, lo, hi)"
  using l
proof (cases rule: locked_ref)
  case (mini i)
  with lockedD(5)[OF l mini] assms(2) show thesis by (intro that) (simp add: leaf_snapshot_def)
next
  case (leaf a)
  with lockedD(1,4)[OF l] assms(2) show thesis
    by (intro that) (simp add: leaf_snapshot_def page_of_ref_def collect_fence_keys_wf)
qed

section \<open>The log\<close>

definition log_bytes :: "WalRecord list \<Rightarrow> nat" where
  "log_bytes rs = sum_list (map (\<lambda>r. group_bytes (wal_page_id r, [r])) rs)"

text \<open>The log of \<open>w'\<close> is that of \<open>w\<close> with some records appended, and so are its counters.\<close>

definition log_ext :: "WalState \<Rightarrow> WalRecord list \<Rightarrow> WalState \<Rightarrow> bool" where
  "log_ext w rs w' \<longleftrightarrow> wal_records w' = wal_records w @ rs \<and> total_records w' = total_records w + length rs \<and>
    total_bytes w' = total_bytes w + log_bytes rs \<and>
    (\<forall>p. stat_count (stats_of (leaf_counts w') p) = stat_count (stats_of (leaf_counts w) p) + page_count p rs) \<and>
    fst ` set (leaf_counts w') = fst ` set (leaf_counts w) \<union> wal_page_id ` set rs"

lemma log_ext_Nil: "log_ext w [] w"
  by (simp add: log_ext_def log_bytes_def page_count_def)

lemma log_ext_append: "log_ext w rs w' \<Longrightarrow> log_ext w' rs' w'' \<Longrightarrow> log_ext w (rs @ rs') w''"
  by (auto simp: log_ext_def log_bytes_def page_count_def)

lemma append_record_ext: obtains w' where "append_record w r = (Inr (), w')" "log_ext w [r] w'"
  by (rule append_record_spec[of w r]) (auto simp: log_ext_def log_bytes_def page_count_def)

text \<open>
  What a successful operation of a transaction changes: the locks, the page table, the cache, and
  the log and the undo log, to which it appends.
\<close>

definition logs :: "Tx \<Rightarrow> WalRecord list \<Rightarrow> UndoAction list \<Rightarrow> Tx \<Rightarrow> bool" where
  "logs t rs us t' \<longleftrightarrow> (\<exists>lm mt c w.
    t' = t\<lparr>lock_manager := lm, tx_db := (tx_db t)\<lparr>map_table := mt, cache := c, wal := w\<rparr>, undo_log := undo_log t @ us\<rparr> \<and>
    log_ext (wal (tx_db t)) rs w)"

lemma keeps_logs: "keeps t t' \<Longrightarrow> logs t [] [] t'"
proof -
  assume "keeps t t'"
  then obtain lm mt c where t': "t' = t\<lparr>lock_manager := lm, tx_db := (tx_db t)\<lparr>map_table := mt, cache := c\<rparr>\<rparr>"
    by (auto simp: keeps_def)
  show ?thesis unfolding logs_def
    by (rule exI[of _ lm], rule exI[of _ mt], rule exI[of _ c], rule exI[of _ "wal (tx_db t)"]) (simp add: t' log_ext_Nil)
qed

lemma logs_trans:
  assumes "logs t rs us t'" and "logs t' rs' us' t''"
  shows "logs t (rs @ rs') (us @ us') t''"
proof -
  obtain lm mt c w where 1: "t' = t\<lparr>lock_manager := lm, tx_db := (tx_db t)\<lparr>map_table := mt, cache := c, wal := w\<rparr>, undo_log := undo_log t @ us\<rparr>"
    "log_ext (wal (tx_db t)) rs w" using assms(1) by (auto simp: logs_def)
  obtain lm' mt' c' w' where 2: "t'' = t'\<lparr>lock_manager := lm', tx_db := (tx_db t')\<lparr>map_table := mt', cache := c', wal := w'\<rparr>, undo_log := undo_log t' @ us'\<rparr>"
    "log_ext (wal (tx_db t')) rs' w'" using assms(2) by (auto simp: logs_def)
  have "log_ext (wal (tx_db t)) (rs @ rs') w'" using log_ext_append[OF 1(2)] 2(2) by (simp add: 1(1))
  then show ?thesis unfolding logs_def
    by (intro exI[of _ lm'] exI[of _ mt'] exI[of _ c'] exI[of _ w']) (simp add: 2(1) 1(1))
qed

lemma logs_keeps: "logs t rs us t' \<Longrightarrow> keeps t' t'' \<Longrightarrow> logs t rs us t''"
  using logs_trans[OF _ keeps_logs] by fastforce

lemma keeps_logs_trans: "keeps t t' \<Longrightarrow> logs t' rs us t'' \<Longrightarrow> logs t rs us t''"
  using logs_trans[OF keeps_logs] by fastforce

lemma logsD:
  assumes "logs t rs us t'"
  shows "log_ext (wal (tx_db t)) rs (wal (tx_db t'))" "inner_nodes (tx_db t') = inner_nodes (tx_db t)"
    "undo_log t' = undo_log t @ us" "txn_id t' = txn_id t" "wal_entry_kind t' = wal_entry_kind t" "tx_state t' = tx_state t"
    "wal_leaf_checkpoint_threshold (tx_db t') = wal_leaf_checkpoint_threshold (tx_db t)"
    "wal_global_record_threshold (tx_db t') = wal_global_record_threshold (tx_db t)"
    "wal_global_byte_threshold (tx_db t') = wal_global_byte_threshold (tx_db t)"
    "wal_checkpoint_requested (tx_db t') = wal_checkpoint_requested (tx_db t)" "io_engine (tx_db t') = io_engine (tx_db t)"
  using assms by (auto simp: logs_def)

text \<open>No checkpoint is due when \<open>n\<close> records of the page with \<open>b\<close> bytes are added to the log.\<close>

definition quiet :: "Tx \<Rightarrow> u64 \<Rightarrow> nat \<Rightarrow> nat \<Rightarrow> bool" where
  "quiet t page n b \<longleftrightarrow>
    stat_count (stats_of (leaf_counts (wal (tx_db t))) page) + n < wal_leaf_checkpoint_threshold (tx_db t) \<and>
    total_records (wal (tx_db t)) + n < wal_global_record_threshold (tx_db t) \<and>
    total_bytes (wal (tx_db t)) + b < wal_global_byte_threshold (tx_db t) \<and> \<not> wal_checkpoint_requested (tx_db t)"

lemma quiet_logs:
  assumes "quiet t page (n + m) (b + c)" and "logs t rs us t'" and "length rs = n" and "log_bytes rs = b"
    and "\<forall>r \<in> set rs. wal_page_id r = page"
  shows "quiet t' page m c"
proof -
  have "page_count page rs = length rs" using assms(5) by (simp add: page_count_def filter_id_conv[THEN iffD2])
  with assms logsD[OF assms(2)] show ?thesis by (simp add: quiet_def log_ext_def)
qed

definition leaf_quiet :: "Tx \<Rightarrow> u64 \<Rightarrow> nat \<Rightarrow> bool" where
  "leaf_quiet t page n \<longleftrightarrow>
    stat_count (stats_of (leaf_counts (wal (tx_db t))) page) + n < wal_leaf_checkpoint_threshold (tx_db t)"

lemma quiet_leaf: "quiet t page n b \<Longrightarrow> leaf_quiet t page n"
  by (simp add: quiet_def leaf_quiet_def)

lemma leaf_quiet_logs:
  assumes "leaf_quiet t page (n + m)" and "logs t rs us t'" and "length rs = n"
  shows "leaf_quiet t' page m"
proof -
  have "page_count page rs \<le> length rs" by (simp add: page_count_def)
  with assms logsD[OF assms(2)] show ?thesis by (simp add: leaf_quiet_def log_ext_def)
qed

lemma quiet_checkpoints:
  shows "leaf_quiet t page 0 \<Longrightarrow> maybe_checkpoint_leaf t h page = (Inr (), t)"
    and "quiet t page 0 0 \<Longrightarrow> maybe_global_checkpoint t = (Inr (), t)"
proof -
  assume "leaf_quiet t page 0"
  then have "\<not> should_checkpoint_page (wal (tx_db t)) page (wal_leaf_checkpoint_threshold (tx_db t))"
    by (auto simp: leaf_quiet_def should_checkpoint_page_def stats_of_def split: option.splits)
  then show "maybe_checkpoint_leaf t h page = (Inr (), t)" by (simp add: maybe_checkpoint_leaf_def)
next
  assume "quiet t page 0 0"
  then show "maybe_global_checkpoint t = (Inr (), t)"
    by (simp add: quiet_def maybe_global_checkpoint_def checkpoint_candidate_def global_checkpoint_candidate_def)
qed

text \<open>The records and the undo action of a put.\<close>

definition log_rec :: "u64 \<Rightarrow> bytes \<Rightarrow> bytes \<times> bytes \<Rightarrow> WalEntryKind \<Rightarrow> u64 \<Rightarrow> WalOp \<Rightarrow> WalRecord" where
  "log_rec page key fences kind txn op = \<lparr>wal_page_id = page, wal_key = key, wal_lower_fence = fst fences,
    wal_upper_fence = snd fences, wal_kind = kind, wal_txn_id = txn, wal_op = op\<rparr>"

definition undo_op :: "bytes option \<Rightarrow> WalOp" where
  "undo_op old = (case old of Some v \<Rightarrow> Put v | None \<Rightarrow> Tombstone)"

definition put_log :: "Tx \<Rightarrow> u64 \<Rightarrow> bytes \<times> bytes \<Rightarrow> bytes \<Rightarrow> bytes \<Rightarrow> bytes option \<Rightarrow> WalRecord list" where
  "put_log t page fences key v old =
    [log_rec page key fences (wal_entry_kind t) (txn_id t) (Put v), log_rec page key fences Undo (txn_id t) (undo_op old)]"

definition put_undo :: "u64 \<Rightarrow> bytes \<Rightarrow> bytes option \<Rightarrow> UndoAction" where
  "put_undo page key old = (case old of Some v \<Rightarrow> UndoRestore page key v | None \<Rightarrow> UndoRemove page key)"

lemma put_log_page: "\<forall>r \<in> set (put_log t page fences key v old). wal_page_id r = page" "length (put_log t page fences key v old) = 2"
  by (simp_all add: put_log_def log_rec_def)

text \<open>Changes of the transaction that do not touch its page.\<close>

lemma locked_other:
  assumes "locked t page p dp" and "lock_manager t' = lock_manager t" and "map_table (tx_db t') = map_table (tx_db t)"
    and "cache (tx_db t') = cache (tx_db t)" and "io_engine (tx_db t') = io_engine (tx_db t)"
  shows "locked t' page p dp"
  using assms by (simp add: locked_def page_data_def page_of_ref_def cong: NodeRef.case_cong)

lemma with_wal_append:
  assumes l: "locked t page p dp"
  obtains t' where "with_wal t (\<lambda>w. append_record w r) = (Inr (), t')" "locked t' page p dp" "logs t [r] [] t'"
proof -
  obtain w where w: "append_record (wal (tx_db t)) r = (Inr (), w)" "log_ext (wal (tx_db t)) [r] w" by (rule append_record_ext)
  let ?t = "t\<lparr>tx_db := (tx_db t)\<lparr>wal := w\<rparr>\<rparr>"
  show thesis
  proof (rule that[of ?t])
    show "with_wal t (\<lambda>w. append_record w r) = (Inr (), ?t)" using w(1) by (simp add: with_wal_def)
    show "locked ?t page p dp" by (rule locked_other[OF l]) simp_all
    show "logs t [r] [] ?t" unfolding logs_def
      by (intro exI[of _ "lock_manager t"] exI[of _ "map_table (tx_db t)"] exI[of _ "cache (tx_db t)"] exI[of _ w]) (simp add: w(2))
  qed
qed

lemma append_wal_put_spec:
  assumes l: "locked t page p dp" and f: "fence_bounds p = Inr fences"
    and q: "leaf_quiet t page 2"
  obtains t' where "append_wal_put t page key v old = (Inr (), t')" "locked t' page p dp"
    "logs t (put_log t page fences key v old) [put_undo page key old] t'"
proof -
  obtain lo hi where fs: "fences = (lo, hi)" by fastforce
  obtain a where a: "leaf_snapshot t page = Inr (a, lo, hi)" by (rule leaf_snapshot_spec[OF l]) (use f fs in simp_all)
  let ?r1 = "log_rec page key fences (wal_entry_kind t) (txn_id t) (Put v)" and ?r2 = "log_rec page key fences Undo (txn_id t) (undo_op old)"
  obtain t1 where t1: "with_wal t (\<lambda>w. append_record w ?r1) = (Inr (), t1)" "locked t1 page p dp" "logs t [?r1] [] t1"
    by (rule with_wal_append[OF l])
  obtain t2 where t2: "with_wal t1 (\<lambda>w. append_record w ?r2) = (Inr (), t2)" "locked t2 page p dp" "logs t1 [?r2] [] t2"
    by (rule with_wal_append[OF t1(2)])
  note D = logsD[OF t1(3)]
  let ?t = "log_put_undo t2 page key old"
  have t3: "?t = t2\<lparr>undo_log := undo_log t2 @ [put_undo page key old]\<rparr>"
    by (simp add: log_put_undo_def put_undo_def split: option.split)
  have l3: "locked ?t page p dp" by (rule locked_other[OF t2(2)]) (simp_all add: t3)
  have "logs t2 [] [put_undo page key old] ?t" unfolding logs_def t3
    by (intro exI[of _ "lock_manager t2"] exI[of _ "map_table (tx_db t2)"] exI[of _ "cache (tx_db t2)"] exI[of _ "wal (tx_db t2)"])
      (simp add: log_ext_Nil)
  from logs_trans[OF logs_trans[OF t1(3) t2(3)] this] have g: "logs t (put_log t page fences key v old) [put_undo page key old] ?t"
    by (simp add: put_log_def)
  have "leaf_quiet t page (2 + 0)" using q by simp
  from leaf_quiet_logs[OF this g] have "leaf_quiet ?t page 0" using put_log_page(2) by blast
  then have "append_wal_put t page key v old = (Inr (), ?t)"
    using a t1(1) t2(1) D quiet_checkpoints(1)
    by (simp add: append_wal_put_def append_put_def append_tombstone_def log_rec_def fs undo_op_def split: option.split_asm)
  then show thesis using l3 g by (rule that)
qed

section \<open>Put and get\<close>

text \<open>A database whose root is the leaf \<open>page\<close>.\<close>

definition leaf_root :: "Tx \<Rightarrow> u64 \<Rightarrow> bool" where
  "leaf_root t page \<longleftrightarrow> get_root (inner_nodes (tx_db t)) = RootLeaf page \<and>
    \<not> is_locked_or_obsolete (root_vlock (inner_nodes (tx_db t)))"

lemma leaf_root_traverse:
  assumes "leaf_root t page"
  shows "read_traverse_leaf (inner_nodes (tx_db t)) key =
    Inr \<lparr>read_page = page, overflow_point = PointRoot, underflow_point = PointRoot\<rparr>"
proof -
  obtain n where n: "SPIN_RETRIES = Suc n" using that[of 13] by (simp add: SPIN_RETRIES_eq)
  have "try_read_traverse_leaf (inner_nodes (tx_db t)) key =
      Inr \<lparr>read_page = page, overflow_point = PointRoot, underflow_point = PointRoot\<rparr>"
    using assms by (simp add: leaf_root_def try_read_traverse_leaf_def read_root_def)
  then show ?thesis by (simp add: read_traverse_leaf_def n)
qed

lemma leaf_root_logs: "leaf_root t page \<Longrightarrow> logs t rs us t' \<Longrightarrow> leaf_root t' page"
  using logsD(2) by (simp add: leaf_root_def)

text \<open>A put up to the point where the global checkpoint may run.\<close>

lemma tx_put_until_checkpoint:
  assumes r: "leaf_root t page" and v: "tx_view t page p dp" and f: "fence_bounds p = Inr fences"
    and key: "prefix (node_prefix p) key" and fits: "put_fits p key val" and q: "leaf_quiet t page 2"
  obtains t' q where "tx_put t key val = Some (release page (maybe_global_checkpoint t'))" "locked t' page q dp"
    "full_records q = upsert key val (full_records p)" "fence_bounds q = fence_bounds p" "node_prefix q = node_prefix p"
    "logs t (put_log t page fences key val (map_of (full_records p) key)) [put_undo page key (map_of (full_records p) key)] t'"
    "\<exists>p0 r. p0 \<in> {p, mark_page_hot p} \<and> try_put p0 key val = (Inr (), r) \<and> q = mark_page_hot r"
proof -
  let ?old = "map_of (full_records p) key"
  let ?log = "\<lambda>t. put_log t page fences key val ?old"
  obtain t1 where 1: "acquire_write t page = (Inr page, t1)" "locked t1 page p dp" "keeps t t1"
    by (rule acquire_view[OF v])
  have ev: "existing_value t1 page key = Inr ?old" by (rule existing_value_spec[OF 1(2) key])
  obtain t2 q where 2: "try_put_with_promotion t1 page key val = (Inr Success, t2)" "locked t2 page q dp" "keeps t1 t2"
    "full_records q = upsert key val (full_records p)" "fence_bounds q = fence_bounds p" "node_prefix q = node_prefix p"
    "\<exists>p0 r. p0 \<in> {p, mark_page_hot p} \<and> try_put p0 key val = (Inr (), r) \<and> q = mark_page_hot r"
    by (rule try_put_with_promotion_spec[OF 1(2) key fits])
  have k: "keeps t t2" by (rule keeps_trans[OF 1(3) 2(3)])
  note D = keepsD[OF k]
  have lg: "?log t2 = ?log t" by (simp add: put_log_def D)
  have "leaf_quiet t2 page 2" using q by (simp add: leaf_quiet_def D)
  then obtain t3 where 3: "append_wal_put t2 page key val ?old = (Inr (), t3)" "locked t3 page q dp"
    "logs t2 (?log t2) [put_undo page key ?old] t3"
    by (rule append_wal_put_spec[OF 2(2), rotated]) (use f 2(5) in simp_all)
  have g: "logs t (?log t) [put_undo page key ?old] t3" using keeps_logs_trans[OF k 3(3)] by (simp add: lg)
  have "put_loop t1 page key val ?old = Some (release page (maybe_global_checkpoint t3))"
    by (subst put_loop.simps) (simp add: 2(1) 3(1))
  then have "tx_put t key val = Some (release page (maybe_global_checkpoint t3))"
    by (simp add: tx_put_def leaf_root_traverse[OF r] 1(1) ev)
  then show thesis by (rule that[OF _ 3(2) 2(4-6) g 2(7)])
qed

lemma tx_put_spec:
  assumes r: "leaf_root t page" and v: "tx_view t page p dp" and f: "fence_bounds p = Inr fences"
    and key: "prefix (node_prefix p) key" and fits: "put_fits p key val"
    and q: "quiet t page 2 (log_bytes (put_log t page fences key val (map_of (full_records p) key)))"
  obtains t' q where "tx_put t key val = Some (Inr (), t')" "tx_view t' page q dp"
    "full_records q = upsert key val (full_records p)" "fence_bounds q = fence_bounds p" "node_prefix q = node_prefix p"
    "logs t (put_log t page fences key val (map_of (full_records p) key)) [put_undo page key (map_of (full_records p) key)] t'"
    "\<exists>p0 r. p0 \<in> {p, mark_page_hot p} \<and> try_put p0 key val = (Inr (), r) \<and> q = mark_page_hot r"
proof -
  let ?old = "map_of (full_records p) key"
  let ?log = "put_log t page fences key val ?old"
  obtain t3 q where 3: "tx_put t key val = Some (release page (maybe_global_checkpoint t3))" "locked t3 page q dp"
    "full_records q = upsert key val (full_records p)" "fence_bounds q = fence_bounds p" "node_prefix q = node_prefix p"
    "logs t ?log [put_undo page key ?old] t3"
    "\<exists>p0 r. p0 \<in> {p, mark_page_hot p} \<and> try_put p0 key val = (Inr (), r) \<and> q = mark_page_hot r"
    by (rule tx_put_until_checkpoint[OF r v f key fits quiet_leaf[OF q]])
  have "quiet t page (2 + 0) (log_bytes ?log + 0)" using q by simp
  from quiet_logs[OF this 3(6)] have qt: "quiet t3 page 0 0" using put_log_page by blast
  obtain t4 where 4: "release page (Inr (), t3) = (Inr (), t4)" "tx_view t4 page q dp" "keeps t3 t4"
    by (rule release_view[OF 3(2)])
  have "tx_put t key val = Some (Inr (), t4)" by (simp add: 3(1) quiet_checkpoints(2)[OF qt] 4(1))
  then show thesis by (rule that[OF _ 4(2) 3(3-5) logs_keeps[OF 3(6) 4(3)] 3(7)])
qed

text \<open>A lookup on the page of a guard: in the page and then in the leaf on disk.\<close>

lemma PageGuard_get_spec:
  assumes d: "page_data d r (guard_leaf g) p dp" and g: "guard_node (guard_inner g) = r" and key: "prefix (node_prefix p) key"
  obtains g' where "PageGuard_get (cache d) (io_engine d) g key = (Inr (map_of (full_records p) key), g')"
    "guard_inner g' = guard_inner g" "page_data d r (guard_leaf g') p dp"
proof -
  note D = page_dataD(1-8)[OF d]
  have disk: "get_on_disk g (io_engine d) (NodeMeta_leaf (node_header p)) key =
      (Inr (map_of (full_records dp) key), g\<lparr>guard_leaf := Some dp\<rparr>)"
    using D(4,8) node_get_spec[OF D(5)] key D(6) by (auto simp: get_on_disk_def ensure_page_def)
  have pd: "page_data d r (Some dp) p dp" using d by (simp add: page_data_def)
  show thesis
  proof (cases r)
    case (Leaf a)
    with page_dataD(9)[OF d Leaf] have "a = NodeMeta_leaf (node_header p)" "dp = p" by simp_all
    with disk Leaf g pd show thesis by (intro that[of "g\<lparr>guard_leaf := Some dp\<rparr>"]) (simp_all add: PageGuard_get_def)
  next
    case (MiniPage i)
    with page_dataD(10)[OF d MiniPage] have p: "get_meta_ref (cache d) i = p" by simp
    obtain k where k: "key = node_prefix p @ k" using key by (auto simp: prefix_def)
    show thesis
    proof (cases "leaf_binary_search p k")
      case (Inl l)
      have "map_of (full_records p) key = None"
        using leaf_search_map(2)[OF D(2) Inl] by (simp add: k full_records_def map_of_prefix)
      moreover from this have "map_of (full_records dp) key = None"
        using D(7) by (auto simp: map_of_eq_None_iff)
      ultimately show thesis using disk MiniPage g pd p Inl
        by (intro that[of "g\<lparr>guard_leaf := Some dp\<rparr>"]) (simp_all add: PageGuard_get_def get_node_prefix_eq[OF D(2)] k)
    next
      case (Inr m)
      have "map_of (full_records p) key = Some (stored_val p m)"
        using leaf_search_map(1)[OF D(2) Inr] by (simp add: k full_records_def map_of_prefix)
      moreover have "KVRecordType_exists ty" for ty by (cases ty) (simp_all add: KVRecordType_exists_def)
      ultimately show thesis using MiniPage g p Inr d
        by (intro that[of g]) (simp_all add: PageGuard_get_def get_node_prefix_eq[OF D(2)] k stored_val_def)
    qed
  qed
qed

lemma tx_get_spec:
  assumes r: "leaf_root t page" and v: "tx_view t page p dp" and key: "prefix (node_prefix p) key"
  obtains t' where "tx_get t key = (Inr (map_of (full_records p) key), t')" "tx_view t' page p dp" "keeps t t'"
proof -
  let ?mt = "map_table (tx_db t)" and ?lm = "lock_manager t" and ?d = "tx_db t"
  let ?w = "get_entry ?mt (unat page)"
  have c: "unat page < MapTable_capacity ?mt" using v by (simp add: tx_view_def)
  show thesis
  proof (cases "get_slot ?lm page")
    case None
    then have e: "entry_free ?w" "page_data ?d (PageEntry_get_ref ?w) None p dp"
      using v by (simp_all add: tx_view_def Let_def)
    let ?g = "\<lparr>guard_inner = Read page ?w, guard_leaf = None\<rparr>"
    let ?mt' = "set_entry ?mt (unat page) (PageEntry_set_state ?w 1)"
    have a: "get_or_acquire_read_lock ?lm ?mt page = (Inr ?g, set_slot ?lm page (LockSlot_new ?g), ?mt')"
      using None read_drop_same(1)[OF c e(1)] by (simp add: get_or_acquire_read_lock_def insert_slot_def)
    obtain g' where g': "PageGuard_get (cache ?d) (io_engine ?d) ?g key = (Inr (map_of (full_records p) key), g')"
      "guard_inner g' = Read page ?w" "page_data ?d (PageEntry_get_ref ?w) (guard_leaf g') p dp"
      by (rule PageGuard_get_spec[of ?d "PageEntry_get_ref ?w" ?g p dp key]) (use e(2) key in simp_all)
    let ?t = "t\<lparr>lock_manager := set_slot ?lm page ((LockSlot_new ?g)\<lparr>slot_guard := g'\<rparr>), tx_db := ?d\<lparr>map_table := ?mt'\<rparr>\<rparr>"
    show thesis
    proof (rule that[of ?t])
      show "tx_get t key = (Inr (map_of (full_records p) key), ?t)"
        using c a g'(1) by (simp add: tx_get_def leaf_root_traverse[OF r])
      show "tx_view ?t page p dp"
        using c g'(2,3) by (simp add: tx_view_def LockSlot_new_def get_entry_set_entry)
      show "keeps t ?t" unfolding keeps_def by (intro exI[of _ "lock_manager ?t"] exI[of _ ?mt'] exI[of _ "cache ?d"]) simp
    qed
  next
    case (Some s)
    have d: "guard_page_id (guard_inner (slot_guard s)) = page"
      "page_data ?d (guard_node (guard_inner (slot_guard s))) (guard_leaf (slot_guard s)) p dp"
      using v Some by (auto simp: tx_view_def Let_def split: GuardWrapper.splits)
    obtain g' where g': "PageGuard_get (cache ?d) (io_engine ?d) (slot_guard s) key = (Inr (map_of (full_records p) key), g')"
      "guard_inner g' = guard_inner (slot_guard s)" "page_data ?d (guard_node (guard_inner (slot_guard s))) (guard_leaf g') p dp"
      by (rule PageGuard_get_spec[OF d(2) refl key])
    let ?t = "t\<lparr>lock_manager := set_slot ?lm page (s\<lparr>slot_guard := g'\<rparr>)\<rparr>"
    show thesis
    proof (rule that[of ?t])
      show "tx_get t key = (Inr (map_of (full_records p) key), ?t)"
        using c Some g'(1) by (simp add: tx_get_def leaf_root_traverse[OF r] get_or_acquire_read_lock_def)
      show "tx_view ?t page p dp"
        using c Some v g'(2,3) by (auto simp: tx_view_def Let_def split: GuardWrapper.splits)
      show "keeps t ?t" unfolding keeps_def
        by (intro exI[of _ "lock_manager ?t"] exI[of _ ?mt] exI[of _ "cache ?d"]) simp
    qed
  qed
qed

end
