(* ===== verification/Tx_Undo.thy ===== *)
theory Tx_Undo
  imports Tx_Pages
begin

text \<open>
  lib.rs, the end of a transaction: roll-back of the puts of new keys, a client that puts a list of
  entries, commit, and what recovery makes of the records such a transaction has logged.
\<close>

section \<open>Roll-back\<close>

lemma mark_page_hot_stacked: "leaf_wf p \<Longrightarrow> stacked (mark_page_hot p) ks = stacked p ks"
proof -
  assume wf: "leaf_wf p"
  have rc: "NodeMeta_record_count (NodeMeta_mark_hot (node_header p)) = NodeMeta_record_count (node_header p)" by simp
  note R = set_header_records[OF wf rc, folded mark_page_hot_def]
  show ?thesis by (rule stacked_cong[OF R(1) mark_page_hot_leaf(4)[OF wf] R(5,4) leaf_wfD(2)[OF wf]])
qed

text \<open>
  A transaction that has put the keys \<open>ks\<close>, the last one first, none of which was in the page or is
  on disk: without them the page has the records \<open>base\<close>.
\<close>

definition fresh_puts :: "Tx \<Rightarrow> u64 \<Rightarrow> bytes \<Rightarrow> bytes \<Rightarrow> bytes list \<Rightarrow> (bytes \<times> bytes) list \<Rightarrow> bool" where
  "fresh_puts t page p dp ks base \<longleftrightarrow> tx_view t page p dp \<and> stacked p ks \<and>
    undo_log t = map (UndoRemove page) (rev ks) \<and> set ks \<inter> set (map fst (full_records dp)) = {} \<and>
    filter (\<lambda>(k, _). k \<notin> set ks) (full_records p) = base"

lemma undo_remove_spec:
  assumes v: "tx_view t page p dp" and st: "stacked p (key # ks)" and new: "key \<notin> set (map fst (full_records dp))"
  obtains t' q where "apply_undo_action t (UndoRemove page key) = (Inr (), t')" "tx_view t' page q dp" "keeps t t'"
    "full_records q = filter (\<lambda>(k, _). k \<noteq> key) (full_records p)" "stacked q ks"
    "fence_bounds q = fence_bounds p" "node_prefix q = node_prefix p"
proof -
  obtain t1 where 1: "acquire_write t page = (Inr page, t1)" "locked t1 page p dp" "keeps t t1"
    by (rule acquire_view[OF v])
  note wf = lockedD(1)[OF 1(2)]
  obtain t2 p2 i where 2: "ensure_mini_page t1 page = (Inr (), t2)" "locked t2 page p2 dp" "keeps t1 t2"
    "handle_ref t2 page = Inr (MiniPage i)" "p2 = p \<or> p2 = mark_page_hot p"
    by (rule ensure_mini_page_spec[OF 1(2)])
  note L2 = lockedD(1,2,3)[OF 2(2)] lockedD(5)[OF 2(2,4)]
  have p2: "full_records p2 = full_records p" "fence_bounds p2 = fence_bounds p" "node_prefix p2 = node_prefix p" "stacked p2 (key # ks)"
    using 2(5) st mark_page_hot_leaf(2-4)[OF wf] mark_page_hot_stacked[OF wf] by auto
  obtain q where q: "remove_key_physical p2 key = (Inr True, q)" "leaf_wf q"
    "full_records q = filter (\<lambda>(k, _). k \<noteq> key) (full_records p2)" "fence_bounds q = fence_bounds p2"
    "node_prefix q = node_prefix p2" "length q = length p2" "page_ident q = page_ident p2" "stacked q ks"
    by (rule stacked_remove[OF L2(1) p2(4)])
  have sub: "set (map fst (full_records dp)) \<subseteq> set (map fst (full_records q))" using L2(3) new by (force simp: q(3))
  have len: "length q = 4096" using q(6) L2(2) by simp
  note L = locked_set_page[OF 2(2,4) q(2) len page_identD(2)[OF q(7)] q(5) sub]
  obtain t4 where 4: "release page (Inr (), set_page t2 i q) = (Inr (), t4)" "tx_view t4 page q dp" "keeps (set_page t2 i q) t4"
    by (rule release_view[OF L(1)])
  have "apply_undo_action t (UndoRemove page key) = (Inr (), t4)"
    by (simp add: apply_undo_action_def 1(1) 2(1) mini_index_def 2(4) L2(4) q(1) 4(1))
  then show thesis
    by (rule that[OF _ 4(2) keeps_trans[OF keeps_trans[OF 1(3) 2(3)] keeps_trans[OF L(2) 4(3)]]]) (use q p2 in simp_all)
qed

lemma tx_viewD:
  assumes "tx_view t page p dp"
  shows "leaf_wf p" "set (map fst (full_records dp)) \<subseteq> set (map fst (full_records p))"
proof -
  obtain t' where "locked t' page p dp" by (rule acquire_view[OF assms])
  from lockedD(1,3)[OF this] show "leaf_wf p" "set (map fst (full_records dp)) \<subseteq> set (map fst (full_records p))" by simp_all
qed

lemma page_data_wal [simp]: "page_data (d\<lparr>wal := w\<rparr>) r l p dp = page_data d r l p dp"
  by (simp add: page_data_def page_of_ref_def split: NodeRef.split)

lemma tx_view_undo [simp]: "tx_view (t\<lparr>undo_log := us\<rparr>) page p dp = tx_view t page p dp"
  by (simp add: tx_view_def Let_def split: option.split GuardWrapper.split)

lemma tx_view_state [simp]: "tx_view (t\<lparr>tx_state := s\<rparr>) page p dp = tx_view t page p dp"
  by (simp add: tx_view_def Let_def split: option.split GuardWrapper.split)

lemma tx_view_wal [simp]: "tx_view (t\<lparr>tx_db := (tx_db t)\<lparr>wal := w\<rparr>\<rparr>) page p dp = tx_view t page p dp"
  by (simp add: tx_view_def Let_def split: option.split GuardWrapper.split)

lemma keeps_undo_trans: "keeps (t\<lparr>undo_log := us\<rparr>) t1 \<Longrightarrow> keeps (t1\<lparr>undo_log := us'\<rparr>) t2 \<Longrightarrow> keeps (t\<lparr>undo_log := us'\<rparr>) t2"
  by (auto simp: keeps_def) blast

lemma undo_all_spec:
  assumes "tx_view t page p dp" and "stacked p ks" and "set ks \<inter> set (map fst (full_records dp)) = {}"
  shows "\<exists>t' q. undo_all (map (UndoRemove page) ks) t = (Inr (), t') \<and> tx_view t' page q dp \<and>
    full_records q = filter (\<lambda>(k, _). k \<notin> set ks) (full_records p) \<and> keeps (t\<lparr>undo_log := undo_log t'\<rparr>) t' \<and>
    fence_bounds q = fence_bounds p \<and> node_prefix q = node_prefix p"
  using assms
proof (induction ks arbitrary: t p)
  case Nil
  show ?case using Nil.prems(1) by (intro exI[of _ t] exI[of _ p]) (simp add: keeps_refl)
next
  case (Cons key ks)
  let ?t = "t\<lparr>undo_log := rev (map (UndoRemove page) ks)\<rparr>"
  have v: "tx_view ?t page p dp" using Cons.prems(1) by simp
  have new: "key \<notin> set (map fst (full_records dp))" using Cons.prems(3) by simp
  obtain t1 q1 where 1: "apply_undo_action ?t (UndoRemove page key) = (Inr (), t1)" "tx_view t1 page q1 dp" "keeps ?t t1"
    "full_records q1 = filter (\<lambda>(k, _). k \<noteq> key) (full_records p)" "stacked q1 ks"
    "fence_bounds q1 = fence_bounds p" "node_prefix q1 = node_prefix p"
    by (rule undo_remove_spec[OF v Cons.prems(2) new])
  have "set ks \<inter> set (map fst (full_records dp)) = {}" using Cons.prems(3) by auto
  from Cons.IH[OF 1(2,5) this] obtain t2 q2 where 2: "undo_all (map (UndoRemove page) ks) t1 = (Inr (), t2)" "tx_view t2 page q2 dp"
    "full_records q2 = filter (\<lambda>(k, _). k \<notin> set ks) (full_records q1)" "keeps (t1\<lparr>undo_log := undo_log t2\<rparr>) t2"
    "fence_bounds q2 = fence_bounds q1" "node_prefix q2 = node_prefix q1"
    by blast
  have "full_records q2 = filter (\<lambda>(k, _). k \<notin> set (key # ks)) (full_records p)"
    unfolding 2(3) 1(4) filter_filter by (rule filter_cong) auto
  with 1 2 keeps_undo_trans[OF 1(3) 2(4)] show ?case by (intro exI[of _ t2] exI[of _ q2]) simp
qed

definition txn_marker :: "Tx \<Rightarrow> WalTxnMarker \<Rightarrow> WalRecord" where
  "txn_marker t m = \<lparr>wal_page_id = TXN_META_PAGE_ID, wal_key = [], wal_lower_fence = [], wal_upper_fence = [],
    wal_kind = wal_entry_kind t, wal_txn_id = txn_id t, wal_op = TxnMarker m\<rparr>"

lemma append_marker:
  obtains w where "with_wal t (\<lambda>w. append_txn_marker w m (wal_entry_kind t) (txn_id t)) = (Inr (), t\<lparr>tx_db := (tx_db t)\<lparr>wal := w\<rparr>\<rparr>)"
    "log_ext (wal (tx_db t)) [txn_marker t m] w"
proof -
  obtain w where "append_record (wal (tx_db t)) (txn_marker t m) = (Inr (), w)" "log_ext (wal (tx_db t)) [txn_marker t m] w"
    by (rule append_record_ext)
  then show thesis by (intro that) (simp_all add: with_wal_def append_txn_marker_def txn_marker_def)
qed

lemma abort_fresh:
  assumes f: "fresh_puts t page p dp ks base" and a: "tx_state t = TxActive"
  obtains t' q where "abort_in_place t = (Inr (), t')" "tx_view t' page q dp" "full_records q = base"
    "fence_bounds q = fence_bounds p" "node_prefix q = node_prefix p"
    "tx_state t' = TxAborted" "undo_log t' = []" "wal_records (wal (tx_db t')) = wal_records (wal (tx_db t)) @ [txn_marker t TxnAbort]"
proof -
  have u: "rev (undo_log t) = map (UndoRemove page) ks" using f by (simp add: fresh_puts_def rev_map)
  obtain t1 q where 1: "undo_all (map (UndoRemove page) ks) t = (Inr (), t1)" "tx_view t1 page q dp"
    "full_records q = base" "keeps (t\<lparr>undo_log := undo_log t1\<rparr>) t1" "fence_bounds q = fence_bounds p" "node_prefix q = node_prefix p"
    using undo_all_spec[of t page p dp ks] f by (auto simp: fresh_puts_def)
  note K = keepsD[OF 1(4), simplified]
  obtain w where w: "with_wal t1 (\<lambda>w. append_txn_marker w TxnAbort (wal_entry_kind t1) (txn_id t1)) = (Inr (), t1\<lparr>tx_db := (tx_db t1)\<lparr>wal := w\<rparr>\<rparr>)"
    "log_ext (wal (tx_db t1)) [txn_marker t1 TxnAbort] w"
    by (rule append_marker)
  have m: "txn_marker t1 TxnAbort = txn_marker t TxnAbort" by (simp add: txn_marker_def K)
  let ?t = "t1\<lparr>tx_db := (tx_db t1)\<lparr>wal := w\<rparr>, undo_log := [], tx_state := TxAborted\<rparr>"
  have "abort_in_place t = (Inr (), ?t)"
    using a 1(1) w(1) u by (simp add: abort_in_place_def apply_undo_actions_def expect_ok_def)
  then show thesis
    by (rule that[of ?t q]) (use 1 w(2) m K(1) in \<open>simp_all add: log_ext_def\<close>)
qed

text \<open>A client that puts the entries of a list and stops at the first failure.\<close>

fun put_run :: "(bytes \<times> bytes) list \<Rightarrow> Tx \<Rightarrow> (unit result \<times> Tx) option" where
  "put_run [] t = Some (Inr (), t)"
| "put_run ((k, v) # es) t =
    (case tx_put t k v of
       Some (Inr _, t) \<Rightarrow> put_run es t
     | r \<Rightarrow> r)"

definition run_log :: "Tx \<Rightarrow> u64 \<Rightarrow> bytes \<times> bytes \<Rightarrow> (bytes \<times> bytes) list \<Rightarrow> WalRecord list" where
  "run_log t page fences es = concat (map (\<lambda>(k, v). put_log t page fences k v None) es)"

text \<open>
  The entries of a list are for new keys of the page, all different, with at least one byte beside
  the prefix, and the page has room for them.
\<close>

definition fresh_entries :: "bytes \<Rightarrow> (bytes \<times> bytes) list \<Rightarrow> bool" where
  "fresh_entries p es \<longleftrightarrow> distinct (map fst es) \<and> leaf_space p (records_size es) \<and>
    list_all (\<lambda>(k, v). prefix (node_prefix p) k \<and> map_of (full_records p) k = None \<and> (k \<noteq> node_prefix p \<or> v \<noteq> [])) es"

lemma mark_page_hot_space: "leaf_wf p \<Longrightarrow> leaf_space (mark_page_hot p) n = leaf_space p n"
  by (simp add: leaf_space_def mark_page_hot_leaf(5,6) split: sum.split)

text \<open>A put of a new key on a page, which may be marked hot before and is marked hot afterwards.\<close>

lemma hot_put_fresh:
  assumes wf: "leaf_wf p" and st: "stacked p ks" and key: "prefix (node_prefix p) key" "map_of (full_records p) key = None"
      "key \<noteq> node_prefix p \<or> v \<noteq> []"
    and sp: "leaf_space p (8 + length key + length v + n)"
    and q: "\<exists>p0 r. p0 \<in> {p, mark_page_hot p} \<and> try_put p0 key v = (Inr (), r) \<and> q = mark_page_hot r"
  shows "stacked q (key # ks)" "leaf_space q n"
proof -
  obtain p0 s where s: "p0 \<in> {p, mark_page_hot p}" "try_put p0 key v = (Inr (), s)" "q = mark_page_hot s" using q by blast
  have p0: "leaf_wf p0" "node_prefix p0 = node_prefix p" "full_records p0 = full_records p" "stacked p0 ks" "leaf_space p0 n = leaf_space p n" for n
    using s(1) wf st mark_page_hot_leaf[OF wf] mark_page_hot_stacked[OF wf] mark_page_hot_space[OF wf] by auto
  have key0: "prefix (node_prefix p0) key" "map_of (full_records p0) key = None" "key \<noteq> node_prefix p0 \<or> v \<noteq> []"
    "leaf_space p0 (8 + length key + length v + n)"
    using key sp by (simp_all add: p0)
  note F0 = leaf_put_fresh[OF p0(1) key0(1,2,4)]
  have ws: "leaf_wf s" by (rule try_put_spec(2)[OF p0(1) key0(1) F0(1) s(2)])
  show "stacked q (key # ks)"
    using stacked_put[OF p0(1) key0(1) F0(1) key0(2,3) s(2) p0(4)] mark_page_hot_stacked[OF ws] s(3) by simp
  show "leaf_space q n" using F0(2)[OF s(2)] mark_page_hot_space[OF ws] s(3) by simp
qed

lemma filter_upsert_fresh:
  assumes "key_sorted es" and "map_of es key = None"
  shows "filter (\<lambda>(k, _). k \<notin> set (key # ks)) (upsert key v es) = filter (\<lambda>(k, _). k \<notin> set ks) es"
proof -
  have "filter (\<lambda>(k, _). k \<notin> set (key # ks)) (upsert key v es) =
      filter (\<lambda>(k, _). k \<notin> set ks) (filter (\<lambda>(k, _). k \<noteq> key) (upsert key v es))"
    unfolding filter_filter by (rule filter_cong) auto
  then show ?thesis by (simp only: upsert_filter[OF assms])
qed

lemma tx_put_fresh:
  assumes r: "leaf_root t page" and f: "fresh_puts t page p dp ks base" and fb: "fence_bounds p = Inr fences"
    and e: "fresh_entries p ((key, v) # es)"
    and q: "quiet t page (2 + n) (log_bytes (put_log t page fences key v None) + b)"
  obtains t' q where "tx_put t key v = Some (Inr (), t')" "fresh_puts t' page q dp (key # ks) base"
    "fence_bounds q = Inr fences" "fresh_entries q es" "full_records q = upsert key v (full_records p)"
    "logs t (put_log t page fences key v None) [UndoRemove page key] t'" "quiet t' page n b" "leaf_root t' page"
proof -
  have view: "tx_view t page p dp" and st: "stacked p ks" and ul: "undo_log t = map (UndoRemove page) (rev ks)"
    and ds: "set ks \<inter> set (map fst (full_records dp)) = {}" and bs: "filter (\<lambda>(k, _). k \<notin> set ks) (full_records p) = base"
    using f by (simp_all add: fresh_puts_def)
  note wf = tx_viewD(1)[OF view]
  have key: "prefix (node_prefix p) key" "map_of (full_records p) key = None" "key \<noteq> node_prefix p \<or> v \<noteq> []"
    and sp: "leaf_space p (8 + length key + length v + records_size es)"
    using e by (simp_all add: fresh_entries_def)
  note F = leaf_put_fresh[OF wf key(1,2) sp]
  have q2: "quiet t page 2 (log_bytes (put_log t page fences key v (map_of (full_records p) key)))"
    using q by (simp add: quiet_def key(2))
  obtain t' q where P: "tx_put t key v = Some (Inr (), t')" "tx_view t' page q dp"
    "full_records q = upsert key v (full_records p)" "fence_bounds q = fence_bounds p" "node_prefix q = node_prefix p"
    "logs t (put_log t page fences key v (map_of (full_records p) key)) [put_undo page key (map_of (full_records p) key)] t'"
    "\<exists>p0 r. p0 \<in> {p, mark_page_hot p} \<and> try_put p0 key v = (Inr (), r) \<and> q = mark_page_hot r"
    by (rule tx_put_spec[OF r view fb key(1) F(1) q2])
  note H = hot_put_fresh[OF wf st key sp P(7)]
  have lg: "logs t (put_log t page fences key v None) [UndoRemove page key] t'" using P(6) by (simp add: key(2) put_undo_def)
  have nk: "key \<notin> set (map fst (full_records p))" using key(2) by (simp add: map_of_eq_None_iff)
  have "filter (\<lambda>(k, _). k \<notin> set (key # ks)) (full_records q) = base"
    by (simp only: P(3) filter_upsert_fresh[OF full_records_sorted[OF wf] key(2)] bs)
  moreover have "key \<notin> set (map fst (full_records dp))" using nk tx_viewD(2)[OF view] by blast
  ultimately have fp: "fresh_puts t' page q dp (key # ks) base"
    using P(2) H(1) ds ul logsD(3)[OF lg] by (simp add: fresh_puts_def)
  have fe: "fresh_entries q es"
    using e H(2) by (fastforce simp: fresh_entries_def P(3,5) map_of_upsert list_all_iff image_iff)
  show thesis
    by (rule that[OF P(1) fp _ fe P(3) lg quiet_logs[OF q lg] leaf_root_logs[OF r lg]])
      (use P(4) fb put_log_page[of t page fences key v None] in simp_all)
qed

lemma put_run_fresh:
  assumes "leaf_root t page" and "fresh_puts t page p dp ks base" and "fence_bounds p = Inr fences"
    and "fresh_entries p es" and "quiet t page (2 * length es) (log_bytes (run_log t page fences es))"
  shows "\<exists>t' q. put_run es t = Some (Inr (), t') \<and> fresh_puts t' page q dp (rev (map fst es) @ ks) base \<and>
    full_records q = fold (\<lambda>(k, v). upsert k v) es (full_records p) \<and> leaf_root t' page \<and> fence_bounds q = Inr fences \<and>
    logs t (run_log t page fences es) (map (UndoRemove page) (map fst es)) t'"
  using assms
proof (induction es arbitrary: t p ks)
  case Nil
  then show ?case
    by (intro exI[of _ t] exI[of _ p]) (simp add: run_log_def keeps_logs[OF keeps_refl])
next
  case (Cons e es)
  obtain key v where e: "e = (key, v)" by (cases e)
  have q: "quiet t page (2 + 2 * length es) (log_bytes (put_log t page fences key v None) + log_bytes (run_log t page fences es))"
    using Cons.prems(5) by (simp add: e run_log_def log_bytes_def)
  obtain t1 q1 where 1: "tx_put t key v = Some (Inr (), t1)" "fresh_puts t1 page q1 dp (key # ks) base"
    "fence_bounds q1 = Inr fences" "fresh_entries q1 es" "full_records q1 = upsert key v (full_records p)"
    "logs t (put_log t page fences key v None) [UndoRemove page key] t1"
    "quiet t1 page (2 * length es) (log_bytes (run_log t page fences es))" "leaf_root t1 page"
    by (rule tx_put_fresh[OF Cons.prems(1-3) Cons.prems(4)[unfolded e] q])
  have rl: "run_log t1 page fences es = run_log t page fences es"
    using logsD(4,5)[OF 1(6)] by (simp add: run_log_def put_log_def)
  from Cons.IH[OF 1(8,2-4) 1(7)[folded rl]] obtain t' q where
    2: "put_run es t1 = Some (Inr (), t')" "fresh_puts t' page q dp (rev (map fst es) @ key # ks) base"
    "full_records q = fold (\<lambda>(k, v). upsert k v) es (full_records q1)" "leaf_root t' page" "fence_bounds q = Inr fences"
    "logs t1 (run_log t page fences es) (map (UndoRemove page) (map fst es)) t'"
    unfolding rl by blast
  have "logs t (run_log t page fences (e # es)) (map (UndoRemove page) (map fst (e # es))) t'"
    using logs_trans[OF 1(6) 2(6)] by (simp add: e run_log_def)
  with 1 2 show ?case by (intro exI[of _ t'] exI[of _ q]) (simp add: e)
qed

section \<open>Commit and recovery\<close>

lemma commit_spec:
  assumes "tx_view t page p dp" and "tx_state t = TxActive"
  obtains t' where "commit_in_place t = (Inr (), t')" "tx_view t' page p dp" "tx_state t' = TxCommitted" "undo_log t' = []"
    "wal_records (wal (tx_db t')) = wal_records (wal (tx_db t)) @ [txn_marker t TxnCommit]"
proof -
  obtain w where w: "with_wal t (\<lambda>w. append_txn_marker w TxnCommit (wal_entry_kind t) (txn_id t)) = (Inr (), t\<lparr>tx_db := (tx_db t)\<lparr>wal := w\<rparr>\<rparr>)"
    "log_ext (wal (tx_db t)) [txn_marker t TxnCommit] w"
    by (rule append_marker)
  let ?t = "t\<lparr>tx_db := (tx_db t)\<lparr>wal := w\<rparr>, undo_log := [], tx_state := TxCommitted\<rparr>"
  have "commit_in_place t = (Inr (), ?t)" using assms(2) w(1) by (simp add: commit_in_place_def)
  then show thesis by (rule that[of ?t]) (use assms(1) w(2) in \<open>simp_all add: log_ext_def\<close>)
qed

definition apply_log :: "(u64 \<times> TxStatus) list \<Rightarrow> WalRecord list \<Rightarrow> (bytes \<times> bytes) list \<Rightarrow> (bytes \<times> bytes) list" where
  "apply_log statuses rs es = fold (\<lambda>r es. apply_wal_op es (wal_key r) (wal_op r)) (filter (applies statuses) rs) es"

lemma apply_log_simps [simp]:
  "apply_log statuses [] es = es"
  "apply_log statuses (r # rs) es =
    apply_log statuses rs (if applies statuses r then apply_wal_op es (wal_key r) (wal_op r) else es)"
  "apply_log statuses (rs @ rs') es = apply_log statuses rs' (apply_log statuses rs es)"
  by (simp_all add: apply_log_def)

lemma apply_put_log:
  assumes "wal_entry_kind t = Redo"
  shows "map_of statuses (txn_id t) = Some StatusCommitted \<Longrightarrow>
      apply_log statuses (put_log t page fences k v old) es = upsert k v es"
    "map_of statuses (txn_id t) \<noteq> Some StatusCommitted \<Longrightarrow>
      apply_log statuses (put_log t page fences k v old) es = apply_wal_op es k (undo_op old)"
  using assms by (simp_all add: put_log_def log_rec_def applies_def apply_wal_op_def)

lemma apply_run_log:
  assumes "wal_entry_kind t = Redo"
  shows "map_of statuses (txn_id t) = Some StatusCommitted \<Longrightarrow>
      apply_log statuses (run_log t page fences es) base = fold (\<lambda>(k, v). upsert k v) es base"
    "map_of statuses (txn_id t) \<noteq> Some StatusCommitted \<Longrightarrow>
      apply_log statuses (run_log t page fences es) base = filter (\<lambda>(k, _). k \<notin> set (map fst es)) base"
proof -
  show "map_of statuses (txn_id t) = Some StatusCommitted \<Longrightarrow>
      apply_log statuses (run_log t page fences es) base = fold (\<lambda>(k, v). upsert k v) es base"
    by (induction es arbitrary: base) (auto simp: run_log_def apply_put_log[OF assms])
  show "map_of statuses (txn_id t) \<noteq> Some StatusCommitted \<Longrightarrow>
      apply_log statuses (run_log t page fences es) base = filter (\<lambda>(k, _). k \<notin> set (map fst es)) base"
  proof (induction es arbitrary: base)
    case (Cons e es)
    obtain k v where e: "e = (k, v)" by (cases e)
    show ?case
      using Cons.IH[OF Cons.prems] Cons.prems
      by (simp add: e run_log_def apply_put_log[OF assms] undo_op_def apply_wal_op_def)
        (rule filter_cong, auto)
  qed (simp add: run_log_def)
qed

lemma run_log_fences: "r \<in> set (run_log t page (lo, hi) es) \<Longrightarrow> wal_lower_fence r = lo \<and> wal_upper_fence r = hi"
  by (auto simp: run_log_def put_log_def log_rec_def)

text \<open>A page that is on disk only, as recovery finds it.\<close>

definition on_disk :: "Db \<Rightarrow> u64 \<Rightarrow> u64 \<Rightarrow> bytes \<Rightarrow> bool" where
  "on_disk d page addr p \<longleftrightarrow> unat page < MapTable_capacity (map_table d) \<and>
    get_entry (map_table d) (unat page) = PageEntry_leaf addr \<and> unat addr < 2 ^ 48 \<and>
    get_page (io_engine d) addr = Inr p \<and> leaf_wf p \<and> NodeMeta_size (node_header p) = Some LeafPage"

text \<open>Records that a leaf with these fences can hold.\<close>

definition leaf_holds :: "bytes \<times> bytes \<Rightarrow> (bytes \<times> bytes) list \<Rightarrow> bool" where
  "leaf_holds fences es \<longleftrightarrow> es \<noteq> [] \<and> list_all (\<lambda>(k, _). fst fences \<le> k \<and> k < snd fences) es \<and>
    32 + length (fst fences) + length (snd fences) + records_size es \<le> 4096"

lemma replay_apply_log:
  assumes d: "on_disk d page addr p" and f: "fence_bounds p = Inr fences"
    and rs: "\<And>r. r \<in> set rs \<Longrightarrow> wal_lower_fence r = fst fences \<and> wal_upper_fence r = snd fences"
    and h: "leaf_holds fences (apply_log statuses rs (full_records p))"
  obtains q io where "replay_page statuses (page, rs) d = (Inr (), d\<lparr>io_engine := io\<rparr>)" "get_page io addr = Inr q"
    "full_records q = apply_log statuses rs (full_records p)" "fence_bounds q = Inr fences"
proof -
  obtain lo hi where fs: "fences = (lo, hi)" by fastforce
  have "\<exists>q io. replay_page statuses (page, rs) d = (Inr (), d\<lparr>io_engine := io\<rparr>) \<and>
    get_page io addr = Inr q \<and> leaf_wf q \<and> full_records q = apply_log statuses rs (full_records p) \<and> fence_bounds q = Inr (lo, hi)"
    by (rule replay_page_fold[where lo = lo and hi = hi and p = p])
      (use d f rs h in \<open>auto simp: on_disk_def fs leaf_holds_def apply_log_def list_all_iff split_beta\<close>)
  with that fs show thesis by blast
qed

end
