(* ===== verification/Tx_Props.thy ===== *)
theory Tx_Props
  imports Tx_Undo
begin

text \<open>
  The properties of transactions: put, get, abort, commit followed by recovery, and the cases in
  which recovery and checkpoints go wrong.  The examples run on a new database.
\<close>

section \<open>A transaction on a new database\<close>

definition new_log :: File where
  "new_log = \<lparr>fbytes = manifest_buf WalManifest_new, fpos = 0\<rparr>"

lemma room_for_leaf_new:
  assumes "MiniPageBuffer_new 13 = Inr c"
  shows "room_for_leaf c"
proof -
  obtain b where b: "MiniPageBuffer_new 13 = Inr b" "buff_size b = 2 ^ (13 - 3)"
    "free_lists b = replicate 7 (- 1)" "buf_head b = 0" "buf_tail b = 0"
    using MiniPageBuffer_new_ok[of 13] by auto
  have l: "length (backing b) = 8192" using b(1) by (auto simp: MiniPageBuffer_new_def Let_def push_bit_eq_mult split: if_splits)
  have fl: "free_lists b ! NodeSize_index LeafPage = - 1" by (simp add: b)
  have "alloc b LeafPage = (Some 0, b\<lparr>buf_tail := 512\<rparr>)"
    unfolding alloc_no_freelist[OF fl] using b by (simp add: NodeSize_size_in_words_def)
  moreover have "b = c" using b(1) assms by simp
  ultimately show ?thesis using l by (simp add: room_for_leaf_def)
qed

lemma new_log_open:
  "wal_records (WalManager_open new_log) = []" "total_records (WalManager_open new_log) = 0"
  "total_bytes (WalManager_open new_log) = 32" "stat_count (stats_of (leaf_counts (WalManager_open new_log)) p) = 0"
proof -
  note R = open_rep[of new_log WalManifest_new "[]" "[]"]
  have r: "wal_rep (WalManager_open new_log) []" "total_bytes (WalManager_open new_log) = MANIFEST_LEN"
    using R by (simp_all add: new_log_def read_groups_Nil)
  then show "wal_records (WalManager_open new_log) = []" "total_records (WalManager_open new_log) = 0"
    "stat_count (stats_of (leaf_counts (WalManager_open new_log)) p) = 0" "total_bytes (WalManager_open new_log) = 32"
    by (auto simp: wal_rep_def stats_exact_def MANIFEST_LEN_def)
qed

lemma new_log_counts: "leaf_counts (WalManager_open new_log) = []"
  using open_parts[of new_log WalManifest_new "[]" "[]"] by (simp add: new_log_def read_groups_Nil)

lemma sample_tx:
  obtains d t where "QuickStep_new (\<lambda>_. None) [] [] [] new_log sample_config = Inr d" "tx_begin d = Inr t"
    "leaf_root t 0" "tx_view t 0 blank_leaf blank_leaf" "undo_log t = []" "tx_state t = TxActive" "wal_entry_kind t = Redo"
    "\<forall>n b. n \<le> 30 \<longrightarrow> b \<le> 524000 \<longrightarrow> quiet t 0 n b" "on_disk d 0 0 blank_leaf"
    "fst ` set (leaf_counts (wal (tx_db t))) \<subseteq> {TXN_META_PAGE_ID}"
proof -
  obtain d c where d: "QuickStep_new (\<lambda>_. None) [] [] [] new_log sample_config = Inr d"
    "get_page (io_engine d) 0 = Inr blank_leaf" "MapTable_capacity (map_table d) = 2"
    "get_entry (map_table d) 0 = PageEntry_leaf 0" "get_entry (map_table d) 1 = 0"
    "MiniPageBuffer_new 13 = Inr c" "cache d = c" "get_root (inner_nodes d) = RootLeaf 0" "root_vlock (inner_nodes d) = 0"
    "wal_checkpoint_requested d = False" "wal_leaf_checkpoint_threshold d = 32" "wal_global_record_threshold d = 1024"
    "wal_global_byte_threshold d = 524288" "wal_records (WalManager_open new_log) = [] \<longrightarrow> wal d = WalManager_open new_log"
    by (rule sample_open[of new_log])
  have wd: "wal d = WalManager_open new_log" using d(14) new_log_open(1) by simp
  let ?r = "\<lparr>wal_page_id = TXN_META_PAGE_ID, wal_key = [], wal_lower_fence = [], wal_upper_fence = [],
    wal_kind = Redo, wal_txn_id = next_txn_id d, wal_op = TxnMarker TxnBegin\<rparr>"
  obtain w where w: "append_record (wal d) ?r = (Inr (), w)" "log_ext (wal d) [?r] w" by (rule append_record_ext)
  let ?t = "\<lparr>tx_db = d\<lparr>next_txn_id := next_txn_id d + 1, wal := w\<rparr>, lock_manager = LockManager_new, txn_id = next_txn_id d,
    wal_entry_kind = Redo, undo_log = [], tx_state = TxActive\<rparr>"
  have b: "tx_begin d = Inr ?t" using w(1) by (simp add: tx_begin_def append_txn_marker_def Let_def)
  have slot: "get_slot LockManager_new 0 = None" by (simp add: LockManager_new_def get_slot_def)
  have free: "entry_free (PageEntry_leaf 0)" by (simp add: entry_free_def)
  have pd: "page_data (tx_db ?t) (PageEntry_get_ref (PageEntry_leaf 0)) None blank_leaf blank_leaf"
    using d(2,7) room_for_leaf_new[OF d(6)] by (simp add: page_data_def page_of_ref_def blank_leaf_facts)
  show thesis
  proof (rule that[OF d(1) b])
    show "leaf_root ?t 0" using d(8,9) by (simp add: leaf_root_def is_locked_or_obsolete_def)
    show "tx_view ?t 0 blank_leaf blank_leaf" using d(3,4) slot free pd by (simp add: tx_view_def)
    show "\<forall>n b. n \<le> 30 \<longrightarrow> b \<le> 524000 \<longrightarrow> quiet ?t 0 n b"
      using d(10-13) w(2) by (simp add: quiet_def log_ext_def wd new_log_open TXN_META_PAGE_ID_def page_count_def
          log_bytes_def group_bytes_def record_size_def GROUP_HEADER_LEN_def)
    show "fst ` set (leaf_counts (wal (tx_db ?t))) \<subseteq> {TXN_META_PAGE_ID}"
      using w(2) by (simp add: log_ext_def wd new_log_counts)
    show "on_disk d 0 0 blank_leaf" using d(2-4) by (simp add: on_disk_def blank_leaf_facts)
  qed simp_all
qed

section \<open>Properties\<close>

text \<open>C1: A put refines an insertion into the sorted map of the page.  On a database whose root is a
  leaf, with room for the record and no checkpoint due, whether the page is in the cache or on disk
  and whatever lock the transaction holds on it, the put succeeds; the page then has the key with
  its value and every other record as before, and the log has grown by the redo record and the undo
  record of the old value, and the undo log of the transaction by the action that brings it back.\<close>

theorem tx_put_refines_upsert:
  assumes "leaf_root t page" and "tx_view t page p dp" and "fence_bounds p = Inr fences"
    and "prefix (node_prefix p) key" and "put_fits p key val"
    and "quiet t page 2 (log_bytes (put_log t page fences key val (map_of (full_records p) key)))"
  shows "\<exists>t' q. tx_put t key val = Some (Inr (), t') \<and> tx_view t' page q dp \<and>
    full_records q = upsert key val (full_records p) \<and> fence_bounds q = Inr fences \<and>
    wal_records (wal (tx_db t')) = wal_records (wal (tx_db t)) @ put_log t page fences key val (map_of (full_records p) key) \<and>
    undo_log t' = undo_log t @ [put_undo page key (map_of (full_records p) key)]"
proof -
  obtain t' q where P: "tx_put t key val = Some (Inr (), t')" "tx_view t' page q dp"
    "full_records q = upsert key val (full_records p)" "fence_bounds q = fence_bounds p" "node_prefix q = node_prefix p"
    "logs t (put_log t page fences key val (map_of (full_records p) key)) [put_undo page key (map_of (full_records p) key)] t'"
    by (rule tx_put_spec[OF assms])
  with logsD(1,3)[OF P(6)] assms(3) show ?thesis by (intro exI[of _ t'] exI[of _ q]) (simp add: log_ext_def)
qed

lemma blank_leaf_put: "put_fits blank_leaf [5] [1]"
proof -
  have "leaf_space blank_leaf (8 + length [5 :: u8] + length [1 :: u8] + 0)" by (rule leaf_space_mono[OF blank_leaf_facts(7)]) simp
  then show ?thesis by (rule leaf_put_fresh(1)[OF blank_leaf_facts(2), rotated 2]) (simp_all add: blank_leaf_facts)
qed

lemma small_put_log: "log_bytes (put_log t page ([0], [255]) [5] [1] None) \<le> 524000"
  by (simp add: log_bytes_def put_log_def log_rec_def undo_op_def group_bytes_def record_size_def GROUP_HEADER_LEN_def)

theorem tx_put_refines_upsert_witness:
  "\<exists>d t t' q. QuickStep_new (\<lambda>_. None) [] [] [] new_log sample_config = Inr d \<and> tx_begin d = Inr t \<and>
    tx_put t [5] [1] = Some (Inr (), t') \<and> tx_view t' 0 q blank_leaf \<and> full_records q = [([5], [1])] \<and>
    undo_log t' = [UndoRemove 0 [5]]"
proof -
  obtain d t where t: "QuickStep_new (\<lambda>_. None) [] [] [] new_log sample_config = Inr d" "tx_begin d = Inr t"
    "leaf_root t 0" "tx_view t 0 blank_leaf blank_leaf" "undo_log t = []"
    "\<forall>n b. n \<le> 30 \<longrightarrow> b \<le> 524000 \<longrightarrow> quiet t 0 n b"
    by (rule sample_tx)
  have "\<exists>t' q. tx_put t [5] [1] = Some (Inr (), t') \<and> tx_view t' 0 q blank_leaf \<and>
    full_records q = upsert [5] [1] (full_records blank_leaf) \<and> fence_bounds q = Inr ([0], [255]) \<and>
    wal_records (wal (tx_db t')) = wal_records (wal (tx_db t)) @
      put_log t 0 ([0], [255]) [5] [1] (map_of (full_records blank_leaf) [5]) \<and>
    undo_log t' = undo_log t @ [put_undo 0 [5] (map_of (full_records blank_leaf) [5])]"
    by (rule tx_put_refines_upsert[OF t(3,4)]) (simp_all add: blank_leaf_facts blank_leaf_put t(6) small_put_log)
  then obtain t' q where P: "tx_put t [5] [1] = Some (Inr (), t')" "tx_view t' 0 q blank_leaf" "full_records q = [([5], [1])]"
    "undo_log t' = [UndoRemove 0 [5]]"
    by (auto simp: blank_leaf_facts t(5) put_undo_def)
  with t(1,2) show ?thesis by blast
qed

text \<open>C8: What a transaction has put it reads back.  After a successful put, a lookup of any key of the
  page gives the new value for the key that was put and the old answer for every other key, and it
  leaves the page, the log and the undo log alone.\<close>

theorem tx_get_after_put:
  assumes "leaf_root t page" and "tx_view t page p dp" and "fence_bounds p = Inr fences"
    and "prefix (node_prefix p) key" and "put_fits p key val" and "prefix (node_prefix p) key'"
    and "quiet t page 2 (log_bytes (put_log t page fences key val (map_of (full_records p) key)))"
  shows "\<exists>t1 t2 q. tx_put t key val = Some (Inr (), t1) \<and>
    tx_get t1 key' = (Inr (if key' = key then Some val else map_of (full_records p) key'), t2) \<and>
    tx_view t1 page q dp \<and> tx_view t2 page q dp \<and> undo_log t2 = undo_log t1 \<and> wal (tx_db t2) = wal (tx_db t1)"
proof -
  obtain t1 q where P: "tx_put t key val = Some (Inr (), t1)" "tx_view t1 page q dp"
    "full_records q = upsert key val (full_records p)" "fence_bounds q = fence_bounds p" "node_prefix q = node_prefix p"
    "logs t (put_log t page fences key val (map_of (full_records p) key)) [put_undo page key (map_of (full_records p) key)] t1"
    by (rule tx_put_spec[OF assms(1-5,7)])
  have k: "prefix (node_prefix q) key'" using assms(6) P(5) by simp
  obtain t2 where G: "tx_get t1 key' = (Inr (map_of (full_records q) key'), t2)" "tx_view t2 page q dp" "keeps t1 t2"
    by (rule tx_get_spec[OF leaf_root_logs[OF assms(1) P(6)] P(2) k])
  from P G keepsD[OF G(3)] show ?thesis
    by (intro exI[of _ t1] exI[of _ t2] exI[of _ q]) (simp add: map_of_upsert)
qed

theorem tx_get_after_put_witness:
  "\<exists>t t1 t2. tx_put t [5] [1] = Some (Inr (), t1) \<and> tx_get t1 [5] = (Inr (Some [1]), t2)"
proof -
  obtain d t where t: "leaf_root t 0" "tx_view t 0 blank_leaf blank_leaf"
    "\<forall>n b. n \<le> 30 \<longrightarrow> b \<le> 524000 \<longrightarrow> quiet t 0 n b"
    by (rule sample_tx)
  have "\<exists>t1 t2 q. tx_put t [5] [1] = Some (Inr (), t1) \<and>
    tx_get t1 [5] = (Inr (if [5] = [5 :: u8] then Some [1] else map_of (full_records blank_leaf) [5]), t2) \<and>
    tx_view t1 0 q blank_leaf \<and> tx_view t2 0 q blank_leaf \<and> undo_log t2 = undo_log t1 \<and> wal (tx_db t2) = wal (tx_db t1)"
    by (rule tx_get_after_put[OF t(1,2) blank_leaf_facts(4)]) (simp_all add: blank_leaf_facts blank_leaf_put t(3) small_put_log)
  then show ?thesis by auto
qed

lemma fresh_puts_start: "tx_view t page p dp \<Longrightarrow> undo_log t = [] \<Longrightarrow> fresh_puts t page p dp [] (full_records p)"
  by (simp add: fresh_puts_def stacked_def)

lemma sample_entries: "fresh_entries blank_leaf [([5], [1]), ([4], [7]), ([9], [])]"
proof -
  have "leaf_space blank_leaf (records_size [([5 :: u8], [1 :: u8]), ([4], [7]), ([9], [])])"
    by (rule leaf_space_mono[OF blank_leaf_facts(7)]) simp
  then show ?thesis by (simp add: fresh_entries_def blank_leaf_facts)
qed

lemma sample_run_log: "log_bytes (run_log t page ([0], [255]) [([5], [1]), ([4], [7]), ([9], [])]) \<le> 524000"
  by (simp add: run_log_def log_bytes_def put_log_def log_rec_def undo_op_def group_bytes_def record_size_def GROUP_HEADER_LEN_def)

text \<open>C3: An abort takes back what the transaction inserted.  A transaction that has changed nothing
  yet puts any list of new keys that fits the page and aborts: every step succeeds, the page has
  exactly the records it had before, the log ends with the abort marker and the undo log is empty.\<close>

theorem abort_restores_page:
  assumes "leaf_root t page" and "tx_view t page p dp" and "fence_bounds p = Inr fences" and "undo_log t = []"
    and "tx_state t = TxActive" and "fresh_entries p es"
    and "quiet t page (2 * length es) (log_bytes (run_log t page fences es))"
  shows "\<exists>t1 t2 q. put_run es t = Some (Inr (), t1) \<and> abort_in_place t1 = (Inr (), t2) \<and>
    tx_view t2 page q dp \<and> full_records q = full_records p \<and> tx_state t2 = TxAborted \<and> undo_log t2 = [] \<and>
    wal_records (wal (tx_db t2)) = wal_records (wal (tx_db t)) @ run_log t page fences es @ [txn_marker t TxnAbort]"
proof -
  obtain t1 q1 where R: "put_run es t = Some (Inr (), t1)" "fresh_puts t1 page q1 dp (rev (map fst es) @ []) (full_records p)"
    "logs t (run_log t page fences es) (map (UndoRemove page) (map fst es)) t1"
    using put_run_fresh[OF assms(1) fresh_puts_start[OF assms(2,4)] assms(3,6,7)] by blast
  note L = logsD[OF R(3)]
  have a: "tx_state t1 = TxActive" using L(6) assms(5) by simp
  obtain t2 q where A: "abort_in_place t1 = (Inr (), t2)" "tx_view t2 page q dp" "full_records q = full_records p"
    "tx_state t2 = TxAborted" "undo_log t2 = []"
    "wal_records (wal (tx_db t2)) = wal_records (wal (tx_db t1)) @ [txn_marker t1 TxnAbort]"
    by (rule abort_fresh[OF R(2) a])
  with R(1) L show ?thesis by (intro exI[of _ t1] exI[of _ t2] exI[of _ q]) (simp add: log_ext_def txn_marker_def)
qed

theorem abort_restores_page_witness:
  "\<exists>t t1 t2 q. put_run [([5], [1]), ([4], [7]), ([9], [])] t = Some (Inr (), t1) \<and> abort_in_place t1 = (Inr (), t2) \<and>
    tx_view t2 0 q blank_leaf \<and> full_records q = []"
proof -
  let ?es = "[([5], [1]), ([4], [7]), ([9], [])] :: (bytes \<times> bytes) list"
  obtain d t where t: "leaf_root t 0" "tx_view t 0 blank_leaf blank_leaf" "undo_log t = []" "tx_state t = TxActive"
    "\<forall>n b. n \<le> 30 \<longrightarrow> b \<le> 524000 \<longrightarrow> quiet t 0 n b"
    by (rule sample_tx)
  have "quiet t 0 (2 * length ?es) (log_bytes (run_log t 0 ([0], [255]) ?es))" using t(5) sample_run_log by simp
  from abort_restores_page[OF t(1,2) blank_leaf_facts(4) t(3,4) sample_entries this] blank_leaf_facts(3) show ?thesis by auto
qed

text \<open>C2: A committed transaction survives the loss of the cache.  A transaction puts distinct keys
  that are new to a page and have room there, with no checkpoint due, and commits; replaying the records it has logged for that page, with the status its commit
  marker gives, on the page as it was on disk restores exactly the records the transaction saw when
  it committed.\<close>

theorem committed_puts_recovered:
  assumes "leaf_root t page" and "tx_view t page p dp" and "fence_bounds p = Inr fences" and "undo_log t = []"
    and "tx_state t = TxActive" and "wal_entry_kind t = Redo" and "fresh_entries p es"
    and "quiet t page (2 * length es) (log_bytes (run_log t page fences es))"
    and "on_disk d page addr p" and "leaf_holds fences (fold (\<lambda>(k, v). upsert k v) es (full_records p))"
  shows "\<exists>t1 t2 q q' io. put_run es t = Some (Inr (), t1) \<and> commit_in_place t1 = (Inr (), t2) \<and> tx_view t2 page q dp \<and>
    wal_records (wal (tx_db t2)) = wal_records (wal (tx_db t)) @ run_log t page fences es @ [txn_marker t TxnCommit] \<and>
    replay_page (txn_statuses [txn_marker t TxnCommit]) (page, run_log t page fences es) d = (Inr (), d\<lparr>io_engine := io\<rparr>) \<and>
    get_page io addr = Inr q' \<and> full_records q' = full_records q"
proof -
  obtain t1 q1 where R: "put_run es t = Some (Inr (), t1)" "fresh_puts t1 page q1 dp (rev (map fst es) @ []) (full_records p)"
    "full_records q1 = fold (\<lambda>(k, v). upsert k v) es (full_records p)"
    "logs t (run_log t page fences es) (map (UndoRemove page) (map fst es)) t1"
    using put_run_fresh[OF assms(1) fresh_puts_start[OF assms(2,4)] assms(3,7,8)] by blast
  note L = logsD[OF R(4)]
  have v: "tx_view t1 page q1 dp" "tx_state t1 = TxActive" using R(2) L(6) assms(5) by (simp_all add: fresh_puts_def)
  obtain t2 where C: "commit_in_place t1 = (Inr (), t2)" "tx_view t2 page q1 dp"
    "wal_records (wal (tx_db t2)) = wal_records (wal (tx_db t1)) @ [txn_marker t1 TxnCommit]"
    by (rule commit_spec[OF v])
  let ?st = "txn_statuses [txn_marker t TxnCommit]"
  have st: "map_of ?st (txn_id t) = Some StatusCommitted" by (simp add: txn_statuses_def txn_status_def txn_marker_def)
  have ap: "apply_log ?st (run_log t page fences es) (full_records p) = full_records q1"
    by (simp only: apply_run_log(1)[OF assms(6) st] R(3))
  obtain q' io where Q: "replay_page ?st (page, run_log t page fences es) d = (Inr (), d\<lparr>io_engine := io\<rparr>)"
    "get_page io addr = Inr q'" "full_records q' = full_records q1"
    by (rule replay_apply_log[OF assms(9,3), of "run_log t page fences es" ?st])
      (use assms(10) R(3) ap run_log_fences[of _ t page "fst fences" "snd fences" es] in \<open>auto\<close>)
  from R(1) C(1,2) Q have "put_run es t = Some (Inr (), t1) \<and> commit_in_place t1 = (Inr (), t2) \<and> tx_view t2 page q1 dp \<and>
    replay_page ?st (page, run_log t page fences es) d = (Inr (), d\<lparr>io_engine := io\<rparr>) \<and>
    get_page io addr = Inr q' \<and> full_records q' = full_records q1" by blast
  moreover have "wal_records (wal (tx_db t2)) = wal_records (wal (tx_db t)) @ run_log t page fences es @ [txn_marker t TxnCommit]"
    using C(3) L by (simp add: log_ext_def txn_marker_def)
  ultimately show ?thesis by blast
qed

theorem committed_puts_recovered_witness:
  "\<exists>d t t1 t2 q' io. put_run [([5], [1]), ([4], [7]), ([9], [])] t = Some (Inr (), t1) \<and> commit_in_place t1 = (Inr (), t2) \<and>
    replay_page (txn_statuses [txn_marker t TxnCommit])
      (0, run_log t 0 ([0], [255]) [([5], [1]), ([4], [7]), ([9], [])]) d = (Inr (), d\<lparr>io_engine := io\<rparr>) \<and>
    get_page io 0 = Inr q'"
proof -
  let ?es = "[([5], [1]), ([4], [7]), ([9], [])] :: (bytes \<times> bytes) list"
  obtain d t where t: "leaf_root t 0" "tx_view t 0 blank_leaf blank_leaf" "undo_log t = []" "tx_state t = TxActive" "wal_entry_kind t = Redo"
    "\<forall>n b. n \<le> 30 \<longrightarrow> b \<le> 524000 \<longrightarrow> quiet t 0 n b" "on_disk d 0 0 blank_leaf"
    by (rule sample_tx)
  have q: "quiet t 0 (2 * length ?es) (log_bytes (run_log t 0 ([0], [255]) ?es))" using t(6) sample_run_log by simp
  have h: "leaf_holds ([0], [255]) (fold (\<lambda>(k, v). upsert k v) ?es (full_records blank_leaf))"
    by (simp add: leaf_holds_def blank_leaf_facts(3))
  from committed_puts_recovered[OF t(1,2) blank_leaf_facts(4) t(3-5) sample_entries q t(7) h] show ?thesis by blast
qed

lemma replay_nothing:
  assumes d: "on_disk d page addr p" and e: "apply_log statuses rs (full_records p) = []"
  shows "replay_page statuses (page, rs) d = (Inr (), d)"
proof -
  have c: "unat page < MapTable_capacity (map_table d)" and w: "get_entry (map_table d) (unat page) = PageEntry_leaf addr"
    and a: "unat addr < 2 ^ 48" and p: "get_page (io_engine d) addr = Inr p" "leaf_wf p"
    using d by (simp_all add: on_disk_def)
  obtain fences where f: "fence_bounds p = Inr fences" using fence_bounds_eq[OF p(2)] by simp
  let ?w = "get_entry (map_table d) (unat page)"
  let ?mt = "set_entry (map_table d) (unat page) (PageEntry_set_state ?w 1)"
  have free: "entry_free ?w" and ne: "?w \<noteq> 0" and ref: "PageEntry_get_ref ?w = Leaf addr"
    using w a by (simp_all add: entry_free_def leaf_entry_nonzero)
  note R = read_drop_same[OF c free]
  have "snd (fold (replay_record statuses) rs (x, es)) = apply_log statuses rs es" for x es
    by (induction rs arbitrary: x es) (auto simp: replay_record_def apply_wal_op_def split: WalOp.split)
  then obtain y where y: "fold (replay_record statuses) rs (None, full_records p) = (y, [])"
    using e by (metis prod.collapse)
  have "fold (\<lambda>(k, v). upsert k v) (full_records p) [] = full_records p"
    using fold_upsert_sorted[of "[]" "full_records p"] full_records_sorted[OF p(2)] by simp
  then have "replay_on (d\<lparr>map_table := ?mt\<rparr>) statuses rs (Leaf addr) = (Inr (), d\<lparr>map_table := ?mt\<rparr>)"
    using p f y by (simp add: replay_on_def disk_addr_of_ref_def collect_fence_keys_wf collect_user_records_wf)
  with R c ne ref show ?thesis
    by (simp add: replay_page_def has_entry_def del: drop_guard.simps)
qed

text \<open>C9: Recovery takes back a transaction that was cut off, if it wrote every key once and none that
  the page had.  A transaction puts distinct keys that are new to a page and have room there, with no
  checkpoint due, and never reaches its commit; replaying the records it has logged for the page, with no commit
  marker, leaves the page on disk with exactly the records it had.\<close>

theorem unfinished_puts_undone:
  assumes "leaf_root t page" and "tx_view t page p dp" and "fence_bounds p = Inr fences" and "undo_log t = []"
    and "wal_entry_kind t = Redo" and "fresh_entries p es"
    and "quiet t page (2 * length es) (log_bytes (run_log t page fences es))"
    and "on_disk d page addr p" and "full_records p = [] \<or> leaf_holds fences (full_records p)"
  shows "\<exists>t1 q' io. put_run es t = Some (Inr (), t1) \<and>
    wal_records (wal (tx_db t1)) = wal_records (wal (tx_db t)) @ run_log t page fences es \<and>
    replay_page [] (page, run_log t page fences es) d = (Inr (), d\<lparr>io_engine := io\<rparr>) \<and>
    get_page io addr = Inr q' \<and> full_records q' = full_records p"
proof -
  obtain t1 where R: "put_run es t = Some (Inr (), t1)"
    "logs t (run_log t page fences es) (map (UndoRemove page) (map fst es)) t1"
    using put_run_fresh[OF assms(1) fresh_puts_start[OF assms(2,4)] assms(3,6,7)] by blast
  have fr: "map_of (full_records p) k = None" if "k \<in> set (map fst es)" for k
    using that assms(6) by (auto simp: fresh_entries_def list_all_iff)
  have "k \<notin> set (map fst es)" if "(k, v) \<in> set (full_records p)" for k v
    using fr[of k] weak_map_of_SomeI[OF that] by (metis option.distinct(1))
  then have f: "filter (\<lambda>(k, _). k \<notin> set (map fst es)) (full_records p) = full_records p" by (simp only: filter_id_conv) blast
  have ap: "apply_log [] (run_log t page fences es) (full_records p) = full_records p"
    using apply_run_log(2)[OF assms(5), of "[]" page fences es "full_records p"] f by simp
  have "\<exists>q' io. replay_page [] (page, run_log t page fences es) d = (Inr (), d\<lparr>io_engine := io\<rparr>) \<and>
    get_page io addr = Inr q' \<and> full_records q' = full_records p"
  proof (cases "full_records p = []")
    case True
    with ap replay_nothing[OF assms(8)] have "replay_page [] (page, run_log t page fences es) d = (Inr (), d)" by simp
    then show ?thesis using assms(8) by (intro exI[of _ p] exI[of _ "io_engine d"]) (simp add: on_disk_def)
  next
    case False
    then have h: "leaf_holds fences (apply_log [] (run_log t page fences es) (full_records p))" using assms(9) by (simp add: ap)
    have fs: "wal_lower_fence r = fst fences \<and> wal_upper_fence r = snd fences" if "r \<in> set (run_log t page fences es)" for r
      using run_log_fences[of r t page "fst fences" "snd fences" es] that by simp
    obtain q' io where "replay_page [] (page, run_log t page fences es) d = (Inr (), d\<lparr>io_engine := io\<rparr>)"
      "get_page io addr = Inr q'" "full_records q' = full_records p"
      by (rule replay_apply_log[OF assms(8,3) fs h, unfolded ap])
    then show ?thesis by blast
  qed
  moreover have "wal_records (wal (tx_db t1)) = wal_records (wal (tx_db t)) @ run_log t page fences es"
    using logsD(1)[OF R(2)] by (simp add: log_ext_def)
  ultimately show ?thesis using R(1) by blast
qed

theorem unfinished_puts_undone_witness:
  "\<exists>d t t1 q' io. put_run [([5], [1]), ([4], [7]), ([9], [])] t = Some (Inr (), t1) \<and>
    replay_page [] (0, run_log t 0 ([0], [255]) [([5], [1]), ([4], [7]), ([9], [])]) d = (Inr (), d\<lparr>io_engine := io\<rparr>) \<and>
    get_page io 0 = Inr q' \<and> full_records q' = []"
proof -
  let ?es = "[([5], [1]), ([4], [7]), ([9], [])] :: (bytes \<times> bytes) list"
  obtain d t where t: "leaf_root t 0" "tx_view t 0 blank_leaf blank_leaf" "undo_log t = []" "wal_entry_kind t = Redo"
    "\<forall>n b. n \<le> 30 \<longrightarrow> b \<le> 524000 \<longrightarrow> quiet t 0 n b" "on_disk d 0 0 blank_leaf"
    by (rule sample_tx)
  have q: "quiet t 0 (2 * length ?es) (log_bytes (run_log t 0 ([0], [255]) ?es))" using t(5) sample_run_log by simp
  have h: "full_records blank_leaf = [] \<or> leaf_holds ([0], [255]) (full_records blank_leaf)" by (simp add: blank_leaf_facts(3))
  have "\<exists>t1 q' io. put_run ?es t = Some (Inr (), t1) \<and>
    wal_records (wal (tx_db t1)) = wal_records (wal (tx_db t)) @ run_log t 0 ([0], [255]) ?es \<and>
    replay_page [] (0, run_log t 0 ([0], [255]) ?es) d = (Inr (), d\<lparr>io_engine := io\<rparr>) \<and>
    get_page io 0 = Inr q' \<and> full_records q' = full_records blank_leaf"
    by (rule unfinished_puts_undone[OF t(1,2) blank_leaf_facts(4) t(3,4) sample_entries q t(6) h])
  then show ?thesis by (auto simp: blank_leaf_facts(3))
qed

lemma put_fits_same:
  assumes "prefix (node_prefix p) key" and "map_of (full_records p) key = Some w" and "length w = length v"
  shows "put_fits p key v"
proof -
  obtain k where k: "key = node_prefix p @ k" using assms(1) by (auto simp: prefix_def)
  have "map_of (user_records p) k = Some w" using assms(2) by (simp add: k full_records_def map_of_prefix)
  with assms(3) show ?thesis by (simp add: put_fits_def suffix_fits_def k)
qed

text \<open>C29: Recovery leaves a value that was never committed.  The undo records of a page are replayed in the
  order in which they were logged, so a transaction that puts a new key twice and is cut off before its
  commit leaves its first value on disk: the first undo record removes the key, the second one puts it
  back with the value the first put gave it.\<close>

theorem second_undo_restores_first_put:
  assumes "leaf_root t page" and "tx_view t page p dp" and "fence_bounds p = Inr fences" and "wal_entry_kind t = Redo"
    and "prefix (node_prefix p) key" and "map_of (full_records p) key = None"
    and "put_fits p key v1" and "length v2 = length v1"
    and "quiet t page 4 (log_bytes (put_log t page fences key v1 None @ put_log t page fences key v2 (Some v1)))"
    and "on_disk d page addr p" and "leaf_holds fences (upsert key v1 (full_records p))"
  shows "\<exists>t1 t2 q io. tx_put t key v1 = Some (Inr (), t1) \<and> tx_put t1 key v2 = Some (Inr (), t2) \<and>
    wal_records (wal (tx_db t2)) = wal_records (wal (tx_db t)) @
      put_log t page fences key v1 None @ put_log t page fences key v2 (Some v1) \<and>
    replay_page [] (page, put_log t page fences key v1 None @ put_log t page fences key v2 (Some v1)) d =
      (Inr (), d\<lparr>io_engine := io\<rparr>) \<and>
    get_page io addr = Inr q \<and> map_of (full_records p) key = None \<and> map_of (full_records q) key = Some v1"
proof -
  let ?l1 = "put_log t page fences key v1 None" and ?l2 = "put_log t page fences key v2 (Some v1)"
  have lb: "log_bytes (?l1 @ ?l2) = log_bytes ?l1 + log_bytes ?l2" by (simp add: log_bytes_def)
  have q1: "quiet t page 2 (log_bytes (put_log t page fences key v1 (map_of (full_records p) key)))"
    using assms(9) by (simp add: quiet_def lb assms(6))
  obtain t1 q where P: "tx_put t key v1 = Some (Inr (), t1)" "tx_view t1 page q dp"
    "full_records q = upsert key v1 (full_records p)" "fence_bounds q = fence_bounds p" "node_prefix q = node_prefix p"
    "logs t (put_log t page fences key v1 (map_of (full_records p) key)) [put_undo page key (map_of (full_records p) key)] t1"
    by (rule tx_put_spec[OF assms(1-3,5,7) q1])
  have lg: "logs t ?l1 [put_undo page key None] t1" using P(6) by (simp add: assms(6))
  note L = logsD[OF lg]
  have q: "prefix (node_prefix q) key" "map_of (full_records q) key = Some v1" "fence_bounds q = Inr fences"
    using P(3-5) assms(3,5) by (simp_all add: map_of_upsert)
  have l2: "put_log t1 page fences key v2 (Some v1) = ?l2" using L(4,5) by (simp add: put_log_def)
  have "quiet t page (2 + 2) (log_bytes ?l1 + log_bytes ?l2)" using assms(9) by (simp add: lb)
  from quiet_logs[OF this lg] have qt: "quiet t1 page 2 (log_bytes (put_log t1 page fences key v2 (map_of (full_records q) key)))"
    using put_log_page by (simp add: q(2) l2)
  have pf: "put_fits q key v2" by (rule put_fits_same[OF q(1,2)]) (simp add: assms(8))
  obtain t2 q2 where P2: "tx_put t1 key v2 = Some (Inr (), t2)" "tx_view t2 page q2 dp"
    "logs t1 (put_log t1 page fences key v2 (map_of (full_records q) key)) [put_undo page key (map_of (full_records q) key)] t2"
    by (rule tx_put_spec[OF leaf_root_logs[OF assms(1) lg] P(2) q(3,1) pf qt])
  have w: "wal_records (wal (tx_db t2)) = wal_records (wal (tx_db t)) @ ?l1 @ ?l2"
    using logsD(1)[OF P2(3)] L(1) by (simp add: log_ext_def q(2) l2)
  have "key \<notin> fst ` set (full_records p)" using assms(6) by (simp add: map_of_eq_None_iff)
  then have "filter (\<lambda>(k, _). k \<noteq> key) (full_records p) = full_records p" by (force simp: filter_id_conv)
  then have ap: "apply_log [] (?l1 @ ?l2) (full_records p) = upsert key v1 (full_records p)"
    by (simp add: apply_put_log[OF assms(4)] undo_op_def apply_wal_op_def)
  have fs: "wal_lower_fence r = fst fences \<and> wal_upper_fence r = snd fences" if "r \<in> set (?l1 @ ?l2)" for r
    using that by (auto simp: put_log_def log_rec_def)
  have h: "leaf_holds fences (apply_log [] (?l1 @ ?l2) (full_records p))" using assms(11) by (simp only: ap)
  obtain q' io where Q: "replay_page [] (page, ?l1 @ ?l2) d = (Inr (), d\<lparr>io_engine := io\<rparr>)"
    "get_page io addr = Inr q'" "full_records q' = upsert key v1 (full_records p)"
    by (rule replay_apply_log[OF assms(10,3) fs h, unfolded ap])
  have "map_of (full_records q') key = Some v1" by (simp add: Q(3) map_of_upsert)
  with P(1) P2(1) w Q(1,2) assms(6) show ?thesis by blast
qed

theorem second_undo_restores_first_put_witness:
  "\<exists>d t t1 t2 q io. tx_put t [5] [1] = Some (Inr (), t1) \<and> tx_put t1 [5] [2] = Some (Inr (), t2) \<and>
    replay_page [] (0, put_log t 0 ([0], [255]) [5] [1] None @ put_log t 0 ([0], [255]) [5] [2] (Some [1])) d =
      (Inr (), d\<lparr>io_engine := io\<rparr>) \<and> get_page io 0 = Inr q \<and> map_of (full_records q) [5] = Some [1]"
proof -
  obtain d t where t: "leaf_root t 0" "tx_view t 0 blank_leaf blank_leaf" "wal_entry_kind t = Redo"
    "\<forall>n b. n \<le> 30 \<longrightarrow> b \<le> 524000 \<longrightarrow> quiet t 0 n b" "on_disk d 0 0 blank_leaf"
    by (rule sample_tx)
  let ?l = "put_log t 0 ([0], [255]) [5] [1] None @ put_log t 0 ([0], [255]) [5] [2] (Some [1])"
  have "log_bytes ?l \<le> 524000"
    by (simp add: log_bytes_def put_log_def log_rec_def undo_op_def group_bytes_def record_size_def GROUP_HEADER_LEN_def)
  then have q: "quiet t 0 4 (log_bytes ?l)" using t(4) by simp
  have h: "leaf_holds ([0], [255]) (upsert [5] [1] (full_records blank_leaf))" by (simp add: leaf_holds_def blank_leaf_facts(3))
  have k: "prefix (node_prefix blank_leaf) [5]" "map_of (full_records blank_leaf) [5] = None" "length [2 :: u8] = length [1 :: u8]"
    by (simp_all add: blank_leaf_facts)
  from second_undo_restores_first_put[OF t(1,2) blank_leaf_facts(4) t(3) k(1,2) blank_leaf_put k(3) q t(5) h]
  show ?thesis by blast
qed

lemma max_by_bytes_in: "xs \<noteq> [] \<Longrightarrow> \<exists>x \<in> set xs. max_by_bytes xs = Some x"
proof (induction xs)
  case (Cons x xs)
  then show ?case by (cases "xs = []") (auto split: option.split)
qed simp

lemma only_candidate:
  assumes "fst ` set (leaf_counts w) \<subseteq> {page, TXN_META_PAGE_ID}" and "page \<in> fst ` set (leaf_counts w)" and "page \<noteq> TXN_META_PAGE_ID"
    and "n \<le> total_records w"
  shows "global_checkpoint_candidate w n b = Some page"
proof -
  let ?xs = "filter (\<lambda>(page, _). page \<noteq> TXN_META_PAGE_ID) (leaf_counts w)"
  have "?xs \<noteq> []" using assms(2,3) by (auto simp: filter_empty_conv)
  then obtain x where x: "x \<in> set ?xs" "max_by_bytes ?xs = Some x" using max_by_bytes_in by blast
  then have "fst x = page" using assms(1) by auto
  with x(2) assms(4) show ?thesis by (simp add: global_checkpoint_candidate_def)
qed

text \<open>C31: A put panics when the global checkpoint picks the page it is writing.  The put still holds
  its handle on the page when the checkpoint asks the lock manager for another one.  So, on a
  database whose log only names one page, every put that finds the checkpoint requested, or that
  reaches the record threshold, changes the page and then fails the assertion on the handle.\<close>

theorem global_checkpoint_panics:
  assumes "leaf_root t page" and "tx_view t page p dp" and "fence_bounds p = Inr fences"
    and "prefix (node_prefix p) key" and "put_fits p key val" and "leaf_quiet t page 2"
    and "page \<noteq> TXN_META_PAGE_ID" and "fst ` set (leaf_counts (wal (tx_db t))) \<subseteq> {page, TXN_META_PAGE_ID}"
    and "wal_checkpoint_requested (tx_db t) \<or> wal_global_record_threshold (tx_db t) \<le> total_records (wal (tx_db t)) + 2"
  shows "\<exists>t' q. tx_put t key val = Some (Inl (Panic PanicAssert), t') \<and> tx_view t' page q dp \<and>
    full_records q = upsert key val (full_records p)"
proof -
  let ?old = "map_of (full_records p) key"
  obtain t1 q where P: "tx_put t key val = Some (release page (maybe_global_checkpoint t1))" "locked t1 page q dp"
    "full_records q = upsert key val (full_records p)"
    "logs t (put_log t page fences key val ?old) [put_undo page key ?old] t1"
    by (rule tx_put_until_checkpoint[OF assms(1-6)])
  note L = logsD[OF P(4)]
  let ?w = "wal (tx_db t1)"
  have keys: "fst ` set (leaf_counts ?w) \<subseteq> {page, TXN_META_PAGE_ID}" "page \<in> fst ` set (leaf_counts ?w)"
    using L(1) assms(8) by (auto simp: log_ext_def put_log_def log_rec_def)
  have n: "total_records ?w = total_records (wal (tx_db t)) + 2" using L(1) by (simp add: log_ext_def put_log_def)
  note C = only_candidate[OF keys assms(7)]
  have cand: "checkpoint_candidate (tx_db t1) = Some page"
  proof (cases "wal_global_record_threshold (tx_db t1) \<le> total_records ?w")
    case True
    then show ?thesis using C by (simp add: checkpoint_candidate_def)
  next
    case False
    then have req: "wal_checkpoint_requested (tx_db t1)" using assms(9) L(8,10) n by simp
    have "global_checkpoint_candidate ?w a b \<in> {None, Some page}" for a b
      using C[of 0 b] by (auto simp: global_checkpoint_candidate_def)
    from this[of "wal_global_record_threshold (tx_db t1)" "wal_global_byte_threshold (tx_db t1)"]
    show ?thesis using C[of 0 0] req by (auto simp: checkpoint_candidate_def)
  qed
  obtain s w where s: "get_slot (lock_manager t1) page = Some s" "guard_inner (slot_guard s) = Write page w" "borrowed s"
    "unat page < MapTable_capacity (map_table (tx_db t1))"
    by (rule lockedE[OF P(2)])
  let ?t2 = "t1\<lparr>lock_manager := set_slot (lock_manager t1) page s\<rparr>"
  have acq: "acquire_write t1 page = (Inl (Panic PanicAssert), ?t2)"
    using acquire_write_held[OF s(1,2), of "map_table (tx_db t1)"] s(3,4) by (simp add: acquire_write_def)
  have l2: "locked ?t2 page q dp" using P(2) s(1) by (simp add: locked_def)
  obtain t3 where "release page (Inl (Panic PanicAssert) :: unit result, ?t2) = (Inl (Panic PanicAssert), t3)" "tx_view t3 page q dp"
    by (rule release_view[OF l2])
  with P(1,3) cand acq show ?thesis by (intro exI[of _ t3] exI[of _ q]) (simp add: maybe_global_checkpoint_def)
qed

theorem global_checkpoint_panics_witness:
  "\<exists>t t'. tx_put t [5] [1] = Some (Inl (Panic PanicAssert), t')"
proof -
  obtain d t where t: "leaf_root t 0" "tx_view t 0 blank_leaf blank_leaf" 
    "\<forall>n b. n \<le> 30 \<longrightarrow> b \<le> 524000 \<longrightarrow> quiet t 0 n b" "fst ` set (leaf_counts (wal (tx_db t))) \<subseteq> {TXN_META_PAGE_ID}"
    by (rule sample_tx)
  let ?t = "t\<lparr>tx_db := (tx_db t)\<lparr>wal_checkpoint_requested := True\<rparr>\<rparr>"
  have r: "leaf_root ?t 0" using t(1) by (simp add: leaf_root_def)
  have v: "tx_view ?t 0 blank_leaf blank_leaf"
    using t(2) by (simp add: tx_view_def Let_def page_data_def page_of_ref_def split: option.splits GuardWrapper.splits NodeRef.splits)
  have q: "leaf_quiet ?t 0 2" using t(3) quiet_leaf[of t 0 2 0] by (simp add: leaf_quiet_def)
  have "\<exists>t' q. tx_put ?t [5] [1] = Some (Inl (Panic PanicAssert), t') \<and> tx_view t' 0 q blank_leaf \<and>
    full_records q = upsert [5] [1] (full_records blank_leaf)"
    by (rule global_checkpoint_panics[OF r v blank_leaf_facts(4) _ blank_leaf_put q])
      (use t(4) in \<open>auto simp: blank_leaf_facts TXN_META_PAGE_ID_def\<close>)
  then show ?thesis by blast
qed


definition delete_record :: WalRecord where
  "delete_record = (put_record 0 [5] [])\<lparr>wal_op := Tombstone\<rparr>"


end
